(* ===== verification/Db_Prelude.thy ===== *)
theory Db_Prelude
  imports Main "HOL-Library.Word" "HOL-Library.List_Lexorder"
begin

unbundle bit_operations_syntax

section \<open>Shared vocabulary of the development\<close>

text \<open>
  What every component uses: byte strings, the result type of operations that may abort,
  C strings, reads through a pointer, and generic lemmas on lists and words.

  A \<open>std::string\<close> or \<open>std::string_view\<close> is a list of bytes. \<open>std::string\<close> compares bytes as
  unsigned, which is the order of \<open>8 word\<close>, lexicographically (\<open>List_Lexorder\<close>).
\<close>

type_synonym byte = "8 word"
type_synonym u32 = "32 word"
type_synonym u64 = "64 word"
type_synonym bytes = "byte list"

named_theorems codec_simps \<open>definitions of the fixed-width encoders and decoders\<close>
named_theorems status_simps \<open>definitions that decide comparisons of status values\<close>

subsection \<open>Results of operations that may not return\<close>

text \<open>
  The repository is built with assertions enabled. An operation that may fail to return
  normally yields a \<open>fault\<close> on the left: a failed \<open>assert\<close>, undefined behaviour
  (a read or write outside an object, a division by zero), an exception that leaves the
  operation, or a pointer loop that leaves the structure it walks or does not stop.
\<close>

datatype fault = Assert_Failed | Undefined_Behaviour | No_Return | Exception_Thrown

type_synonym 'a res = "fault + 'a"

definition bind_res :: "'a res \<Rightarrow> ('a \<Rightarrow> 'b res) \<Rightarrow> 'b res" where
  "bind_res m f = (case m of Inl e \<Rightarrow> Inl e | Inr x \<Rightarrow> f x)"

definition assert_res :: "bool \<Rightarrow> 'a res \<Rightarrow> 'a res" where
  "assert_res b m = (if b then m else Inl Assert_Failed)"

definition loop_res :: "'a option \<Rightarrow> 'a res" where
  "loop_res m = (case m of None \<Rightarrow> Inl No_Return | Some x \<Rightarrow> Inr x)"

definition option_res :: "fault \<Rightarrow> 'a option \<Rightarrow> 'a res" where
  "option_res e m = (case m of None \<Rightarrow> Inl e | Some x \<Rightarrow> Inr x)"

lemma bind_res_simps [simp]:
  "bind_res (Inl e) f = Inl e"
  "bind_res (Inr x) f = f x"
  by (simp_all add: bind_res_def)

lemma bind_res_Inr_iff: "bind_res m f = Inr y \<longleftrightarrow> (\<exists>x. m = Inr x \<and> f x = Inr y)"
  by (cases m) auto

lemma assert_res_simps [simp]:
  "assert_res True m = m"
  "assert_res False m = Inl Assert_Failed"
  by (simp_all add: assert_res_def)

lemma assert_res_Inr_iff: "assert_res b m = Inr y \<longleftrightarrow> b \<and> m = Inr y"
  by (simp add: assert_res_def)

lemma loop_res_simps [simp]:
  "loop_res None = Inl No_Return"
  "loop_res (Some x) = Inr x"
  by (simp_all add: loop_res_def)

lemma option_res_simps [simp]:
  "option_res e None = Inl e"
  "option_res e (Some x) = Inr x"
  by (simp_all add: option_res_def)

lemma bind_res_assoc: "bind_res (bind_res m f) g = bind_res m (\<lambda>x. bind_res (f x) g)"
  by (cases m) simp_all

subsection \<open>Byte strings\<close>

text \<open>A string literal of the source, as bytes.\<close>

definition str :: "string \<Rightarrow> bytes" where
  "str s = map of_char s"

lemma length_str [simp]: "length (str s) = length s"
  by (simp add: str_def)

text \<open>
  A \<open>const char *\<close> handed to a parameter of type \<open>std::string\<close> or \<open>std::string_view\<close> is
  read up to its first NUL byte. \<open>data()\<close> of a \<open>std::string\<close> is followed by a NUL, so the
  result is the string itself exactly when it holds no NUL byte.
\<close>

definition c_str :: "bytes \<Rightarrow> bytes" where
  "c_str s = takeWhile (\<lambda>b. b \<noteq> 0) s"

definition no_nul :: "bytes \<Rightarrow> bool" where
  "no_nul s \<longleftrightarrow> 0 \<notin> set s"

lemma c_str_id [simp]: "no_nul s \<Longrightarrow> c_str s = s"
  by (auto simp: c_str_def no_nul_def takeWhile_eq_all_conv)

lemma no_nul_c_str [simp]: "no_nul (c_str s)"
  by (auto simp: c_str_def no_nul_def dest: set_takeWhileD)

lemma c_str_Nil [simp]: "c_str [] = []"
  by (simp add: c_str_def)

lemma no_nul_Nil [simp]: "no_nul []"
  by (simp add: no_nul_def)

lemma c_str_stops: "no_nul s \<Longrightarrow> c_str (s @ 0 # t) = s"
  by (auto simp: c_str_def no_nul_def takeWhile_append)

text \<open>\<open>n\<close> bytes read through a pointer at offset \<open>i\<close> of a buffer.\<close>

definition read_at :: "bytes \<Rightarrow> nat \<Rightarrow> nat \<Rightarrow> bytes res" where
  "read_at buf i n = (if i + n \<le> length buf then Inr (take n (drop i buf)) else Inl Undefined_Behaviour)"

lemma read_at_append_left [simp]:
  "i + n \<le> length xs \<Longrightarrow> read_at (xs @ ys) i n = read_at xs i n"
  by (simp add: read_at_def)

lemma read_at_middle:
  "i = length xs \<Longrightarrow> n = length ys \<Longrightarrow> read_at (xs @ ys @ zs) i n = Inr ys"
  by (simp add: read_at_def)

subsection \<open>Lists\<close>

lemma dropWhile_sorted_ge:
  assumes "sorted_wrt (\<lambda>a b. f a < (f b :: 'k :: linorder)) xs"
    and "x \<in> set (dropWhile (\<lambda>a. f a < k) xs)"
  shows "k \<le> f x"
  using assms by (induction xs) (auto split: if_splits)

subsection \<open>Machine arithmetic\<close>

text \<open>Division of C++ integers truncates towards zero.\<close>

definition cdiv :: "int \<Rightarrow> int \<Rightarrow> int" where
  "cdiv a b = sgn a * sgn b * (\<bar>a\<bar> div \<bar>b\<bar>)"

lemma cdiv_nonneg: "0 \<le> a \<Longrightarrow> 0 < b \<Longrightarrow> cdiv a b = a div b"
  by (cases "a = 0") (simp_all add: cdiv_def)

text \<open>\<open>static_cast<int32_t>\<close> keeps the low 32 bits, read as a signed number.\<close>

definition to_int32 :: "int \<Rightarrow> int" where
  "to_int32 n = sint (word_of_int n :: 32 word)"

lemma to_int32_id [simp]: "0 \<le> n \<Longrightarrow> n < 2 ^ 31 \<Longrightarrow> to_int32 n = n"
  by (simp add: to_int32_def sint_word_ariths signed_take_bit_int_eq_self sint_sbintrunc')

lemma to_int32_of_nat [simp]: "n < 2 ^ 31 \<Longrightarrow> to_int32 (int n) = int n"
  by (rule to_int32_id) simp_all

subsection \<open>Words\<close>

lemma and_ff_take_bit: "(v :: 'a :: len word) AND 0xff = take_bit 8 v"
  by (simp add: take_bit_eq_mask mask_eq_exp_minus_1)

lemma ucast_and_ff: "(ucast ((v :: 'a :: len word) AND 0xff) :: byte) = ucast v"
  unfolding and_ff_take_bit
  by (rule bit_word_eqI) (auto simp: bit_simps)

lemma byte_bit_high: "8 \<le> n \<Longrightarrow> \<not> bit (b :: byte) n"
  using bit_imp_le_length [of b n] by auto

text \<open>Byte \<open>k div 8\<close> of a word, put back in its place.\<close>

definition byte_slice :: "nat \<Rightarrow> 'a :: len word \<Rightarrow> 'a word" where
  "byte_slice k v = push_bit k (ucast (ucast (drop_bit k v) :: byte))"

lemma bit_byte_slice:
  "bit (byte_slice k (v :: 'a :: len word)) n \<longleftrightarrow> k \<le> n \<and> n < k + 8 \<and> bit v n"
proof (cases "k \<le> n")
  case True
  then obtain m where n: "n = k + m" by (auto simp: le_iff_add)
  show ?thesis
    using bit_imp_le_length [of v n] by (auto simp: byte_slice_def bit_simps n)
next
  case False
  then show ?thesis by (simp add: byte_slice_def bit_simps)
qed

lemma byte_slices_32:
  "byte_slice 0 v OR byte_slice 8 v OR byte_slice 16 v OR byte_slice 24 v = (v :: 32 word)"
  by (rule bit_word_eqI) (simp add: bit_simps bit_byte_slice, linarith)

lemma byte_slices_64:
  "byte_slice 0 v OR byte_slice 8 v OR byte_slice 16 v OR byte_slice 24 v
    OR byte_slice 32 v OR byte_slice 40 v OR byte_slice 48 v OR byte_slice 56 v = (v :: 64 word)"
  by (rule bit_word_eqI) (simp add: bit_or_iff bit_byte_slice, linarith)

subsection \<open>Decimal numbers\<close>

text \<open>\<open>std::to_string\<close> of a non-negative integer, and of any integer.\<close>

fun to_string :: "nat \<Rightarrow> bytes" where
  "to_string n =
     (if n < 10 then [48 + of_nat n] else to_string (n div 10) @ [48 + of_nat (n mod 10)])"

declare to_string.simps [simp del]

definition to_string_int :: "int \<Rightarrow> bytes" where
  "to_string_int i = (if i < 0 then 45 # to_string (nat (- i)) else to_string (nat i))"

definition is_digit :: "byte \<Rightarrow> bool" where
  "is_digit b \<longleftrightarrow> 48 \<le> b \<and> b \<le> 57"

fun digits_value :: "nat \<Rightarrow> bytes \<Rightarrow> nat" where
  "digits_value acc [] = acc"
| "digits_value acc (b # bs) = digits_value (10 * acc + (unat b - 48)) bs"

lemma digit_byte:
  assumes "d < 10"
  shows "unat (48 + of_nat d :: byte) = 48 + d" and "is_digit (48 + of_nat d)"
proof -
  show u: "unat (48 + of_nat d :: byte) = 48 + d"
    using assms by (simp add: unat_word_ariths unat_of_nat)
  show "is_digit (48 + of_nat d)"
    using assms by (simp add: is_digit_def word_le_nat_alt u)
qed

lemma to_string_digits: "\<forall>b \<in> set (to_string n). is_digit b"
  by (induction n rule: to_string.induct)
    (subst to_string.simps, auto simp: digit_byte(2))

lemma to_string_digits' [simp]: "b \<in> set (to_string n) \<Longrightarrow> is_digit b"
  using to_string_digits by blast

lemma to_string_nonempty [simp]: "to_string n \<noteq> []"
  by (subst to_string.simps) simp

lemma digits_value_append: "digits_value acc (xs @ ys) = digits_value (digits_value acc xs) ys"
  by (induction xs arbitrary: acc) simp_all

lemma digits_value_to_string [simp]: "digits_value 0 (to_string n) = n"
proof (induction n rule: to_string.induct)
  case (1 n)
  show ?case
  proof (cases "n < 10")
    case True
    then show ?thesis by (subst to_string.simps) (simp add: digit_byte(1))
  next
    case False
    have "n mod 10 < 10" by simp
    with False 1 show ?thesis
      by (subst to_string.simps) (simp add: digits_value_append digit_byte(1))
  qed
qed

lemma to_string_inj [simp]: "to_string m = to_string n \<longleftrightarrow> m = n"
  by (metis digits_value_to_string)

lemma no_nul_to_string [simp]: "0 \<notin> set (to_string n)"
  using to_string_digits [of n] by (auto simp: is_digit_def)

end
