(* ===== verification/Codec.thy ===== *)
theory Codec
  imports Db_Prelude
begin

section \<open>Fixed-width little-endian encoding\<close>

text \<open>
  The functions of \<open>src/utils/codec.cpp\<close> and \<open>src/utils/codec.h\<close>. An encoder writes
  through a \<open>char *\<close>; the model returns the bytes written, in address order. A decoder
  reads through a pointer; the model takes the bytes from the pointer on and faults when
  there are too few. The lemmas show the round trips in both directions and the layout.
\<close>

definition EncodeFixed8 :: "byte \<Rightarrow> bytes" where
  "EncodeFixed8 val = [val AND 0xff]"

definition EncodeFixed32 :: "u32 \<Rightarrow> bytes" where
  "EncodeFixed32 val =
     [ucast (val AND 0xff),
      ucast (drop_bit 8 val AND 0xff),
      ucast (drop_bit 16 val AND 0xff),
      ucast (drop_bit 24 val AND 0xff)]"

definition EncodeFixed64 :: "u64 \<Rightarrow> bytes" where
  "EncodeFixed64 val =
     [ucast (val AND 0xff),
      ucast (drop_bit 8 val AND 0xff),
      ucast (drop_bit 16 val AND 0xff),
      ucast (drop_bit 24 val AND 0xff),
      ucast (drop_bit 32 val AND 0xff),
      ucast (drop_bit 40 val AND 0xff),
      ucast (drop_bit 48 val AND 0xff),
      ucast (drop_bit 56 val AND 0xff)]"

fun DecodeFixed8 :: "bytes \<Rightarrow> byte res" where
  "DecodeFixed8 (b0 # _) = Inr b0"
| "DecodeFixed8 _ = Inl Undefined_Behaviour"

fun DecodeFixed32 :: "bytes \<Rightarrow> u32 res" where
  "DecodeFixed32 (b0 # b1 # b2 # b3 # _) =
     Inr (ucast b0 OR push_bit 8 (ucast b1) OR push_bit 16 (ucast b2) OR push_bit 24 (ucast b3))"
| "DecodeFixed32 _ = Inl Undefined_Behaviour"

fun DecodeFixed64 :: "bytes \<Rightarrow> u64 res" where
  "DecodeFixed64 (b0 # b1 # b2 # b3 # b4 # b5 # b6 # b7 # _) =
     Inr (ucast b0 OR push_bit 8 (ucast b1) OR push_bit 16 (ucast b2) OR push_bit 24 (ucast b3)
       OR push_bit 32 (ucast b4) OR push_bit 40 (ucast b5) OR push_bit 48 (ucast b6)
       OR push_bit 56 (ucast b7))"
| "DecodeFixed64 _ = Inl Undefined_Behaviour"

definition PutFixed8 :: "bytes \<Rightarrow> byte \<Rightarrow> bytes" where
  "PutFixed8 dst val = dst @ EncodeFixed8 val"

definition PutFixed32 :: "bytes \<Rightarrow> u32 \<Rightarrow> bytes" where
  "PutFixed32 dst val = dst @ EncodeFixed32 val"

definition PutFixed64 :: "bytes \<Rightarrow> u64 \<Rightarrow> bytes" where
  "PutFixed64 dst val = dst @ EncodeFixed64 val"

lemmas [codec_simps] = PutFixed8_def PutFixed32_def PutFixed64_def

subsection \<open>Widths and round trips\<close>

lemma length_EncodeFixed [simp]:
  "length (EncodeFixed8 b) = 1"
  "length (EncodeFixed32 v) = 4"
  "length (EncodeFixed64 w) = 8"
  by (simp_all add: EncodeFixed8_def EncodeFixed32_def EncodeFixed64_def)

lemma DecodeFixed8_Encode [simp]: "DecodeFixed8 (EncodeFixed8 v @ rest) = Inr v"
  by (simp add: EncodeFixed8_def and_ff_take_bit) (rule bit_word_eqI, simp add: bit_simps)

lemma DecodeFixed32_Encode [simp]: "DecodeFixed32 (EncodeFixed32 v @ rest) = Inr v"
  using byte_slices_32 [of v]
  by (simp add: EncodeFixed32_def ucast_and_ff byte_slice_def)

lemma DecodeFixed64_Encode [simp]: "DecodeFixed64 (EncodeFixed64 v @ rest) = Inr v"
  using byte_slices_64 [of v]
  by (simp add: EncodeFixed64_def ucast_and_ff byte_slice_def)

text \<open>A decoder that returns has read exactly the bytes the encoder would write.\<close>

lemma EncodeFixed32_Decode:
  assumes "DecodeFixed32 d = Inr v"
  shows "EncodeFixed32 v = take 4 d"
proof -
  from assms obtain b0 b1 b2 b3 r where d: "d = b0 # b1 # b2 # b3 # r"
    by (auto elim!: DecodeFixed32.elims)
  have "ucast v = b0" "ucast (drop_bit 8 v) = b1" "ucast (drop_bit 16 v) = b2" "ucast (drop_bit 24 v) = b3"
    using assms unfolding d
    by (auto intro!: bit_word_eqI simp: bit_simps byte_bit_high)
  then show ?thesis by (simp add: EncodeFixed32_def ucast_and_ff d)
qed

subsection \<open>Names of SST files\<close>

definition BuildSSTPath :: "u32 \<Rightarrow> u32 \<Rightarrow> bytes" where
  "BuildSSTPath n i =
     str ''level_'' @ to_string (unat n) @ str ''_sst_'' @ to_string (unat i) @ str ''.sst''"

text \<open>
  The name determines the level and the number: a decimal number holds no \<open>_\<close> and no
  \<open>.\<close>, so it ends where the fixed text begins.
\<close>

lemma BuildSSTPath_inj: "BuildSSTPath n i = BuildSSTPath m j \<longleftrightarrow> n = m \<and> i = j"
proof
  assume eq: "BuildSSTPath n i = BuildSSTPath m j"
  have digits: "takeWhile is_digit (to_string k @ x # xs) = to_string k"
    if "\<not> is_digit x" for k x xs
    using that by (simp add: takeWhile_append)
  have rest: "dropWhile is_digit (to_string k @ x # xs) = x # xs"
    if "\<not> is_digit x" for k x xs
    using that by (simp add: dropWhile_append3)
  have lit: "str ''_sst_'' = 95 # str ''sst_''" "str ''.sst'' = [46, 115, 115, 116]"
    by (simp_all add: str_def)
  from eq have *: "to_string (unat n) @ 95 # str ''sst_'' @ to_string (unat i) @ str ''.sst''
      = to_string (unat m) @ 95 # str ''sst_'' @ to_string (unat j) @ str ''.sst''"
    by (simp add: BuildSSTPath_def lit(1))
  have nm: "to_string (unat n) = to_string (unat m)"
    using arg_cong [OF *, of "takeWhile is_digit"] by (simp add: digits is_digit_def)
  with * have "to_string (unat i) @ str ''.sst'' = to_string (unat j) @ str ''.sst''"
    by simp
  then have ij: "to_string (unat i) = to_string (unat j)" by simp
  from nm ij show "n = m \<and> i = j" by (simp add: word_unat_eq_iff)
qed simp

subsection \<open>Properties\<close>

text \<open>
  A fixed-width integer that was appended to a string decodes, at its place, to its value for
  the three widths, whatever stands before and behind it, and leaves what was in the string as
  it is.
\<close>

theorem codec_roundtrip:
  "DecodeFixed8 (drop (length dst) (PutFixed8 dst b @ rest)) = Inr b \<and>
   DecodeFixed32 (drop (length dst) (PutFixed32 dst v @ rest)) = Inr v \<and>
   DecodeFixed64 (drop (length dst) (PutFixed64 dst w @ rest)) = Inr w \<and>
   take (length dst) (PutFixed8 dst b) = dst \<and> take (length dst) (PutFixed32 dst v) = dst \<and>
   take (length dst) (PutFixed64 dst w) = dst"
  by (simp add: codec_simps)

end
