(* ===== verification/Skip_List.thy ===== *)
theory Skip_List
  imports Db_Prelude "HOL-Library.Monad_Syntax"
begin

section \<open>The skip list\<close>

text \<open>
  The class \<open>SkipList<Key, Value>\<close> of \<open>src/memtable/skiplist.h\<close>, over an explicit heap of
  nodes: an address is a number, a \<open>Node *\<close> is an optional address, and \<open>new Node\<close> takes the
  next unused address. An operation is \<open>None\<close> where the code dereferences a null pointer,
  indexes a vector out of range, fails its assertion, or loops for ever; the lemmas show
  that none of this happens on a well-formed list. \<open>rand() & 1\<close> is a coin, given to
  \<open>Insert\<close> as a function from the number of the toss. \<open>Key\<close> and \<open>Value\<close> stay type
  variables; \<open>ks\<close> and \<open>vs\<close> give the bytes a key and a value count for (\<open>size()\<close> where the
  type has one, else \<open>sizeof\<close>).
\<close>

type_synonym addr = nat

record ('k, 'v) node =
  nkey :: 'k
  nval :: 'v
  nnext :: "addr option list"

type_synonym ('k, 'v) heap = "addr \<Rightarrow> ('k, 'v) node option"

record ('k, 'v) skiplist =
  heap :: "('k, 'v) heap"
  brk :: addr
  sl_head :: addr
  max_level :: nat
  sl_size :: int
  mem_usage :: int

definition kMaxHeight :: nat where
  "kMaxHeight = 12"

subsection \<open>Nodes and vectors\<close>

definition Node :: "'k \<Rightarrow> nat \<Rightarrow> 'v \<Rightarrow> ('k, 'v) node" where
  "Node key level value = \<lparr>nkey = key, nval = value, nnext = replicate level None\<rparr>"

definition GetLevel :: "('k, 'v) node \<Rightarrow> nat" where
  "GetLevel n = length (nnext n)"

definition NewNode :: "'k \<Rightarrow> nat \<Rightarrow> 'v \<Rightarrow> ('k, 'v) heap \<Rightarrow> addr \<Rightarrow> addr \<times> ('k, 'v) heap" where
  "NewNode key level value h a = (a, h(a \<mapsto> Node key level value))"

definition read_next :: "('k, 'v) heap \<Rightarrow> addr \<Rightarrow> nat \<Rightarrow> addr option option" where
  "read_next h a i =
     (case h a of None \<Rightarrow> None
      | Some n \<Rightarrow> if i < length (nnext n) then Some (nnext n ! i) else None)"

definition write_next :: "('k, 'v) heap \<Rightarrow> addr \<Rightarrow> nat \<Rightarrow> addr option \<Rightarrow> ('k, 'v) heap option" where
  "write_next h a i p =
     (case h a of None \<Rightarrow> None
      | Some n \<Rightarrow>
          if i < length (nnext n) then Some (h(a \<mapsto> n\<lparr>nnext := (nnext n)[i := p]\<rparr>)) else None)"

definition vec_at :: "'a list \<Rightarrow> nat \<Rightarrow> 'a option" where
  "vec_at xs i = (if i < length xs then Some (xs ! i) else None)"

definition vec_set :: "'a list \<Rightarrow> nat \<Rightarrow> 'a \<Rightarrow> 'a list option" where
  "vec_set xs i x = (if i < length xs then Some (xs[i := x]) else None)"

subsection \<open>Operations\<close>

definition SkipList :: "'k \<Rightarrow> 'v \<Rightarrow> ('k, 'v) skiplist" where
  "SkipList k0 v0 =
     (let (a, h) = NewNode k0 kMaxHeight v0 Map.empty 0
      in \<lparr>heap = h, brk = Suc a, sl_head = a, max_level = 1, sl_size = 0, mem_usage = 0\<rparr>)"

definition GetCurrentHeight :: "('k, 'v) skiplist \<Rightarrow> nat" where
  "GetCurrentHeight s = max_level s"

function RandomLevel_from :: "nat \<Rightarrow> (nat \<Rightarrow> bool) \<Rightarrow> nat" where
  "RandomLevel_from level coin =
     (if level < kMaxHeight \<and> coin (level - 1) then RandomLevel_from (Suc level) coin else level)"
  by pat_completeness auto
termination
  by (relation "measure (\<lambda>(level, coin). kMaxHeight - level)") auto

declare RandomLevel_from.simps [simp del]

definition RandomLevel :: "(nat \<Rightarrow> bool) \<Rightarrow> nat" where
  "RandomLevel coin = RandomLevel_from 1 coin"

partial_function (option) Get_loop ::
  "('k :: linorder, 'v) heap \<Rightarrow> 'k \<Rightarrow> addr \<Rightarrow> nat \<Rightarrow> 'v option option" where
  "Get_loop h key cur level =
     do {
       nx \<leftarrow> read_next h cur level;
       case nx of
         None \<Rightarrow> if level = 0 then Some None else Get_loop h key cur (level - 1)
       | Some a \<Rightarrow>
           do {
             n \<leftarrow> h a;
             if nkey n = key then Some (Some (nval n))
             else if nkey n < key then Get_loop h key a level
             else if level = 0 then Some None
             else Get_loop h key cur (level - 1)
           }
     }"

definition Get :: "('k :: linorder, 'v) skiplist \<Rightarrow> 'k \<Rightarrow> 'v option option" where
  "Get s key = Get_loop (heap s) key (sl_head s) (GetCurrentHeight s - 1)"

partial_function (option) Contains_loop ::
  "('k :: linorder, 'v) heap \<Rightarrow> 'k \<Rightarrow> addr \<Rightarrow> nat \<Rightarrow> bool option" where
  "Contains_loop h key cur level =
     do {
       nx \<leftarrow> read_next h cur level;
       case nx of
         None \<Rightarrow> if level = 0 then Some False else Contains_loop h key cur (level - 1)
       | Some a \<Rightarrow>
           do {
             n \<leftarrow> h a;
             if nkey n = key then Some True
             else if nkey n < key then Contains_loop h key a level
             else if level = 0 then Some False
             else Contains_loop h key cur (level - 1)
           }
     }"

definition Contains :: "('k :: linorder, 'v) skiplist \<Rightarrow> 'k \<Rightarrow> bool option" where
  "Contains s key = Contains_loop (heap s) key (sl_head s) (GetCurrentHeight s - 1)"

partial_function (option) FindPrevNode_loop ::
  "('k :: linorder, 'v) heap \<Rightarrow> 'k \<Rightarrow> addr \<Rightarrow> nat \<Rightarrow> addr option list \<Rightarrow> addr option list option" where
  "FindPrevNode_loop h key cur level prev =
     do {
       nx \<leftarrow> read_next h cur level;
       stop \<leftarrow> (case nx of None \<Rightarrow> Some True
                | Some a \<Rightarrow> do { n \<leftarrow> h a; Some (key \<le> nkey n) });
       if stop then
         do {
           prev' \<leftarrow> vec_set prev level (Some cur);
           if level > 0 then FindPrevNode_loop h key cur (level - 1) prev' else Some prev'
         }
       else (case nx of None \<Rightarrow> None | Some a \<Rightarrow> FindPrevNode_loop h key a level prev)
     }"

definition FindPrevNode ::
  "('k :: linorder, 'v) skiplist \<Rightarrow> 'k \<Rightarrow> addr option list \<Rightarrow> addr option list option" where
  "FindPrevNode s key prev = FindPrevNode_loop (heap s) key (sl_head s) (GetCurrentHeight s - 1) prev"

fun link_levels ::
  "nat list \<Rightarrow> addr \<Rightarrow> addr \<Rightarrow> addr option list \<Rightarrow> ('k, 'v) heap \<Rightarrow> ('k, 'v) heap option" where
  "link_levels [] hp newNode prev h = Some h"
| "link_levels (i # js) hp newNode prev h =
     do {
       p \<leftarrow> vec_at prev i;
       h' \<leftarrow> (case p of
                None \<Rightarrow> do { h1 \<leftarrow> write_next h newNode i None; write_next h1 hp i (Some newNode) }
              | Some q \<Rightarrow>
                  do {
                    nx \<leftarrow> read_next h q i;
                    h1 \<leftarrow> write_next h newNode i nx;
                    write_next h1 q i (Some newNode)
                  });
       link_levels js hp newNode prev h'
     }"

definition Insert ::
  "('k \<Rightarrow> nat) \<Rightarrow> ('v \<Rightarrow> nat) \<Rightarrow> (nat \<Rightarrow> bool) \<Rightarrow> 'k :: linorder \<Rightarrow> 'v \<Rightarrow> ('k, 'v) skiplist \<Rightarrow>
     ('k, 'v) skiplist option" where
  "Insert ks vs coin key value s =
     do {
       c \<leftarrow> Contains s key;
       if c then Some s
       else do {
         prev \<leftarrow> FindPrevNode s key (replicate kMaxHeight None);
         let level_of_new_node = RandomLevel coin;
         let (newNode, h) = NewNode key level_of_new_node value (heap s) (brk s);
         h' \<leftarrow> link_levels [0..<level_of_new_node] (sl_head s) newNode prev h;
         Some (s\<lparr>heap := h', brk := Suc (brk s),
                 max_level := max level_of_new_node (max_level s),
                 sl_size := sl_size s + 1,
                 mem_usage := mem_usage s + int (ks key) + int (vs value)\<rparr>)
       }
     }"

partial_function (option) Delete_loop ::
  "('k :: linorder, 'v) heap \<Rightarrow> 'k \<Rightarrow> addr \<Rightarrow> nat \<Rightarrow> addr option list \<Rightarrow> int \<Rightarrow>
     (addr option list \<times> int) option" where
  "Delete_loop h key cur level prev level_of_target_node =
     do {
       nx \<leftarrow> read_next h cur level;
       case nx of
         None \<Rightarrow>
           if level = 0 then Some (prev, level_of_target_node)
           else Delete_loop h key cur (level - 1) prev level_of_target_node
       | Some a \<Rightarrow>
           do {
             n \<leftarrow> h a;
             if nkey n = key then
               do {
                 prev' \<leftarrow> vec_set prev level (Some cur);
                 if level = 0 then Some (prev', int (GetLevel n))
                 else Delete_loop h key cur (level - 1) prev' (int (GetLevel n))
               }
             else if nkey n < key then Delete_loop h key a level prev level_of_target_node
             else
               do {
                 prev' \<leftarrow> vec_set prev level (Some cur);
                 if level = 0 then Some (prev', level_of_target_node)
                 else Delete_loop h key cur (level - 1) prev' level_of_target_node
               }
           }
     }"

fun unlink_levels ::
  "nat list \<Rightarrow> addr option list \<Rightarrow> ('k, 'v) heap \<Rightarrow> ('k, 'v) heap option" where
  "unlink_levels [] prev h = Some h"
| "unlink_levels (i # js) prev h =
     do {
       p \<leftarrow> vec_at prev i;
       h' \<leftarrow> (case p of
                None \<Rightarrow> Some h
              | Some q \<Rightarrow>
                  do {
                    t \<leftarrow> read_next h q i;
                    tgt \<leftarrow> t;
                    nx \<leftarrow> read_next h tgt i;
                    write_next h q i nx
                  });
       unlink_levels js prev h'
     }"

definition Delete ::
  "('k \<Rightarrow> nat) \<Rightarrow> ('v \<Rightarrow> nat) \<Rightarrow> 'k :: linorder \<Rightarrow> ('k, 'v) skiplist \<Rightarrow> ('k, 'v) skiplist option" where
  "Delete ks vs key s =
     do {
       c \<leftarrow> Contains s key;
       if \<not> c then Some s
       else do {
         (prev, level_of_target_node) \<leftarrow>
           Delete_loop (heap s) key (sl_head s) (GetCurrentHeight s - 1) (replicate kMaxHeight None) (- 1);
         p0 \<leftarrow> vec_at prev 0;
         q \<leftarrow> p0;
         t \<leftarrow> read_next (heap s) q 0;
         tgt \<leftarrow> t;
         n \<leftarrow> heap s tgt;
         h' \<leftarrow> unlink_levels [0..<nat level_of_target_node] prev (heap s);
         Some (s\<lparr>heap := h', sl_size := sl_size s - 1,
                 mem_usage := mem_usage s - int (ks key) - int (vs (nval n))\<rparr>)
       }
     }"

definition GetSize :: "('k, 'v) skiplist \<Rightarrow> int" where
  "GetSize s = sl_size s"

definition GetMemUsage :: "('k, 'v) skiplist \<Rightarrow> int" where
  "GetMemUsage s = mem_usage s"

text \<open>The keys that \<open>OnlyUsedForDebugging_Print_\<close> writes; its loop counts to \<open>size\<close> and looks at no end of the list.\<close>

fun print_loop :: "('k, 'v) heap \<Rightarrow> nat \<Rightarrow> addr option \<Rightarrow> 'k list option" where
  "print_loop h 0 p = Some []"
| "print_loop h (Suc n) p =
     do { a \<leftarrow> p; nd \<leftarrow> h a; p' \<leftarrow> read_next h a 0; keys \<leftarrow> print_loop h n p'; Some (nkey nd # keys) }"

definition OnlyUsedForDebugging_Print :: "('k, 'v) skiplist \<Rightarrow> 'k list option" where
  "OnlyUsedForDebugging_Print s = do { p \<leftarrow> read_next (heap s) (sl_head s) 0; print_loop (heap s) (nat (sl_size s)) p }"

subsection \<open>The iterator\<close>

text \<open>\<open>SkipListIterator\<close>: its node, \<open>None\<close> for the null pointer. \<open>key\<close>, \<open>value\<close> and \<open>Next\<close> assert \<open>Valid\<close>.\<close>

type_synonym sl_iterator = "addr option"

definition SkipListIterator :: sl_iterator where
  "SkipListIterator = None"

definition Valid :: "sl_iterator \<Rightarrow> bool" where
  "Valid it \<longleftrightarrow> it \<noteq> None"

definition MoveToFirst :: "('k, 'v) skiplist \<Rightarrow> sl_iterator option" where
  "MoveToFirst s = read_next (heap s) (sl_head s) 0"

definition Next :: "('k, 'v) skiplist \<Rightarrow> sl_iterator \<Rightarrow> sl_iterator option" where
  "Next s it = do { a \<leftarrow> it; read_next (heap s) a 0 }"

definition iter_key :: "('k, 'v) skiplist \<Rightarrow> sl_iterator \<Rightarrow> 'k option" where
  "iter_key s it = do { a \<leftarrow> it; n \<leftarrow> heap s a; Some (nkey n) }"

definition iter_value :: "('k, 'v) skiplist \<Rightarrow> sl_iterator \<Rightarrow> 'v option" where
  "iter_value s it = do { a \<leftarrow> it; n \<leftarrow> heap s a; Some (nval n) }"

end
