(* ===== verification/Ordered_Table.thy ===== *)
theory Ordered_Table
  imports Db_Prelude
begin

section \<open>The interface of an ordered table\<close>

text \<open>
  What the memory table needs from the structure below it. The abstraction of a table is
  its list of entries, sorted by key without duplicates; \<open>rep s kvs\<close> says that the state
  \<open>s\<close> holds \<open>kvs\<close>. The locale fixes the four operations, assumes the contract the provider
  promises, and proves what follows for sequences of operations.
\<close>

definition alist_insert :: "'k :: linorder \<Rightarrow> 'v \<Rightarrow> ('k \<times> 'v) list \<Rightarrow> ('k \<times> 'v) list" where
  "alist_insert k v kvs =
     (if map_of kvs k = None
      then takeWhile (\<lambda>(a, _). a < k) kvs @ (k, v) # dropWhile (\<lambda>(a, _). a < k) kvs
      else kvs)"

definition alist_delete :: "'k \<Rightarrow> ('k \<times> 'v) list \<Rightarrow> ('k \<times> 'v) list" where
  "alist_delete k kvs = filter (\<lambda>(a, _). a \<noteq> k) kvs"

definition alist_upsert :: "'k :: linorder \<Rightarrow> 'v \<Rightarrow> ('k \<times> 'v) list \<Rightarrow> ('k \<times> 'v) list" where
  "alist_upsert k v kvs = alist_insert k v (alist_delete k kvs)"

lemma map_of_alist_delete [simp]: "map_of (alist_delete k kvs) = (map_of kvs)(k := None)"
  by (induction kvs) (auto simp: alist_delete_def fun_eq_iff)

lemma map_of_takeWhile_dropWhile:
  "map_of (takeWhile P kvs @ (k, v) # dropWhile P kvs) = (map_of kvs)(k \<mapsto> v)"
  if "map_of kvs k = None"
proof -
  have "k \<notin> fst ` set (takeWhile P kvs)"
    using that by (auto simp: map_of_eq_None_iff dest!: set_takeWhileD)
  then have "map_of (takeWhile P kvs) k = None" by (simp add: map_of_eq_None_iff)
  moreover have "map_of kvs = map_of (dropWhile P kvs) ++ map_of (takeWhile P kvs)"
    by (metis map_of_append takeWhile_dropWhile_id)
  ultimately show ?thesis by (auto simp: map_add_def fun_eq_iff split: option.split)
qed

lemma map_of_alist_insert [simp]:
  "map_of (alist_insert k v kvs) = (if map_of kvs k = None then (map_of kvs)(k \<mapsto> v) else map_of kvs)"
  using map_of_takeWhile_dropWhile by (auto simp: alist_insert_def)

lemma map_of_alist_upsert [simp]: "map_of (alist_upsert k v kvs) = (map_of kvs)(k \<mapsto> v)"
  by (simp add: alist_upsert_def)

lemma alist_insert_present: "map_of kvs k \<noteq> None \<Longrightarrow> alist_insert k v kvs = kvs"
  by (auto simp: alist_insert_def)

lemma alist_delete_absent: "map_of kvs k = None \<Longrightarrow> alist_delete k kvs = kvs"
  by (force simp: alist_delete_def filter_id_conv map_of_eq_None_iff)

lemma alist_delete_mid:
  assumes "distinct (map fst (xs @ (k, v) # ys))"
  shows "alist_delete k (xs @ (k, v) # ys) = xs @ ys"
proof -
  have "map_of xs k = None" "map_of ys k = None"
    using assms by (auto simp: map_of_eq_None_iff)
  then have "alist_delete k xs = xs" "alist_delete k ys = ys"
    by (simp_all add: alist_delete_absent)
  then show ?thesis by (simp add: alist_delete_def)
qed

locale ordered_table =
  fixes put :: "'c \<Rightarrow> 'k :: linorder \<Rightarrow> 'v \<Rightarrow> 's \<Rightarrow> 's option"
    and del :: "'k \<Rightarrow> 's \<Rightarrow> 's option"
    and get :: "'s \<Rightarrow> 'k \<Rightarrow> 'v option option"
    and has :: "'s \<Rightarrow> 'k \<Rightarrow> bool option"
    and rep :: "'s \<Rightarrow> ('k \<times> 'v) list \<Rightarrow> bool"
  assumes rep_sorted: "rep s kvs \<Longrightarrow> sorted_wrt (<) (map fst kvs)"
    and get_rep: "rep s kvs \<Longrightarrow> get s k = Some (map_of kvs k)"
    and has_rep: "rep s kvs \<Longrightarrow> has s k = Some (map_of kvs k \<noteq> None)"
    and put_rep: "rep s kvs \<Longrightarrow> \<exists>s'. put c k v s = Some s' \<and> rep s' (alist_insert k v kvs)"
    and del_rep: "rep s kvs \<Longrightarrow> \<exists>s'. del k s = Some s' \<and> rep s' (alist_delete k kvs)"
begin

text \<open>Deleting and inserting again replaces the value, whether or not the key was there.\<close>

lemma del_put:
  assumes "rep s kvs"
  obtains s1 s2 where "del k s = Some s1" and "put c k v s1 = Some s2"
    and "rep s2 (alist_upsert k v kvs)"
  using del_rep [OF assms, of k] put_rep unfolding alist_upsert_def by metis

text \<open>A table that holds the key already is left as it is by an insertion.\<close>

lemma put_keeps:
  assumes "rep s kvs" and "map_of kvs k = Some w"
  obtains s' where "put c k v s = Some s'" and "rep s' kvs" and "get s' k = Some (Some w)"
proof -
  from put_rep [OF assms(1), of c k v] assms(2) obtain s'
    where "put c k v s = Some s'" "rep s' kvs" by (auto simp: alist_insert_def)
  with assms(2) that show thesis by (simp add: get_rep)
qed

text \<open>Two states that hold the same entries answer every lookup alike.\<close>

lemma get_determined: "rep s kvs \<Longrightarrow> rep s' kvs \<Longrightarrow> get s k = get s' k"
  by (simp add: get_rep)

end

end
