(* ===== verification/Skip_List_Correct.thy ===== *)
theory Skip_List_Correct
  imports Skip_List Ordered_Table
begin

section \<open>Correctness of the skip list\<close>

text \<open>
  The representation invariant says that the nodes reachable on level 0 are a list \<open>as\<close> of
  distinct addresses with strictly increasing keys, and that on every level \<open>i\<close> the
  \<open>next[i]\<close> pointers thread exactly the nodes of \<open>as\<close> that are higher than \<open>i\<close>. The walk
  lemmas describe one step of the search loops; every loop is then a short induction on
  the level and on the part of the list not yet passed.
\<close>

subsection \<open>Fields of nodes by address\<close>

definition keyof :: "('k, 'v) heap \<Rightarrow> addr \<Rightarrow> 'k" where
  "keyof h a = nkey (the (h a))"

definition valof :: "('k, 'v) heap \<Rightarrow> addr \<Rightarrow> 'v" where
  "valof h a = nval (the (h a))"

definition lev :: "('k, 'v) heap \<Rightarrow> addr \<Rightarrow> nat" where
  "lev h a = GetLevel (the (h a))"

definition nxt :: "('k, 'v) heap \<Rightarrow> nat \<Rightarrow> addr \<Rightarrow> addr option" where
  "nxt h i a = nnext (the (h a)) ! i"

definition items :: "('k, 'v) heap \<Rightarrow> addr list \<Rightarrow> ('k \<times> 'v) list" where
  "items h as = map (\<lambda>a. (keyof h a, valof h a)) as"

definition at_level :: "('k, 'v) heap \<Rightarrow> nat \<Rightarrow> addr list \<Rightarrow> addr list" where
  "at_level h i as = filter (\<lambda>a. i < lev h a) as"

lemma items_simps [simp]:
  "items h [] = []"
  "items h (a # as) = (keyof h a, valof h a) # items h as"
  "items h (as @ bs) = items h as @ items h bs"
  by (simp_all add: items_def)

lemma at_level_simps [simp]:
  "at_level h i [] = []"
  "at_level h i (a # as) = (if i < lev h a then a # at_level h i as else at_level h i as)"
  "at_level h i (as @ bs) = at_level h i as @ at_level h i bs"
  by (simp_all add: at_level_def)

lemma set_at_level: "set (at_level h i as) = {a \<in> set as. i < lev h a}"
  by (simp add: at_level_def)

subsection \<open>Chains of pointers\<close>

definition hd_opt :: "'a list \<Rightarrow> 'a option" where
  "hd_opt xs = (case xs of [] \<Rightarrow> None | x # _ \<Rightarrow> Some x)"

lemma hd_opt_simps [simp]:
  "hd_opt [] = None"
  "hd_opt (x # xs) = Some x"
  by (simp_all add: hd_opt_def)

primrec chain :: "('a \<Rightarrow> 'a option) \<Rightarrow> 'a list \<Rightarrow> bool" where
  "chain f [] \<longleftrightarrow> True"
| "chain f (x # xs) \<longleftrightarrow> f x = hd_opt xs \<and> chain f xs"

lemma chain_mid: "chain f (us @ x # vs) \<Longrightarrow> f x = hd_opt vs"
  by (induction us) auto

lemma hd_opt_append: "hd_opt (xs @ ys) = (case hd_opt xs of None \<Rightarrow> hd_opt ys | Some x \<Rightarrow> Some x)"
  by (cases xs) simp_all

lemma chain_cong: "(\<And>a. a \<in> set xs \<Longrightarrow> f a = g a) \<Longrightarrow> chain f xs = chain g xs"
  by (induction xs) auto

lemma chain_insert:
  assumes "chain f (us @ x # vs)" and "distinct (us @ x # vs)" and "n \<notin> set (us @ x # vs)"
    and "g x = Some n" and "g n = f x" and "\<And>a. a \<in> set (us @ vs) \<Longrightarrow> g a = f a"
  shows "chain g (us @ x # n # vs)"
  using assms
proof (induction us)
  case Nil
  then have "chain g vs" using chain_cong [of vs g f] by auto
  with Nil show ?case by simp
next
  case (Cons u us)
  then show ?case by (simp add: hd_opt_append split: option.split)
qed

lemma chain_delete:
  assumes "chain f (us @ x # t # vs)" and "distinct (us @ x # t # vs)"
    and "g x = f t" and "\<And>a. a \<in> set (us @ vs) \<Longrightarrow> g a = f a"
  shows "chain g (us @ x # vs)"
  using assms
proof (induction us)
  case Nil
  then have "chain g vs" using chain_cong [of vs g f] by auto
  with Nil show ?case by simp
next
  case (Cons u us)
  then show ?case by (simp add: hd_opt_append split: option.split)
qed

subsection \<open>The representation invariant\<close>

definition sl_shape :: "('k :: linorder, 'v) skiplist \<Rightarrow> addr list \<Rightarrow> bool" where
  "sl_shape s as \<longleftrightarrow>
     sl_head s \<notin> set as \<and> distinct as \<and>
     heap s (sl_head s) \<noteq> None \<and> lev (heap s) (sl_head s) = kMaxHeight \<and>
     1 \<le> max_level s \<and> max_level s \<le> kMaxHeight \<and>
     (\<forall>a \<in> set as. heap s a \<noteq> None \<and> 1 \<le> lev (heap s) a \<and> lev (heap s) a \<le> max_level s) \<and>
     sorted_wrt (\<lambda>a b. keyof (heap s) a < keyof (heap s) b) as \<and>
     (\<forall>i < kMaxHeight. chain (nxt (heap s) i) (sl_head s # at_level (heap s) i as)) \<and>
     (\<forall>a. brk s \<le> a \<longrightarrow> heap s a = None)"

definition sl_counts :: "('k \<Rightarrow> nat) \<Rightarrow> ('v \<Rightarrow> nat) \<Rightarrow> ('k, 'v) skiplist \<Rightarrow> ('k \<times> 'v) list \<Rightarrow> bool" where
  "sl_counts ks vs s kvs \<longleftrightarrow>
     sl_size s = int (length kvs) \<and>
     mem_usage s = (\<Sum>(k, v) \<leftarrow> kvs. int (ks k) + int (vs v))"

definition sl_rep ::
  "('k \<Rightarrow> nat) \<Rightarrow> ('v \<Rightarrow> nat) \<Rightarrow> ('k :: linorder, 'v) skiplist \<Rightarrow> ('k \<times> 'v) list \<Rightarrow> bool" where
  "sl_rep ks vs s kvs \<longleftrightarrow> (\<exists>as. sl_shape s as \<and> kvs = items (heap s) as \<and> sl_counts ks vs s kvs)"

lemma sl_shape_sorted_keys:
  assumes "sl_shape s as"
  shows "sorted_wrt (<) (map fst (items (heap s) as))"
  using assms by (auto simp: sl_shape_def items_def sorted_wrt_map comp_def)

lemma sl_shape_level0: "sl_shape s as \<Longrightarrow> at_level (heap s) 0 as = as"
  by (auto simp: sl_shape_def at_level_def filter_id_conv)

lemma SkipList_rep: "sl_rep ks vs (SkipList k0 v0) []"
proof -
  have "sl_shape (SkipList k0 v0) []"
    by (auto simp: sl_shape_def SkipList_def NewNode_def Node_def lev_def GetLevel_def nxt_def
        kMaxHeight_def)
  then show ?thesis by (auto simp: sl_rep_def sl_counts_def SkipList_def NewNode_def)
qed

subsection \<open>One step of a search\<close>

text \<open>
  A search on level \<open>i\<close> stands on the last node of \<open>pre\<close> (the head when \<open>pre\<close> is empty),
  where \<open>pre\<close> is the part of the list it has passed, all of it below the key.
\<close>

definition stands ::
  "('k :: linorder, 'v) skiplist \<Rightarrow> addr list \<Rightarrow> 'k \<Rightarrow> nat \<Rightarrow> addr \<Rightarrow> addr list \<Rightarrow> addr list \<Rightarrow> bool" where
  "stands s as k i cur pre post \<longleftrightarrow>
     as = pre @ post \<and> (\<forall>a \<in> set pre. keyof (heap s) a < k) \<and>
     (if pre = [] then cur = sl_head s else last pre = cur \<and> i < lev (heap s) cur)"

lemma stands_start: "stands s as k i (sl_head s) [] as"
  by (simp add: stands_def)

lemma stands_down: "stands s as k i cur pre post \<Longrightarrow> stands s as k (i - 1) cur pre post"
  by (auto simp: stands_def)

lemma stands_read:
  assumes inv: "sl_shape s as" and st: "stands s as k i cur pre post" and i: "i < max_level s"
  shows "read_next (heap s) cur i = Some (hd_opt (at_level (heap s) i post))"
proof -
  let ?h = "heap s"
  from inv i have i12: "i < kMaxHeight" by (auto simp: sl_shape_def)
  with inv have ch: "chain (nxt ?h i) (sl_head s # at_level ?h i as)" by (auto simp: sl_shape_def)
  obtain us where us: "sl_head s # at_level ?h i as = us @ cur # at_level ?h i post"
  proof (cases "pre = []")
    case True
    with st that [of "[]"] show ?thesis by (auto simp: stands_def)
  next
    case False
    with st have "pre = butlast pre @ [cur]" "i < lev ?h cur" "as = pre @ post"
      by (auto simp: stands_def)
    then have "at_level ?h i as = at_level ?h i (butlast pre) @ cur # at_level ?h i post"
      by (metis append.assoc append_Cons append_Nil at_level_simps(2,3))
    with that [of "sl_head s # at_level ?h i (butlast pre)"] show ?thesis by simp
  qed
  have "nxt ?h i cur = hd_opt (at_level ?h i post)"
    using ch unfolding us by (rule chain_mid)
  moreover have "?h cur \<noteq> None" "i < lev ?h cur"
    using inv st i i12 by (auto simp: stands_def sl_shape_def split: if_splits)
  ultimately show ?thesis
    by (auto simp: read_next_def nxt_def lev_def GetLevel_def)
qed

text \<open>What the node read tells: the rest of the level is empty, or its first node is \<open>y\<close>.\<close>

lemma stands_next:
  assumes inv: "sl_shape s as" and st: "stands s as k i cur pre post"
    and nx: "hd_opt (at_level (heap s) i post) = Some y"
  obtains mid rest where "post = mid @ y # rest" and "at_level (heap s) i mid = []"
    and "i < lev (heap s) y" and "y \<in> set as" and "heap s y \<noteq> None"
    and "\<forall>a \<in> set (pre @ mid). keyof (heap s) a < keyof (heap s) y"
    and "\<forall>a \<in> set rest. keyof (heap s) y < keyof (heap s) a"
    and "keyof (heap s) y < k \<longrightarrow> stands s as k i y (pre @ mid @ [y]) rest"
proof -
  let ?h = "heap s"
  from nx obtain zs where "at_level ?h i post = y # zs"
    by (cases "at_level ?h i post") auto
  then obtain mid rest where post: "post = mid @ y # rest" and y: "i < lev ?h y"
    and mid: "\<forall>u \<in> set mid. \<not> i < lev ?h u"
    by (auto simp: at_level_def filter_eq_Cons_iff)
  have split: "as = pre @ mid @ y # rest" using st post by (simp add: stands_def)
  have lt: "\<forall>a \<in> set (pre @ mid). keyof ?h a < keyof ?h y"
    and gt: "\<forall>a \<in> set rest. keyof ?h y < keyof ?h a"
    using inv unfolding split by (auto simp: sl_shape_def sorted_wrt_append)
  have "stands s as k i y (pre @ mid @ [y]) rest" if "keyof ?h y < k"
    using that lt y split by (auto simp: stands_def intro: less_trans)
  moreover have "at_level ?h i mid = []" using mid by (simp add: at_level_def)
  moreover have "y \<in> set as" "heap s y \<noteq> None"
    using inv split by (auto simp: sl_shape_def)
  ultimately show thesis using that post y lt gt by blast
qed

lemma walk_cases [consumes 3, case_names stop node]:
  assumes inv: "sl_shape s as" and st: "stands s as k i cur pre post" and i: "i < max_level s"
  obtains "read_next (heap s) cur i = Some None" and "at_level (heap s) i post = []"
    and "i = 0 \<Longrightarrow> post = []"
  | y n mid rest where "read_next (heap s) cur i = Some (Some y)" and "heap s y = Some n"
    and "nkey n = keyof (heap s) y" and "nval n = valof (heap s) y" and "GetLevel n = lev (heap s) y"
    and "y \<in> set as" and "i < lev (heap s) y"
    and "post = mid @ y # rest" and "at_level (heap s) i mid = []" and "i = 0 \<Longrightarrow> mid = []"
    and "\<forall>a \<in> set (pre @ mid). keyof (heap s) a < keyof (heap s) y"
    and "\<forall>a \<in> set rest. keyof (heap s) y < keyof (heap s) a"
    and "keyof (heap s) y < k \<longrightarrow> stands s as k i y (pre @ mid @ [y]) rest"
proof -
  let ?h = "heap s"
  have rd: "read_next ?h cur i = Some (hd_opt (at_level ?h i post))"
    using inv st i by (rule stands_read)
  have high: "at_level ?h 0 xs = [] \<Longrightarrow> set xs \<subseteq> set as \<Longrightarrow> xs = []" for xs
    using inv by (cases xs) (auto simp: sl_shape_def)
  have split: "as = pre @ post" using st by (simp add: stands_def)
  show thesis
  proof (cases "hd_opt (at_level ?h i post)")
    case None
    then have "at_level ?h i post = []" by (cases "at_level ?h i post") auto
    with rd None split high [of post] that(1) show thesis by auto
  next
    case (Some y)
    from inv st Some obtain mid rest where f: "post = mid @ y # rest" "at_level ?h i mid = []"
      "i < lev ?h y" "y \<in> set as" "?h y \<noteq> None"
      "\<forall>a \<in> set (pre @ mid). keyof ?h a < keyof ?h y"
      "\<forall>a \<in> set rest. keyof ?h y < keyof ?h a"
      "keyof ?h y < k \<longrightarrow> stands s as k i y (pre @ mid @ [y]) rest"
      using stands_next by blast
    from f(5) obtain n where n: "?h y = Some n" by auto
    have rd': "read_next ?h cur i = Some (Some y)" using rd Some by simp
    have fs: "nkey n = keyof ?h y" "nval n = valof ?h y" "GetLevel n = lev ?h y"
      by (simp_all add: keyof_def valof_def lev_def n)
    have "set mid \<subseteq> set as" using f(1) split by auto
    then have "i = 0 \<Longrightarrow> mid = []" using f(2) high by simp
    then show thesis by (rule that(2) [OF rd' n fs f(4,3,1,2) _ f(6,7,8)])
  qed
qed

subsection \<open>Get and Contains\<close>

lemma map_of_items_hit:
  assumes "sl_shape s as" and "y \<in> set as"
  shows "map_of (items (heap s) as) (keyof (heap s) y) = Some (valof (heap s) y)"
proof -
  have "distinct (map fst (items (heap s) as))"
    using sl_shape_sorted_keys [OF assms(1)] by (simp add: strict_sorted_iff)
  moreover have "(keyof (heap s) y, valof (heap s) y) \<in> set (items (heap s) as)"
    using assms(2) by (auto simp: items_def)
  ultimately show ?thesis by (rule map_of_is_SomeI)
qed

lemma map_of_items_miss:
  assumes "\<And>a. a \<in> set as \<Longrightarrow> keyof h a \<noteq> k"
  shows "map_of (items h as) k = None"
  using assms by (fastforce simp: map_of_eq_None_iff items_def)

lemma search_loops_correct:
  assumes inv: "sl_shape s as"
  shows "stands s as k i cur pre post \<Longrightarrow> i < max_level s \<Longrightarrow>
     Get_loop (heap s) k cur i = Some (map_of (items (heap s) as) k) \<and>
     Contains_loop (heap s) k cur i = Some (map_of (items (heap s) as) k \<noteq> None)"
proof (induction "i + length post" arbitrary: i cur pre post rule: less_induct)
  case less
  let ?h = "heap s"
  have split: "as = pre @ post" and pre: "\<And>a. a \<in> set pre \<Longrightarrow> keyof ?h a < k"
    using less.prems(1) by (auto simp: stands_def)
  have down: ?case if "Get_loop ?h k cur i = Get_loop ?h k cur (i - 1)"
      "Contains_loop ?h k cur i = Contains_loop ?h k cur (i - 1)" "i \<noteq> 0"
    using less.hyps [OF _ stands_down [OF less.prems(1)]] less.prems(2) that by simp
  from inv less.prems show ?case
  proof (cases rule: walk_cases)
    case stop
    show ?thesis
    proof (cases "i = 0")
      case True
      then have "map_of (items ?h as) k = None"
        using stop(3) split pre by (intro map_of_items_miss) fastforce
      with stop(1) True show ?thesis by (simp add: Get_loop.simps Contains_loop.simps)
    next
      case False
      with stop(1) show ?thesis by (intro down) (simp_all add: Get_loop.simps Contains_loop.simps)
    qed
  next
    case (node y n mid rest)
    consider "keyof ?h y = k" | "keyof ?h y < k" | "k < keyof ?h y" by fastforce
    then show ?thesis
    proof cases
      case 1
      with node map_of_items_hit [OF inv node(6)] show ?thesis
        by (simp add: Get_loop.simps Contains_loop.simps)
    next
      case 2
      then have "keyof ?h y \<noteq> k" by simp
      with 2 node(8,13) less.hyps [of i rest y "pre @ mid @ [y]"] less.prems(2) node(1-4)
      show ?thesis by (subst Get_loop.simps, subst Contains_loop.simps) simp
    next
      case 3
      then have ne: "keyof ?h y \<noteq> k" "\<not> keyof ?h y < k" by simp_all
      show ?thesis
      proof (cases "i = 0")
        case True
        then have "map_of (items ?h as) k = None"
          using 3 split pre node(8,10,12) by (intro map_of_items_miss) fastforce
        with node(1-3) ne True show ?thesis
          by (simp add: Get_loop.simps Contains_loop.simps)
      next
        case False
        with node(1-3) ne show ?thesis
          by (intro down) (subst Get_loop.simps Contains_loop.simps, simp)+
      qed
    qed
  qed
qed

lemma Get_correct:
  assumes "sl_shape s as"
  shows "Get s k = Some (map_of (items (heap s) as) k)"
    and "Contains s k = Some (map_of (items (heap s) as) k \<noteq> None)"
  using search_loops_correct [OF assms stands_start, of "max_level s - 1" k] assms
  by (auto simp: Get_def Contains_def GetCurrentHeight_def sl_shape_def)

subsection \<open>The predecessors of a key\<close>

definition below :: "('k :: linorder, 'v) heap \<Rightarrow> 'k \<Rightarrow> addr list \<Rightarrow> addr list" where
  "below h k as = takeWhile (\<lambda>a. keyof h a < k) as"

definition above :: "('k :: linorder, 'v) heap \<Rightarrow> 'k \<Rightarrow> addr list \<Rightarrow> addr list" where
  "above h k as = dropWhile (\<lambda>a. keyof h a < k) as"

definition pred_at :: "('k :: linorder, 'v) skiplist \<Rightarrow> addr list \<Rightarrow> 'k \<Rightarrow> nat \<Rightarrow> addr" where
  "pred_at s as k i = last (sl_head s # at_level (heap s) i (below (heap s) k as))"

lemma below_above: "as = below h k as @ above h k as"
  by (simp add: below_def above_def)

lemma below_less: "a \<in> set (below h k as) \<Longrightarrow> keyof h a < k"
  by (auto simp: below_def dest: set_takeWhileD)

lemma above_ge:
  assumes "sl_shape s as" and "a \<in> set (above (heap s) k as)"
  shows "k \<le> keyof (heap s) a"
  using assms dropWhile_sorted_ge [of "keyof (heap s)" as a k]
  by (auto simp: above_def sl_shape_def)

lemma stands_pred:
  assumes st: "stands s as k i cur pre post"
    and high: "\<forall>a \<in> set (at_level (heap s) i post). k \<le> keyof (heap s) a"
  shows "pred_at s as k i = cur"
    and "at_level (heap s) i (above (heap s) k as) = at_level (heap s) i post"
proof -
  let ?h = "heap s"
  have split: "as = pre @ post" and pre: "\<forall>a \<in> set pre. keyof ?h a < k"
    using st by (auto simp: stands_def)
  have none: "at_level ?h i (takeWhile (\<lambda>a. keyof ?h a < k) post) = []"
    using high by (auto simp: at_level_def filter_empty_conv not_less [symmetric] dest: set_takeWhileD)
  from pre have b: "below ?h k as = pre @ takeWhile (\<lambda>a. keyof ?h a < k) post"
    and a: "above ?h k as = dropWhile (\<lambda>a. keyof ?h a < k) post"
    unfolding split below_def above_def by (auto simp: takeWhile_append dropWhile_append)
  have "last (sl_head s # at_level ?h i pre) = cur"
  proof (cases "pre = []")
    case True
    then show ?thesis using st by (simp add: stands_def)
  next
    case False
    with st have "pre = butlast pre @ [cur]" "i < lev ?h cur" by (auto simp: stands_def)
    then have "at_level ?h i pre = at_level ?h i (butlast pre) @ [cur]"
      by (metis at_level_simps(1,2,3))
    then show ?thesis by simp
  qed
  then show "pred_at s as k i = cur" by (simp add: pred_at_def b none)
  have "at_level ?h i post = at_level ?h i (takeWhile (\<lambda>a. keyof ?h a < k) post)
      @ at_level ?h i (dropWhile (\<lambda>a. keyof ?h a < k) post)"
    by (metis at_level_simps(3) takeWhile_dropWhile_id)
  then show "at_level ?h i (above ?h k as) = at_level ?h i post" by (simp add: a none)
qed

lemma vec_fill_0:
  "0 < length prev \<Longrightarrow> map (\<lambda>j. if j \<le> 0 then f j else prev ! j) [0..<length prev] = prev[0 := f 0]"
  by (rule nth_equalityI) (auto simp: nth_list_update)

lemma FindPrevNode_loop_correct:
  assumes inv: "sl_shape s as"
  shows "stands s as k i cur pre post \<Longrightarrow> i < max_level s \<Longrightarrow> i < length prev \<Longrightarrow>
     FindPrevNode_loop (heap s) k cur i prev =
       Some (map (\<lambda>j. if j \<le> i then Some (pred_at s as k j) else prev ! j) [0..<length prev])"
proof (induction "i + length post" arbitrary: i cur pre post prev rule: less_induct)
  case less
  let ?h = "heap s"
  have stopped: ?case
    if step: "FindPrevNode_loop ?h k cur i prev =
        (if i > 0 then FindPrevNode_loop ?h k cur (i - 1) (prev[i := Some cur])
         else Some (prev[i := Some cur]))"
      and high: "\<forall>a \<in> set (at_level ?h i post). k \<le> keyof ?h a"
  proof -
    have p: "pred_at s as k i = cur" using less.prems(1) high by (rule stands_pred)
    show ?thesis
    proof (cases "i = 0")
      case True
      with less.prems(3) p vec_fill_0 [of prev "\<lambda>j. Some (pred_at s as k j)"]
      have "prev[i := Some cur]
          = map (\<lambda>j. if j \<le> i then Some (pred_at s as k j) else prev ! j) [0..<length prev]"
        by simp
      with step True show ?thesis by simp
    next
      case False
      with less.hyps [OF _ stands_down [OF less.prems(1)], of "prev[i := Some cur]"] less.prems(2,3)
      have "FindPrevNode_loop ?h k cur i prev =
          Some (map (\<lambda>j. if j \<le> i - 1 then Some (pred_at s as k j) else prev[i := Some cur] ! j)
            [0..<length prev])"
        by (simp add: step)
      also have "\<dots> = Some (map (\<lambda>j. if j \<le> i then Some (pred_at s as k j) else prev ! j)
          [0..<length prev])"
        using False p by (auto simp: nth_list_update)
      finally show ?thesis .
    qed
  qed
  from inv less.prems(1,2) show ?case
  proof (cases rule: walk_cases)
    case stop
    with less.prems(3) show ?thesis
      by (intro stopped) (simp_all add: FindPrevNode_loop.simps [of ?h k cur i prev] vec_set_def)
  next
    case (node y n mid rest)
    show ?thesis
    proof (cases "keyof ?h y < k")
      case True
      with node(8,13) less.hyps [of i rest y "pre @ mid @ [y]" prev] less.prems(2,3) node(1-3)
      show ?thesis by (simp add: FindPrevNode_loop.simps [of ?h k cur i prev] not_le [symmetric])
    next
      case False
      have "\<forall>a \<in> set (at_level ?h i post). k \<le> keyof ?h a"
        using False node(8,9,12) by (auto simp: not_less set_at_level intro: order_trans less_imp_le)
      with False node(1-3) less.prems(3) show ?thesis
        by (intro stopped) (simp_all add: FindPrevNode_loop.simps [of ?h k cur i prev] vec_set_def not_less)
    qed
  qed
qed

subsection \<open>The search of Delete\<close>

lemma key_unique:
  assumes "sl_shape s as" and "a \<in> set as" and "b \<in> set as"
    and "keyof (heap s) a = keyof (heap s) b"
  shows "a = b"
proof -
  have "distinct (map (keyof (heap s)) as)"
    using sl_shape_sorted_keys [OF assms(1)] by (simp add: strict_sorted_iff items_def comp_def)
  then show ?thesis using assms(2-4) by (simp add: distinct_map inj_on_def)
qed

lemma vec_fill_step:
  assumes "0 < i" and "i < n" and "n = length prev" and "Q i"
  shows "map (\<lambda>j. if j \<le> i - 1 \<and> Q j then f j else prev[i := f i] ! j) [0..<n]
       = map (\<lambda>j. if j \<le> i \<and> Q j then f j else prev ! j) [0..<n]"
  using assms by (auto simp: nth_list_update)

lemma vec_keep_step:
  assumes "0 < i" and "\<not> Q i"
  shows "map (\<lambda>j. if j \<le> i - 1 \<and> Q j then f j else prev ! j) [0..<n]
       = map (\<lambda>j. if j \<le> i \<and> Q j then f j else prev ! j) [0..<n]"
proof -
  have "(j \<le> i - 1 \<and> Q j) = (j \<le> i \<and> Q j)" for j
    using assms by (cases "j = i") auto
  then show ?thesis by simp
qed

lemma Delete_loop_correct:
  assumes inv: "sl_shape s as" and t: "t \<in> set as" "keyof (heap s) t = k"
  shows "stands s as k i cur pre post \<Longrightarrow> i < max_level s \<Longrightarrow> i < length prev \<Longrightarrow>
     Delete_loop (heap s) k cur i prev lot =
       Some (map (\<lambda>j. if j \<le> i \<and> at_level (heap s) j (above (heap s) k as) \<noteq> []
                       then Some (pred_at s as k j) else prev ! j) [0..<length prev],
             int (lev (heap s) t))"
proof (induction "i + length post" arbitrary: i cur pre post prev lot rule: less_induct)
  case less
  let ?h = "heap s"
  let ?Q = "\<lambda>j. at_level ?h j (above ?h k as) \<noteq> []"
  let ?f = "\<lambda>j. Some (pred_at s as k j)"
  have tpost: "t \<in> set post"
    using less.prems(1) t by (auto simp: stands_def split: if_splits)
  note down = less.hyps [OF _ stands_down [OF less.prems(1)]]
  from inv less.prems(1,2) show ?case
  proof (cases rule: walk_cases)
    case stop
    have "i \<noteq> 0" using stop(3) tpost by (cases "i = 0") auto
    moreover have "\<not> ?Q i"
      using stands_pred(2) [OF less.prems(1)] stop(2) by simp
    ultimately show ?thesis
      using stop(1) down [of prev lot] less.prems(2,3) vec_keep_step [of i ?Q ?f prev "length prev"]
      by (simp add: Delete_loop.simps [of ?h k cur i prev lot])
  next
    case (node y n mid rest)
    show ?thesis
    proof (cases "keyof ?h y < k")
      case True
      then have "keyof ?h y \<noteq> k" by simp
      with True node(8,13) less.hyps [of i rest y "pre @ mid @ [y]" prev lot] less.prems(2,3) node(1-3)
      show ?thesis by (simp add: Delete_loop.simps [of ?h k cur i prev lot])
    next
      case False
      have high: "\<forall>a \<in> set (at_level ?h i post). k \<le> keyof ?h a"
        using False node(8,9,12) by (auto simp: not_less set_at_level intro: order_trans less_imp_le)
      have p: "pred_at s as k i = cur" and Q: "?Q i"
        using stands_pred [OF less.prems(1) high] node(7,8) by auto
      let ?lot = "if keyof ?h y = k then int (lev ?h y) else lot"
      have step: "Delete_loop ?h k cur i prev lot =
          (if i = 0 then Some (prev[i := Some cur], ?lot)
           else Delete_loop ?h k cur (i - 1) (prev[i := Some cur]) ?lot)"
        using False node(1-3,5) less.prems(3)
        by (cases "prev = []") (simp_all add: Delete_loop.simps [of ?h k cur i prev lot] vec_set_def)
      show ?thesis
      proof (cases "i = 0")
        case True
        with node(8,10,12) tpost False t(2) have "y = t" by auto
        moreover have "prev[i := Some cur] = map (\<lambda>j. if j \<le> i \<and> ?Q j then ?f j else prev ! j)
            [0..<length prev]"
          using True Q p less.prems(3) by (intro nth_equalityI) (auto simp: nth_list_update)
        ultimately show ?thesis using step True t(2) by simp
      next
        case False
        then have "Delete_loop ?h k cur i prev lot =
            Some (map (\<lambda>j. if j \<le> i - 1 \<and> ?Q j then ?f j else prev[i := Some cur] ! j)
              [0..<length prev], int (lev ?h t))"
          using down [of "prev[i := Some cur]" ?lot] less.prems(2,3) by (simp add: step)
        moreover have "map (\<lambda>j. if j \<le> i - 1 \<and> ?Q j then ?f j else prev[i := Some cur] ! j)
            [0..<length prev]
          = map (\<lambda>j. if j \<le> i \<and> ?Q j then ?f j else prev ! j) [0..<length prev]"
          using vec_fill_step [OF _ less.prems(3) refl, of ?Q ?f] Q False unfolding p by blast
        ultimately show ?thesis by (simp only:)
      qed
    qed
  qed
qed

subsection \<open>Effects of writing next pointers\<close>

definition same_nodes :: "('k, 'v) heap \<Rightarrow> ('k, 'v) heap \<Rightarrow> bool" where
  "same_nodes h h' \<longleftrightarrow>
     (\<forall>b. (h' b = None \<longleftrightarrow> h b = None) \<and> lev h' b = lev h b \<and> keyof h' b = keyof h b
        \<and> valof h' b = valof h b)"

lemma same_nodes_refl [simp]: "same_nodes h h"
  by (simp add: same_nodes_def)

lemma same_nodes_trans: "same_nodes h h1 \<Longrightarrow> same_nodes h1 h2 \<Longrightarrow> same_nodes h h2"
  by (simp add: same_nodes_def)

lemma same_nodes_simps:
  assumes "same_nodes h h'"
  shows "h' b = None \<longleftrightarrow> h b = None" and "lev h' b = lev h b" and "keyof h' b = keyof h b"
    and "valof h' b = valof h b" and "items h' as = items h as" and "at_level h' i as = at_level h i as"
  using assms by (simp_all add: same_nodes_def items_def at_level_def)

lemma write_next_effect:
  assumes "h a \<noteq> None" and "i < lev h a"
  obtains h' where "write_next h a i p = Some h'" and "same_nodes h h'"
    and "\<And>j b. nxt h' j b = (if j = i \<and> b = a then p else nxt h j b)"
proof -
  from assms obtain n where n: "h a = Some n" "i < length (nnext n)"
    by (auto simp: lev_def GetLevel_def)
  show thesis
  proof (rule that)
    show "write_next h a i p = Some (h(a \<mapsto> n\<lparr>nnext := (nnext n)[i := p]\<rparr>))"
      by (simp add: write_next_def n)
    show "same_nodes h (h(a \<mapsto> n\<lparr>nnext := (nnext n)[i := p]\<rparr>))"
      using n by (auto simp: same_nodes_def lev_def GetLevel_def keyof_def valof_def)
    show "nxt (h(a \<mapsto> n\<lparr>nnext := (nnext n)[i := p]\<rparr>)) j b = (if j = i \<and> b = a then p else nxt h j b)"
      for j b using n by (auto simp: nxt_def nth_list_update)
  qed
qed

lemma read_next_nxt: "h a \<noteq> None \<Longrightarrow> i < lev h a \<Longrightarrow> read_next h a i = Some (nxt h i a)"
  by (auto simp: read_next_def nxt_def lev_def GetLevel_def)

definition prev_node :: "addr \<Rightarrow> addr option list \<Rightarrow> nat \<Rightarrow> addr" where
  "prev_node hp prev j = (case prev ! j of None \<Rightarrow> hp | Some q \<Rightarrow> q)"

lemma link_levels_effect:
  assumes "distinct js" and "h new \<noteq> None"
    and "\<And>j. j \<in> set js \<Longrightarrow> j < length prev \<and> j < lev h new \<and> h (prev_node hp prev j) \<noteq> None \<and>
      j < lev h (prev_node hp prev j) \<and> prev_node hp prev j \<noteq> new \<and>
      (prev ! j = None \<longrightarrow> nxt h j hp = None)"
  shows "\<exists>h'. link_levels js hp new prev h = Some h' \<and> same_nodes h h' \<and>
     (\<forall>j b. nxt h' j b =
        (if j \<in> set js \<and> b = new then nxt h j (prev_node hp prev j)
         else if j \<in> set js \<and> b = prev_node hp prev j then Some new else nxt h j b))"
  using assms
proof (induction js arbitrary: h)
  case (Cons i js)
  let ?q = "prev_node hp prev i"
  have i: "i < length prev" "i < lev h new" "h ?q \<noteq> None" "i < lev h ?q" "?q \<noteq> new"
    and hd: "prev ! i = None \<Longrightarrow> nxt h i hp = None"
    using Cons.prems(3) [of i] by auto
  obtain h1 where h1: "write_next h new i (nxt h i ?q) = Some h1" "same_nodes h h1"
    "\<And>j b. nxt h1 j b = (if j = i \<and> b = new then nxt h i ?q else nxt h j b)"
    using write_next_effect [OF Cons.prems(2) i(2), of "nxt h i ?q"] by blast
  have "h1 ?q \<noteq> None" "i < lev h1 ?q" using i h1(2) by (simp_all add: same_nodes_simps)
  then obtain h2 where h2: "write_next h1 ?q i (Some new) = Some h2" "same_nodes h1 h2"
    "\<And>j b. nxt h2 j b = (if j = i \<and> b = ?q then Some new else nxt h1 j b)"
    using write_next_effect [of h1 ?q i "Some new"] by blast
  have s2: "same_nodes h h2" using h1(2) h2(2) by (rule same_nodes_trans)
  have step: "link_levels (i # js) hp new prev h = link_levels js hp new prev h2"
    using i hd h1(1) h2(1) read_next_nxt [OF i(3,4)]
    by (cases "prev ! i") (simp_all add: vec_at_def prev_node_def)
  have ni: "j \<in> set js \<Longrightarrow> j \<noteq> i" for j using Cons.prems(1) by auto
  have n2: "nxt h2 j b = nxt h j b" if "j \<noteq> i" for j b using that by (simp add: h1(3) h2(3))
  have "\<exists>h'. link_levels js hp new prev h2 = Some h' \<and> same_nodes h2 h' \<and>
     (\<forall>j b. nxt h' j b =
        (if j \<in> set js \<and> b = new then nxt h2 j (prev_node hp prev j)
         else if j \<in> set js \<and> b = prev_node hp prev j then Some new else nxt h2 j b))"
    using Cons.prems ni n2 by (intro Cons.IH) (auto simp: same_nodes_simps [OF s2])
  then obtain h' where h': "link_levels js hp new prev h2 = Some h'" "same_nodes h2 h'"
    "\<And>j b. nxt h' j b =
        (if j \<in> set js \<and> b = new then nxt h2 j (prev_node hp prev j)
         else if j \<in> set js \<and> b = prev_node hp prev j then Some new else nxt h2 j b)" by blast
  have "nxt h' j b =
        (if j \<in> set (i # js) \<and> b = new then nxt h j (prev_node hp prev j)
         else if j \<in> set (i # js) \<and> b = prev_node hp prev j then Some new else nxt h j b)" for j b
    using ni [of j] i(5) by (cases "j = i") (auto simp: h'(3) h2(3) h1(3))
  with step h'(1) same_nodes_trans [OF s2 h'(2)] show ?case by auto
qed simp

lemma unlink_levels_effect:
  assumes "distinct js"
    and "\<And>j. j \<in> set js \<Longrightarrow> j < length prev \<and> prev ! j = Some (q j) \<and> h (q j) \<noteq> None \<and>
      j < lev h (q j) \<and> nxt h j (q j) = Some t \<and> h t \<noteq> None \<and> j < lev h t"
  shows "\<exists>h'. unlink_levels js prev h = Some h' \<and> same_nodes h h' \<and>
     (\<forall>j b. nxt h' j b = (if j \<in> set js \<and> b = q j then nxt h j t else nxt h j b))"
  using assms
proof (induction js arbitrary: h)
  case (Cons i js)
  have i: "i < length prev" "prev ! i = Some (q i)" "h (q i) \<noteq> None" "i < lev h (q i)"
    "nxt h i (q i) = Some t" "h t \<noteq> None" "i < lev h t"
    using Cons.prems(2) [of i] by auto
  obtain h1 where h1: "write_next h (q i) i (nxt h i t) = Some h1" "same_nodes h h1"
    "\<And>j b. nxt h1 j b = (if j = i \<and> b = q i then nxt h i t else nxt h j b)"
    using write_next_effect [OF i(3,4), of "nxt h i t"] by blast
  have step: "unlink_levels (i # js) prev h = unlink_levels js prev h1"
    using i h1(1) read_next_nxt [OF i(3,4)] read_next_nxt [OF i(6,7)] by (simp add: vec_at_def)
  have ni: "j \<in> set js \<Longrightarrow> j \<noteq> i" for j using Cons.prems(1) by auto
  have "\<exists>h'. unlink_levels js prev h1 = Some h' \<and> same_nodes h1 h' \<and>
     (\<forall>j b. nxt h' j b = (if j \<in> set js \<and> b = q j then nxt h1 j t else nxt h1 j b))"
    using Cons.prems ni by (intro Cons.IH) (auto simp: same_nodes_simps [OF h1(2)] h1(3))
  then obtain h' where h': "unlink_levels js prev h1 = Some h'" "same_nodes h1 h'"
    "\<And>j b. nxt h' j b = (if j \<in> set js \<and> b = q j then nxt h1 j t else nxt h1 j b)" by blast
  have "nxt h' j b = (if j \<in> set (i # js) \<and> b = q j then nxt h j t else nxt h j b)" for j b
    using ni [of j] by (cases "j = i") (auto simp: h'(3) h1(3))
  with step h'(1) same_nodes_trans [OF h1(2) h'(2)] show ?case by auto
qed simp

subsection \<open>Insert\<close>

lemma RandomLevel_from_bounds:
  "1 \<le> level \<Longrightarrow> level \<le> kMaxHeight \<Longrightarrow>
     level \<le> RandomLevel_from level coin \<and> RandomLevel_from level coin \<le> kMaxHeight"
proof (induction level coin rule: RandomLevel_from.induct)
  case (1 level coin)
  show ?case
  proof (cases "level < kMaxHeight \<and> coin (level - 1)")
    case True
    with 1 have "Suc level \<le> RandomLevel_from (Suc level) coin \<and>
        RandomLevel_from (Suc level) coin \<le> kMaxHeight" by simp
    with True show ?thesis by (subst (1 2) RandomLevel_from.simps) auto
  next
    case False
    with 1(3) show ?thesis by (subst (1 2) RandomLevel_from.simps) auto
  qed
qed

lemma RandomLevel_bounds: "1 \<le> RandomLevel coin" "RandomLevel coin \<le> kMaxHeight"
  using RandomLevel_from_bounds [of 1 coin] by (auto simp: RandomLevel_def kMaxHeight_def)

lemma pred_at_props:
  assumes inv: "sl_shape s as" and i: "i < kMaxHeight"
  shows "heap s (pred_at s as k i) \<noteq> None" and "i < lev (heap s) (pred_at s as k i)"
    and "pred_at s as k i \<in> insert (sl_head s) (set as)"
    and "sl_head s # at_level (heap s) i (below (heap s) k as)
       = butlast (sl_head s # at_level (heap s) i (below (heap s) k as)) @ [pred_at s as k i]"
proof -
  let ?b = "at_level (heap s) i (below (heap s) k as)"
  have "pred_at s as k i \<in> set (sl_head s # ?b)"
    unfolding pred_at_def by (rule last_in_set) simp
  moreover have "set ?b \<subseteq> {a \<in> set as. i < lev (heap s) a}"
    using below_above [of as "heap s" k] by (auto simp: set_at_level)
      (metis Un_iff set_append)
  ultimately have "pred_at s as k i = sl_head s \<or>
      pred_at s as k i \<in> set as \<and> i < lev (heap s) (pred_at s as k i)" by auto
  with inv i show "heap s (pred_at s as k i) \<noteq> None" "i < lev (heap s) (pred_at s as k i)"
    "pred_at s as k i \<in> insert (sl_head s) (set as)"
    by (auto simp: sl_shape_def)
  show "sl_head s # ?b = butlast (sl_head s # ?b) @ [pred_at s as k i]"
    unfolding pred_at_def by (rule append_butlast_last_id [symmetric]) simp
qed

lemma at_level_empty:
  assumes "sl_shape s as" and "max_level s \<le> i" and "set bs \<subseteq> set as"
  shows "at_level (heap s) i bs = []"
  using assms by (fastforce simp: at_level_def filter_empty_conv sl_shape_def)

lemma fresh_node:
  assumes "h new = None" and "h0 = h(new \<mapsto> Node k L v)"
  shows "h0 new \<noteq> None" and "lev h0 new = L" and "keyof h0 new = k" and "valof h0 new = v"
    and "b \<noteq> new \<Longrightarrow> h0 b = h b" and "b \<noteq> new \<Longrightarrow> lev h0 b = lev h b"
    and "b \<noteq> new \<Longrightarrow> keyof h0 b = keyof h b" and "b \<noteq> new \<Longrightarrow> nxt h0 j b = nxt h j b"
    and "new \<notin> set as \<Longrightarrow> items h0 as = items h as"
    and "new \<notin> set as \<Longrightarrow> at_level h0 j as = at_level h j as"
  using assms
  by (auto simp: lev_def keyof_def valof_def nxt_def Node_def GetLevel_def items_def at_level_def
      intro!: map_cong filter_cong)

lemma FindPrevNode_correct:
  assumes inv: "sl_shape s as"
  obtains prev where "FindPrevNode s k (replicate kMaxHeight None) = Some prev"
    and "length prev = kMaxHeight"
    and "\<And>j. j < kMaxHeight \<Longrightarrow> prev_node (sl_head s) prev j = pred_at s as k j"
    and "\<And>j. j < kMaxHeight \<Longrightarrow> prev ! j = None \<Longrightarrow> nxt (heap s) j (sl_head s) = None"
proof
  let ?prev = "map (\<lambda>j. if j \<le> max_level s - 1 then Some (pred_at s as k j)
      else replicate kMaxHeight None ! j) [0..<kMaxHeight]"
  from inv have ml: "1 \<le> max_level s" "max_level s \<le> kMaxHeight" by (auto simp: sl_shape_def)
  show "FindPrevNode s k (replicate kMaxHeight None) = Some ?prev"
    using FindPrevNode_loop_correct [OF inv stands_start, of "max_level s - 1" "replicate kMaxHeight None" k] ml
    by (simp add: FindPrevNode_def GetCurrentHeight_def)
  show "length ?prev = kMaxHeight" by simp
  fix j assume j: "j < kMaxHeight"
  have empty: "at_level (heap s) j bs = []" if "\<not> j \<le> max_level s - 1" "set bs \<subseteq> set as" for bs
    using that ml(1) by (intro at_level_empty [OF inv]) auto
  have sub: "set (below (heap s) k as) \<subseteq> set as"
    using below_above [of as "heap s" k] by (metis Un_iff set_append subsetI)
  show "prev_node (sl_head s) ?prev j = pred_at s as k j"
    using j empty [OF _ sub] by (auto simp: prev_node_def pred_at_def)
  assume "?prev ! j = None"
  then have "\<not> j \<le> max_level s - 1" using j by (auto split: if_splits)
  then show "nxt (heap s) j (sl_head s) = None"
    using inv j empty [of as] by (auto simp: sl_shape_def)
qed

lemma Insert_new:
  assumes inv: "sl_shape s as" and miss: "map_of (items (heap s) as) k = None"
  obtains s' where "Insert ks vs coin k v s = Some s'"
    and "sl_shape s' (below (heap s) k as @ brk s # above (heap s) k as)"
    and "items (heap s') (below (heap s) k as @ brk s # above (heap s) k as)
       = items (heap s) (below (heap s) k as) @ (k, v) # items (heap s) (above (heap s) k as)"
    and "sl_size s' = sl_size s + 1"
    and "mem_usage s' = mem_usage s + int (ks k) + int (vs v)"
proof -
  let ?h = "heap s" and ?new = "brk s" and ?L = "RandomLevel coin"
  let ?lo = "below ?h k as" and ?hi = "above ?h k as"
  let ?hn = "?h(?new \<mapsto> Node k ?L v)"
  from inv have hnew: "?h ?new = None" unfolding sl_shape_def by blast
  with inv have nhd: "?new \<noteq> sl_head s" and nas: "?new \<notin> set as"
    unfolding sl_shape_def by metis+
  have split: "as = ?lo @ ?hi" by (rule below_above)
  then have sub: "set ?lo \<subseteq> set as" "set ?hi \<subseteq> set as" by (metis Un_iff set_append subsetI)+
  have nlh: "?new \<notin> set ?lo" "?new \<notin> set ?hi" using nas sub by blast+
  note fresh = fresh_node [where h = ?h and new = ?new and k = k and L = ?L and v = v, OF hnew refl]
  obtain prev where prev: "FindPrevNode s k (replicate kMaxHeight None) = Some prev"
    "length prev = kMaxHeight"
    "\<And>j. j < kMaxHeight \<Longrightarrow> prev_node (sl_head s) prev j = pred_at s as k j"
    "\<And>j. j < kMaxHeight \<Longrightarrow> prev ! j = None \<Longrightarrow> nxt ?h j (sl_head s) = None"
    using FindPrevNode_correct [OF inv] by blast
  have L: "1 \<le> ?L" "?L \<le> kMaxHeight" by (rule RandomLevel_bounds)+
  have pn: "pred_at s as k j \<noteq> ?new" if "j < kMaxHeight" for j
    using pred_at_props(3) [OF inv that, of k] nhd nas by auto
  have "\<exists>h'. link_levels [0..<?L] (sl_head s) ?new prev ?hn = Some h' \<and> same_nodes ?hn h' \<and>
     (\<forall>j b. nxt h' j b =
        (if j \<in> set [0..<?L] \<and> b = ?new then nxt ?hn j (prev_node (sl_head s) prev j)
         else if j \<in> set [0..<?L] \<and> b = prev_node (sl_head s) prev j then Some ?new
         else nxt ?hn j b))"
  proof (rule link_levels_effect)
    fix j assume "j \<in> set [0..<?L]"
    then have j: "j < ?L" "j < kMaxHeight" using L(2) by auto
    with pred_at_props [OF inv j(2), of k] prev pn [OF j(2)] nhd
    show "j < length prev \<and> j < lev ?hn ?new \<and> ?hn (prev_node (sl_head s) prev j) \<noteq> None \<and>
      j < lev ?hn (prev_node (sl_head s) prev j) \<and> prev_node (sl_head s) prev j \<noteq> ?new \<and>
      (prev ! j = None \<longrightarrow> nxt ?hn j (sl_head s) = None)"
      by (simp add: fresh)
  qed (simp_all add: fresh)
  then obtain h' where h': "link_levels [0..<?L] (sl_head s) ?new prev ?hn = Some h'"
    "same_nodes ?hn h'"
    "\<And>j b. nxt h' j b =
        (if j < ?L \<and> b = ?new then nxt ?hn j (prev_node (sl_head s) prev j)
         else if j < ?L \<and> b = prev_node (sl_head s) prev j then Some ?new else nxt ?hn j b)"
    by auto
  let ?s' = "s\<lparr>heap := h', brk := Suc ?new, max_level := max ?L (max_level s),
      sl_size := sl_size s + 1, mem_usage := mem_usage s + int (ks k) + int (vs v)\<rparr>"
  let ?as' = "?lo @ ?new # ?hi"
  note same = same_nodes_simps [OF h'(2)]
  have ins: "Insert ks vs coin k v s = Some ?s'"
    using prev(1) h'(1) miss by (simp add: Insert_def Get_correct [OF inv] NewNode_def)
  have chains: "chain (nxt h' i) (sl_head s # at_level h' i ?as')" if i: "i < kMaxHeight" for i
  proof -
    let ?p = "pred_at s as k i"
    have L: "sl_head s # at_level ?h i as = (sl_head s # at_level ?h i ?lo) @ at_level ?h i ?hi"
      using arg_cong [OF split, of "at_level ?h i"] by simp
    have ch: "chain (nxt ?h i) ((sl_head s # at_level ?h i ?lo) @ at_level ?h i ?hi)"
      unfolding L [symmetric] using inv i by (auto simp: sl_shape_def)
    have di: "distinct ((sl_head s # at_level ?h i ?lo) @ at_level ?h i ?hi)"
      unfolding L [symmetric] using inv by (auto simp: sl_shape_def at_level_def)
    have nn: "?new \<notin> set ((sl_head s # at_level ?h i ?lo) @ at_level ?h i ?hi)"
      using nhd nas sub by (auto simp: set_at_level)
    obtain us where us: "sl_head s # at_level ?h i ?lo = us @ [?p]"
      using pred_at_props(4) [OF inv i] by blast
    have lvl: "at_level h' i ?as' = at_level ?h i ?lo @ (if i < ?L then [?new] else []) @ at_level ?h i ?hi"
      using nlh by (simp add: same fresh)
    show ?thesis
    proof (cases "i < ?L")
      case True
      have "chain (nxt h' i) (us @ ?p # ?new # at_level ?h i ?hi)"
      proof (rule chain_insert)
        show "chain (nxt ?h i) (us @ ?p # at_level ?h i ?hi)" using ch unfolding us by simp
        show d: "distinct (us @ ?p # at_level ?h i ?hi)" using di unfolding us by simp
        show "?new \<notin> set (us @ ?p # at_level ?h i ?hi)" using nn unfolding us by simp
        show "nxt h' i ?p = Some ?new" "nxt h' i ?new = nxt ?h i ?p"
          using True i pn [OF i] prev(3) by (simp_all add: h'(3) fresh)
        fix a assume a: "a \<in> set (us @ at_level ?h i ?hi)"
        with d nn have "a \<noteq> ?p" "a \<noteq> ?new" unfolding us by auto
        with i prev(3) show "nxt h' i a = nxt ?h i a" by (simp add: h'(3) fresh)
      qed
      moreover have "sl_head s # at_level h' i ?as' = us @ ?p # ?new # at_level ?h i ?hi"
        using True arg_cong [OF us, of "\<lambda>z. z @ ?new # at_level ?h i ?hi"]
        by (simp only: lvl) simp
      ultimately show ?thesis by (simp only:)
    next
      case False
      have "chain (nxt h' i) ((sl_head s # at_level ?h i ?lo) @ at_level ?h i ?hi)
          = chain (nxt ?h i) ((sl_head s # at_level ?h i ?lo) @ at_level ?h i ?hi)"
      proof (rule chain_cong)
        fix a assume "a \<in> set ((sl_head s # at_level ?h i ?lo) @ at_level ?h i ?hi)"
        with nn have "a \<noteq> ?new" by metis
        with False show "nxt h' i a = nxt ?h i a" by (simp add: h'(3) fresh)
      qed
      with ch False show ?thesis by (simp only: lvl) simp
    qed
  qed
  have klo: "keyof ?h a < k" if "a \<in> set ?lo" for a using that by (rule below_less)
  have khi: "k < keyof ?h a" if a: "a \<in> set ?hi" for a
  proof -
    have "keyof ?h a \<noteq> k"
      using map_of_items_hit [OF inv, of a] miss a sub by auto
    with above_ge [OF inv a] show ?thesis by simp
  qed
  have other: "lev h' a = lev ?h a" "keyof h' a = keyof ?h a" "(h' a = None) = (?h a = None)"
    if "a \<noteq> ?new" for a
    using that by (simp_all add: same fresh)
  have new: "lev h' ?new = ?L" "keyof h' ?new = k" "h' ?new \<noteq> None" by (simp_all add: same fresh)
  have mem: "a \<in> set as \<Longrightarrow> a \<noteq> ?new" for a using nas by auto
  have kk: "a \<in> set ?lo \<Longrightarrow> keyof h' a = keyof ?h a" "a \<in> set ?hi \<Longrightarrow> keyof h' a = keyof ?h a" for a
    using other(2) nlh by metis+
  have "sorted_wrt (\<lambda>a b. keyof h' a < keyof h' b) ?as'"
  proof -
    have "sorted_wrt (\<lambda>a b. keyof ?h a < keyof ?h b) (?lo @ ?hi)"
      using inv split by (simp add: sl_shape_def)
    then have "sorted_wrt (\<lambda>a b. keyof h' a < keyof h' b) (?lo @ ?hi)"
      by (rule sorted_wrt_mono_rel [rotated]) (auto simp: kk)
    then show ?thesis
      using klo khi by (auto simp: sorted_wrt_append kk new(2))
  qed
  moreover have "distinct ?as'" "sl_head s \<notin> set ?as'"
  proof -
    have "distinct (?lo @ ?hi)" "sl_head s \<notin> set (?lo @ ?hi)"
      using inv split by (simp_all add: sl_shape_def)
    then show "distinct ?as'" "sl_head s \<notin> set ?as'" using nlh nhd by auto
  qed
  moreover have "\<forall>a \<in> set ?as'. h' a \<noteq> None \<and> 1 \<le> lev h' a \<and> lev h' a \<le> max ?L (max_level s)"
  proof
    fix a assume "a \<in> set ?as'"
    then consider "a = ?new" | "a \<in> set as" "a \<noteq> ?new" using sub nas by auto
    then show "h' a \<noteq> None \<and> 1 \<le> lev h' a \<and> lev h' a \<le> max ?L (max_level s)"
    proof cases
      case 1
      with L new show ?thesis by simp
    next
      case 2
      with inv have "?h a \<noteq> None \<and> 1 \<le> lev ?h a \<and> lev ?h a \<le> max_level s" by (simp add: sl_shape_def)
      with 2 other show ?thesis by (simp add: le_max_iff_disj)
    qed
  qed
  moreover have "\<forall>a. Suc ?new \<le> a \<longrightarrow> h' a = None"
    using inv other(3) by (auto simp: sl_shape_def)
  ultimately have "sl_shape ?s' ?as'"
    using inv L chains nhd other by (simp add: sl_shape_def)
  moreover have "items h' ?as' = items ?h ?lo @ (k, v) # items ?h ?hi"
    using nlh by (simp add: same fresh)
  ultimately show thesis using that [OF ins] by simp
qed

subsection \<open>Delete\<close>

lemma above_present:
  assumes inv: "sl_shape s as" and t: "t \<in> set as" "keyof (heap s) t = k"
  obtains rest where "above (heap s) k as = t # rest"
proof -
  let ?h = "heap s"
  have split: "as = below ?h k as @ above ?h k as" by (rule below_above)
  have "t \<notin> set (below ?h k as)" using t(2) below_less [of t ?h k as] by auto
  with t(1) split have ta: "t \<in> set (above ?h k as)" by (metis Un_iff set_append)
  then obtain y rest where y: "above ?h k as = y # rest" by (cases "above ?h k as") auto
  have "sorted_wrt (\<lambda>a b. keyof ?h a < keyof ?h b) (below ?h k as @ above ?h k as)"
    using inv split by (simp add: sl_shape_def)
  then have "\<forall>z \<in> set rest. keyof ?h y < keyof ?h z" by (simp add: y sorted_wrt_append)
  moreover have "k \<le> keyof ?h y" using above_ge [OF inv] y by simp
  ultimately have "y = t" using ta t(2) y by force
  with y that show thesis by simp
qed

lemma pred_next:
  assumes inv: "sl_shape s as" and i: "i < kMaxHeight"
  shows "nxt (heap s) i (pred_at s as k i) = hd_opt (at_level (heap s) i (above (heap s) k as))"
proof -
  let ?h = "heap s"
  have "chain (nxt ?h i) (sl_head s # at_level ?h i as)" using inv i by (auto simp: sl_shape_def)
  also have "sl_head s # at_level ?h i as
      = (sl_head s # at_level ?h i (below ?h k as)) @ at_level ?h i (above ?h k as)"
    using arg_cong [OF below_above [of as ?h k], of "at_level ?h i"] by simp
  also have "\<dots> = butlast (sl_head s # at_level ?h i (below ?h k as)) @ pred_at s as k i
      # at_level ?h i (above ?h k as)"
    by (subst pred_at_props(4) [OF inv i, of k]) simp
  finally show ?thesis by (rule chain_mid)
qed

lemma Delete_present:
  assumes inv: "sl_shape s as" and t: "t \<in> set as" "keyof (heap s) t = k"
  obtains s' rest where "Delete ks vs k s = Some s'" and "above (heap s) k as = t # rest"
    and "sl_shape s' (below (heap s) k as @ rest)"
    and "items (heap s') (below (heap s) k as @ rest)
       = items (heap s) (below (heap s) k as) @ items (heap s) rest"
    and "sl_size s' = sl_size s - 1"
    and "mem_usage s' = mem_usage s - int (ks k) - int (vs (valof (heap s) t))"
proof -
  let ?h = "heap s" and ?lo = "below (heap s) k as" and ?p = "pred_at s as k"
  obtain rest where rest: "above ?h k as = t # rest" using inv t by (rule above_present)
  have split: "as = ?lo @ t # rest" using below_above [of as ?h k] rest by simp
  let ?prev = "map (\<lambda>j. if j \<le> max_level s - 1 \<and> at_level ?h j (above ?h k as) \<noteq> []
      then Some (?p j) else replicate kMaxHeight None ! j) [0..<kMaxHeight]"
  from inv t(1) have ml: "1 \<le> max_level s" "max_level s \<le> kMaxHeight"
    and lt: "?h t \<noteq> None" "1 \<le> lev ?h t" "lev ?h t \<le> max_level s" by (auto simp: sl_shape_def)
  have loop: "Delete_loop ?h k (sl_head s) (max_level s - 1) (replicate kMaxHeight None) (- 1)
      = Some (?prev, int (lev ?h t))"
    using Delete_loop_correct [OF inv t stands_start, of "max_level s - 1" "replicate kMaxHeight None" "- 1"] ml
    by simp
  have pv: "?prev ! j = Some (?p j)" and nx: "nxt ?h j (?p j) = Some t" if "j < lev ?h t" for j
    using that lt ml pred_next [OF inv, of j k] by (simp_all add: rest)
  have "\<exists>h'. unlink_levels [0..<lev ?h t] ?prev ?h = Some h' \<and> same_nodes ?h h' \<and>
     (\<forall>j b. nxt h' j b = (if j \<in> set [0..<lev ?h t] \<and> b = ?p j then nxt ?h j t else nxt ?h j b))"
  proof (rule unlink_levels_effect)
    fix j assume "j \<in> set [0..<lev ?h t]"
    then have j: "j < lev ?h t" "j < kMaxHeight" using lt ml by auto
    then show "j < length ?prev \<and> ?prev ! j = Some (?p j) \<and> ?h (?p j) \<noteq> None \<and> j < lev ?h (?p j) \<and>
      nxt ?h j (?p j) = Some t \<and> ?h t \<noteq> None \<and> j < lev ?h t"
      using pv [OF j(1)] nx [OF j(1)] lt(1) pred_at_props(1,2) [OF inv j(2)] by simp
  qed simp
  then obtain h' where h': "unlink_levels [0..<lev ?h t] ?prev ?h = Some h'" "same_nodes ?h h'"
    "\<And>j b. nxt h' j b = (if j < lev ?h t \<and> b = ?p j then nxt ?h j t else nxt ?h j b)" by auto
  note same = same_nodes_simps [OF h'(2)]
  let ?s' = "s\<lparr>heap := h', sl_size := sl_size s - 1,
      mem_usage := mem_usage s - int (ks k) - int (vs (valof ?h t))\<rparr>"
  obtain n where n: "?h t = Some n" "valof ?h t = nval n" using lt(1) by (auto simp: valof_def)
  have "read_next ?h (?p 0) 0 = Some (Some t)"
    using read_next_nxt [OF pred_at_props(1,2) [OF inv]] nx [of 0] lt(2) by (simp add: kMaxHeight_def)
  moreover have "vec_at ?prev 0 = Some (Some (?p 0))"
    using pv [of 0] lt(2) by (simp add: vec_at_def kMaxHeight_def)
  moreover have "Contains s k = Some True"
    using map_of_items_hit [OF inv t(1)] t(2) by (simp add: Get_correct [OF inv])
  ultimately have del: "Delete ks vs k s = Some ?s'"
    using loop h'(1) n by (simp add: Delete_def GetCurrentHeight_def del: upt_Suc)
  have chains: "chain (nxt h' i) (sl_head s # at_level h' i (?lo @ rest))" if i: "i < kMaxHeight" for i
  proof -
    have L: "sl_head s # at_level ?h i as = (sl_head s # at_level ?h i ?lo) @ at_level ?h i (t # rest)"
      using arg_cong [OF split, of "at_level ?h i"] by simp
    have ch: "chain (nxt ?h i) ((sl_head s # at_level ?h i ?lo) @ at_level ?h i (t # rest))"
      unfolding L [symmetric] using inv i by (auto simp: sl_shape_def)
    have di: "distinct ((sl_head s # at_level ?h i ?lo) @ at_level ?h i (t # rest))"
      unfolding L [symmetric] using inv by (auto simp: sl_shape_def at_level_def)
    obtain us where us: "sl_head s # at_level ?h i ?lo = us @ [?p i]"
      using pred_at_props(4) [OF inv i] by blast
    have lvl: "sl_head s # at_level h' i (?lo @ rest) = us @ ?p i # at_level ?h i rest"
      using arg_cong [OF us, of "\<lambda>z. z @ at_level ?h i rest"] by (simp add: same)
    show ?thesis
    proof (cases "i < lev ?h t")
      case True
      have "chain (nxt h' i) (us @ ?p i # at_level ?h i rest)"
      proof (rule chain_delete)
        show "chain (nxt ?h i) (us @ ?p i # t # at_level ?h i rest)" using ch True unfolding us by simp
        show d: "distinct (us @ ?p i # t # at_level ?h i rest)" using di True unfolding us by simp
        show "nxt h' i (?p i) = nxt ?h i t" using True by (simp add: h'(3))
        fix a assume "a \<in> set (us @ at_level ?h i rest)"
        with d show "nxt h' i a = nxt ?h i a" by (auto simp: h'(3))
      qed
      then show ?thesis by (simp only: lvl)
    next
      case False
      then have "chain (nxt ?h i) (us @ ?p i # at_level ?h i rest)" using ch unfolding us by simp
      moreover have "nxt h' i = nxt ?h i" using False by (auto simp: h'(3))
      ultimately show ?thesis by (simp only: lvl)
    qed
  qed
  have "sorted_wrt (\<lambda>a b. keyof ?h a < keyof ?h b) (?lo @ t # rest)" "distinct (?lo @ t # rest)"
      "sl_head s \<notin> set (?lo @ t # rest)"
      "\<forall>a \<in> set (?lo @ t # rest). ?h a \<noteq> None \<and> 1 \<le> lev ?h a \<and> lev ?h a \<le> max_level s"
    using inv split by (simp_all add: sl_shape_def)
  then have "sl_shape ?s' (?lo @ rest)"
    using inv chains by (simp add: sl_shape_def same sorted_wrt_append)
  moreover have "items h' (?lo @ rest) = items ?h ?lo @ items ?h rest" by (simp add: same)
  ultimately show thesis using that [OF del rest] by simp
qed

subsection \<open>The contract of the ordered table\<close>

lemma sl_rep_sorted: "sl_rep ks vs s kvs \<Longrightarrow> sorted_wrt (<) (map fst kvs)"
  unfolding sl_rep_def using sl_shape_sorted_keys by blast

lemma sl_rep_Get: "sl_rep ks vs s kvs \<Longrightarrow> Get s k = Some (map_of kvs k)"
  unfolding sl_rep_def using Get_correct(1) by blast

lemma sl_rep_Contains: "sl_rep ks vs s kvs \<Longrightarrow> Contains s k = Some (map_of kvs k \<noteq> None)"
  unfolding sl_rep_def using Get_correct(2) by blast

lemma items_below_above:
  "takeWhile (\<lambda>(a, _). a < k) (items h as) = items h (below h k as)"
  "dropWhile (\<lambda>(a, _). a < k) (items h as) = items h (above h k as)"
  by (simp_all add: items_def below_def above_def takeWhile_map dropWhile_map comp_def)

lemma sl_rep_Insert:
  assumes "sl_rep ks vs s kvs"
  shows "\<exists>s'. Insert ks vs coin k v s = Some s' \<and> sl_rep ks vs s' (alist_insert k v kvs)"
proof -
  from assms obtain as where inv: "sl_shape s as" and kvs: "kvs = items (heap s) as"
    and cnt: "sl_counts ks vs s kvs" unfolding sl_rep_def by blast
  show ?thesis
  proof (cases "map_of kvs k")
    case None
    with inv kvs obtain s' where s': "Insert ks vs coin k v s = Some s'"
      "sl_shape s' (below (heap s) k as @ brk s # above (heap s) k as)"
      "items (heap s') (below (heap s) k as @ brk s # above (heap s) k as)
         = items (heap s) (below (heap s) k as) @ (k, v) # items (heap s) (above (heap s) k as)"
      "sl_size s' = sl_size s + 1" "mem_usage s' = mem_usage s + int (ks k) + int (vs v)"
      using Insert_new [of s as k ks vs coin v] by blast
    have new: "alist_insert k v kvs
        = items (heap s) (below (heap s) k as) @ (k, v) # items (heap s) (above (heap s) k as)"
      using None by (simp add: alist_insert_def kvs items_below_above)
    have "kvs = items (heap s) (below (heap s) k as) @ items (heap s) (above (heap s) k as)"
      unfolding kvs using below_above [of as "heap s" k] by (metis items_simps(3))
    then have "sl_counts ks vs s
        (items (heap s) (below (heap s) k as) @ items (heap s) (above (heap s) k as))"
      using cnt by metis
    with s'(4,5) have "sl_counts ks vs s' (alist_insert k v kvs)"
      unfolding new by (simp add: sl_counts_def)
    with s'(2,3) new have "sl_rep ks vs s' (alist_insert k v kvs)" unfolding sl_rep_def by metis
    with s'(1) show ?thesis by blast
  next
    case (Some w)
    with sl_rep_Contains [OF assms, of k] have "Insert ks vs coin k v s = Some s"
      by (simp add: Insert_def)
    with assms Some show ?thesis by (simp add: alist_insert_present)
  qed
qed

lemma sl_rep_Delete:
  assumes "sl_rep ks vs s kvs"
  shows "\<exists>s'. Delete ks vs k s = Some s' \<and> sl_rep ks vs s' (alist_delete k kvs)"
proof -
  from assms obtain as where inv: "sl_shape s as" and kvs: "kvs = items (heap s) as"
    and cnt: "sl_counts ks vs s kvs" unfolding sl_rep_def by blast
  show ?thesis
  proof (cases "map_of kvs k")
    case None
    with sl_rep_Contains [OF assms, of k] have "Delete ks vs k s = Some s" by (simp add: Delete_def)
    with assms None show ?thesis by (simp add: alist_delete_absent)
  next
    case (Some w)
    then have "(k, w) \<in> set kvs" by (rule map_of_SomeD)
    then obtain t where t: "t \<in> set as" "keyof (heap s) t = k" by (auto simp: kvs items_def)
    obtain s' rest where s': "Delete ks vs k s = Some s'" "above (heap s) k as = t # rest"
      "sl_shape s' (below (heap s) k as @ rest)"
      "items (heap s') (below (heap s) k as @ rest)
         = items (heap s) (below (heap s) k as) @ items (heap s) rest"
      "sl_size s' = sl_size s - 1"
      "mem_usage s' = mem_usage s - int (ks k) - int (vs (valof (heap s) t))"
      using inv t by (rule Delete_present)
    let ?lo = "items (heap s) (below (heap s) k as)" and ?hi = "items (heap s) rest"
    have split: "kvs = ?lo @ (k, valof (heap s) t) # ?hi"
      unfolding kvs using below_above [of as "heap s" k] s'(2) t(2) by (metis items_simps(2,3))
    have "distinct (map fst kvs)"
      using sl_rep_sorted [OF assms] by (simp add: strict_sorted_iff)
    then have del: "alist_delete k kvs = ?lo @ ?hi"
      using split alist_delete_mid by metis
    have "sl_counts ks vs s (?lo @ (k, valof (heap s) t) # ?hi)"
      using cnt split by metis
    with s'(5,6) have "sl_counts ks vs s' (alist_delete k kvs)"
      unfolding del by (simp add: sl_counts_def)
    with del have "sl_rep ks vs s' (alist_delete k kvs)"
      unfolding sl_rep_def using s'(3,4) by metis
    with s'(1) show ?thesis by blast
  qed
qed

interpretation sl: ordered_table "Insert ks vs" "Delete ks vs" Get Contains "sl_rep ks vs"
  for ks :: "'k :: linorder \<Rightarrow> nat" and vs :: "'v \<Rightarrow> nat"
  by unfold_locales
    (fact sl_rep_sorted sl_rep_Get sl_rep_Contains sl_rep_Insert sl_rep_Delete)+

subsection \<open>Iteration\<close>

primrec Next_n :: "('k, 'v) skiplist \<Rightarrow> nat \<Rightarrow> sl_iterator option" where
  "Next_n s 0 = MoveToFirst s"
| "Next_n s (Suc n) = Option.bind (Next_n s n) (Next s)"

lemma Next_n_shape:
  assumes inv: "sl_shape s as"
  shows "n \<le> length as \<Longrightarrow> Next_n s n = Some (hd_opt (drop n as))"
proof (induction n)
  case 0
  have "chain (nxt (heap s) 0) (sl_head s # as)"
    using inv sl_shape_level0 [OF inv] by (metis kMaxHeight_def sl_shape_def zero_less_numeral)
  moreover have "heap s (sl_head s) \<noteq> None" "0 < lev (heap s) (sl_head s)"
    using inv by (auto simp: sl_shape_def kMaxHeight_def)
  ultimately show ?case by (simp add: MoveToFirst_def read_next_nxt)
next
  case (Suc n)
  then have d: "drop n as = as ! n # drop (Suc n) as" by (simp add: Cons_nth_drop_Suc)
  have "chain (nxt (heap s) 0) ((sl_head s # take n as) @ as ! n # drop (Suc n) as)"
    using inv sl_shape_level0 [OF inv] Suc.prems
    by (metis append_Cons d append_take_drop_id kMaxHeight_def sl_shape_def zero_less_numeral)
  then have "nxt (heap s) 0 (as ! n) = hd_opt (drop (Suc n) as)" by (rule chain_mid)
  moreover have "heap s (as ! n) \<noteq> None" "0 < lev (heap s) (as ! n)"
    using inv Suc.prems by (auto simp: sl_shape_def Suc_le_eq)
  ultimately show ?case using Suc by (simp add: d Next_def read_next_nxt)
qed

lemma sl_rep_iterate:
  assumes "sl_rep ks vs s kvs"
  shows "n < length kvs \<Longrightarrow> \<exists>it. Next_n s n = Some it \<and> Valid it \<and>
           iter_key s it = Some (fst (kvs ! n)) \<and> iter_value s it = Some (snd (kvs ! n))"
    and "\<exists>it. Next_n s (length kvs) = Some it \<and> \<not> Valid it"
proof -
  from assms obtain as where inv: "sl_shape s as" and kvs: "kvs = items (heap s) as"
    unfolding sl_rep_def by blast
  show "\<exists>it. Next_n s (length kvs) = Some it \<and> \<not> Valid it"
    using Next_n_shape [OF inv, of "length as"] by (simp add: kvs items_def Valid_def)
  assume n: "n < length kvs"
  then have "drop n as = as ! n # drop (Suc n) as" "n < length as" by (simp_all add: Cons_nth_drop_Suc kvs items_def)
  moreover have "heap s (as ! n) \<noteq> None" using inv \<open>n < length as\<close> by (simp add: sl_shape_def)
  ultimately show "\<exists>it. Next_n s n = Some it \<and> Valid it \<and>
      iter_key s it = Some (fst (kvs ! n)) \<and> iter_value s it = Some (snd (kvs ! n))"
    using Next_n_shape [OF inv, of n]
    by (auto simp: kvs items_def Valid_def iter_key_def iter_value_def keyof_def valof_def)
qed

text \<open>The debugging output is the keys in order; the walk never reaches the null pointer too early.\<close>

lemma print_loop_shape:
  assumes inv: "sl_shape s as"
  shows "n \<le> length as \<Longrightarrow> print_loop (heap s) (length as - n) (hd_opt (drop n as)) = Some (map (keyof (heap s)) (drop n as))"
proof (induction "length as - n" arbitrary: n)
  case 0
  then show ?case by simp
next
  case (Suc m)
  then have lt: "n < length as" by simp
  then have d: "drop n as = as ! n # drop (Suc n) as" by (simp add: Cons_nth_drop_Suc)
  have "read_next (heap s) (as ! n) 0 = Some (hd_opt (drop (Suc n) as))"
    using Next_n_shape [OF inv, of "Suc n"] Next_n_shape [OF inv, of n] lt by (simp add: d Next_def)
  moreover have "heap s (as ! n) \<noteq> None" using inv lt by (simp add: sl_shape_def)
  then obtain nd where "heap s (as ! n) = Some nd" by blast
  moreover have "print_loop (heap s) (length as - Suc n) (hd_opt (drop (Suc n) as)) =
      Some (map (keyof (heap s)) (drop (Suc n) as))"
    using Suc lt by (intro Suc.hyps(1)) simp_all
  moreover have "length as - n = Suc (length as - Suc n)" using lt by simp
  ultimately show ?case by (simp add: d keyof_def)
qed

lemma sl_rep_print:
  assumes "sl_rep ks vs s kvs"
  shows "OnlyUsedForDebugging_Print s = Some (map fst kvs)"
proof -
  from assms obtain as where inv: "sl_shape s as" and kvs: "kvs = items (heap s) as" and c: "sl_counts ks vs s kvs"
    unfolding sl_rep_def by blast
  have "sl_size s = int (length as)" using c by (simp add: sl_counts_def kvs items_def)
  moreover have "read_next (heap s) (sl_head s) 0 = Some (hd_opt as)"
    using Next_n_shape [OF inv, of 0] by (simp add: MoveToFirst_def)
  ultimately show ?thesis
    using print_loop_shape [OF inv, of 0] by (simp add: OnlyUsedForDebugging_Print_def kvs items_def comp_def)
qed

subsection \<open>Properties\<close>

text \<open>
  On a well-formed skip list Insert returns, keeps the list well formed (every level a sorted
  sub-chain of the one below, the counters exact) and inserts the entry at its place in the
  order unless the key is there.
\<close>

theorem skiplist_insert_refines:
  assumes "sl_rep ks vs s kvs"
  shows "\<exists>s'. Insert ks vs coin k v s = Some s' \<and> sl_rep ks vs s' (alist_insert k v kvs)"
  using assms by (rule sl.put_rep)

theorem skiplist_insert_refines_witness:
  "\<exists>s'. Insert (\<lambda>_. 1) (\<lambda>_. 1) (\<lambda>_. True) (5 :: nat) (6 :: nat) (SkipList 0 0) = Some s' \<and>
     sl_rep (\<lambda>_. 1) (\<lambda>_. 1) s' [(5, 6)]"
  using skiplist_insert_refines [OF SkipList_rep, of "\<lambda>_. 1" "\<lambda>_. 1" "\<lambda>_. True" "5 :: nat" "6 :: nat" 0 0]
  by (simp add: alist_insert_def)

text \<open>
  On a well-formed skip list Delete returns, keeps the list well formed with exact counters,
  and removes the entry of the key and no other.
\<close>

theorem skiplist_delete_refines:
  assumes "sl_rep ks vs s kvs"
  shows "\<exists>s'. Delete ks vs k s = Some s' \<and> sl_rep ks vs s' (alist_delete k kvs)"
  using assms by (rule sl.del_rep)

theorem skiplist_delete_refines_witness:
  "\<exists>s s'. Insert (\<lambda>_. 1) (\<lambda>_. 1) (\<lambda>_. True) (5 :: nat) (6 :: nat) (SkipList 0 0) = Some s \<and>
     Delete (\<lambda>_. 1) (\<lambda>_. 1) 5 s = Some s' \<and> sl_rep (\<lambda>_. 1) (\<lambda>_. 1) s' []"
proof -
  obtain s where s: "Insert (\<lambda>_. 1) (\<lambda>_. 1) (\<lambda>_. True) (5 :: nat) (6 :: nat) (SkipList 0 0) = Some s"
    "sl_rep (\<lambda>_. 1) (\<lambda>_. 1) s [(5, 6)]"
    using sl.put_rep [OF SkipList_rep, of "\<lambda>_. 1" "\<lambda>_. 1" "\<lambda>_. True" "5 :: nat" "6 :: nat" 0 0]
    by (auto simp: alist_insert_def)
  from skiplist_delete_refines [OF s(2), of 5] s(1) show ?thesis by (simp add: alist_delete_def)
qed

text \<open>
  On a well-formed skip list the searches of Get and Contains end, never leave the list, and
  answer with the value of the key, respectively with whether the key is there.
\<close>

theorem skiplist_lookup:
  assumes "sl_rep ks vs s kvs"
  shows "Get s k = Some (map_of kvs k) \<and> Contains s k = Some (map_of kvs k \<noteq> None)"
  using sl.get_rep [OF assms] sl.has_rep [OF assms] by blast

theorem skiplist_lookup_witness:
  "\<exists>s. Insert (\<lambda>_. 1) (\<lambda>_. 1) (\<lambda>_. True) (5 :: nat) (6 :: nat) (SkipList 0 0) = Some s \<and>
     Get s 5 = Some (Some 6) \<and> Contains s 4 = Some False"
proof -
  obtain s where s: "Insert (\<lambda>_. 1) (\<lambda>_. 1) (\<lambda>_. True) (5 :: nat) (6 :: nat) (SkipList 0 0) = Some s"
    "sl_rep (\<lambda>_. 1) (\<lambda>_. 1) s [(5, 6)]"
    using sl.put_rep [OF SkipList_rep, of "\<lambda>_. 1" "\<lambda>_. 1" "\<lambda>_. True" "5 :: nat" "6 :: nat" 0 0]
    by (auto simp: alist_insert_def)
  from skiplist_lookup [OF s(2), of 5] skiplist_lookup [OF s(2), of 4] s(1) show ?thesis by simp
qed

text \<open>
  The debugging output of a well-formed skip list lists its keys in order, one for each entry,
  without following a null pointer, although its loop counts to the size and does not look for
  the end of the list.
\<close>

theorem skiplist_print:
  assumes "sl_rep ks vs s kvs"
  shows "OnlyUsedForDebugging_Print s = Some (map fst kvs)"
  using assms by (rule sl_rep_print)

theorem skiplist_print_witness:
  "OnlyUsedForDebugging_Print (SkipList (0 :: nat) (0 :: nat)) = Some []"
  using skiplist_print [OF SkipList_rep, of "0 :: nat" "0 :: nat"] by simp

text \<open>
  C22: On a well-formed skip list (every level a sorted sub-chain of the one below, the
  counters exact) Insert, Delete, Get and Contains return and never leave the list; Insert and
  Delete keep it well formed and put in the entry at its place unless the key is there,
  respectively take out the entry of the key and no other; Get and Contains answer as the list
  of entries does.
\<close>

theorem skiplist_refines:
  assumes "sl_rep ks vs s kvs"
  shows "(\<exists>s'. Insert ks vs coin k v s = Some s' \<and> sl_rep ks vs s' (alist_insert k v kvs)) \<and>
    (\<exists>s'. Delete ks vs k s = Some s' \<and> sl_rep ks vs s' (alist_delete k kvs)) \<and>
    Get s k = Some (map_of kvs k) \<and> Contains s k = Some (map_of kvs k \<noteq> None)"
  using sl.put_rep [OF assms] sl.del_rep [OF assms] sl.get_rep [OF assms] sl.has_rep [OF assms] by blast

theorem skiplist_refines_witness:
  "\<exists>s s'. Insert (\<lambda>_. 1) (\<lambda>_. 1) (\<lambda>_. True) (5 :: nat) (6 :: nat) (SkipList 0 0) = Some s \<and>
     Get s 5 = Some (Some 6) \<and> Contains s 4 = Some False \<and>
     Delete (\<lambda>_. 1) (\<lambda>_. 1) 5 s = Some s' \<and> sl_rep (\<lambda>_. 1) (\<lambda>_. 1) s' []"
proof -
  obtain s where s: "Insert (\<lambda>_. 1) (\<lambda>_. 1) (\<lambda>_. True) (5 :: nat) (6 :: nat) (SkipList 0 0) = Some s"
    "sl_rep (\<lambda>_. 1) (\<lambda>_. 1) s [(5, 6)]"
    using sl.put_rep [OF SkipList_rep, of "\<lambda>_. 1" "\<lambda>_. 1" "\<lambda>_. True" "5 :: nat" "6 :: nat" 0 0]
    by (auto simp: alist_insert_def)
  from skiplist_refines [OF s(2), of _ 5] skiplist_refines [OF s(2), of _ 4] s(1) show ?thesis
    by (simp add: alist_delete_def)
qed

end
