(* ===== verification/Mem_Table.thy ===== *)
theory Mem_Table
  imports Skip_List_Correct
begin

section \<open>The memory table\<close>

text \<open>
  \<open>MemTable\<close> (\<open>src/memtable/memtable.h\<close>, \<open>memtable.cpp\<close>) and \<open>MemTableIterator\<close>
  (\<open>memtable_iterator.h\<close>): a skip list from \<open>std::string\<close> to \<open>std::string\<close>. Every operation
  passes \<open>key.data()\<close> and \<open>value.data()\<close> on as \<open>const char *\<close>, so a key or a value is cut at
  its first NUL byte (\<open>c_str\<close>); the views the callers pass are whole, NUL-terminated strings.
  \<open>ConvertToL1SST\<close> is declared in the header and defined in no file of the repository, so it
  is a parameter of the database model.
\<close>

datatype OpType = kDeletion | kAdd | kUpdate

record memtable =
  mt_table :: "(bytes, bytes) skiplist"

abbreviation "str_Insert \<equiv> Insert (length :: bytes \<Rightarrow> nat) (length :: bytes \<Rightarrow> nat)"
abbreviation "str_Delete \<equiv> Delete (length :: bytes \<Rightarrow> nat) (length :: bytes \<Rightarrow> nat)"

type_synonym coins = "nat \<Rightarrow> bool"

definition MemTable :: memtable where
  "MemTable = \<lparr>mt_table = SkipList [] []\<rparr>"

definition MemTable_Insert :: "coins \<Rightarrow> OpType \<Rightarrow> bytes \<Rightarrow> bytes \<Rightarrow> memtable \<Rightarrow> memtable option" where
  "MemTable_Insert coin op_type key value m =
     (case op_type of
        kAdd \<Rightarrow>
          do { t \<leftarrow> str_Insert coin (c_str key) (c_str value) (mt_table m);
               Some (m\<lparr>mt_table := t\<rparr>) }
      | kUpdate \<Rightarrow>
          do { t1 \<leftarrow> str_Delete (c_str key) (mt_table m);
               t2 \<leftarrow> str_Insert coin (c_str key) (c_str value) t1;
               Some (m\<lparr>mt_table := t2\<rparr>) }
      | kDeletion \<Rightarrow>
          do { c \<leftarrow> Contains (mt_table m) (c_str key);
               t1 \<leftarrow> (if c then str_Delete (c_str key) (mt_table m) else Some (mt_table m));
               t2 \<leftarrow> str_Insert coin (c_str key) [] t1;
               Some (m\<lparr>mt_table := t2\<rparr>) })"

definition MemTable_Add :: "coins \<Rightarrow> bytes \<Rightarrow> bytes \<Rightarrow> memtable \<Rightarrow> memtable option" where
  "MemTable_Add coin key value m = MemTable_Insert coin kAdd key value m"

definition MemTable_Update :: "coins \<Rightarrow> bytes \<Rightarrow> bytes \<Rightarrow> memtable \<Rightarrow> memtable option" where
  "MemTable_Update coin key value m = MemTable_Insert coin kUpdate key value m"

definition MemTable_Delete :: "coins \<Rightarrow> bytes \<Rightarrow> memtable \<Rightarrow> memtable option" where
  "MemTable_Delete coin key m = MemTable_Insert coin kDeletion key [] m"

definition MemTable_Contains :: "memtable \<Rightarrow> bytes \<Rightarrow> bool option" where
  "MemTable_Contains m key = Contains (mt_table m) (c_str key)"

definition MemTable_Get :: "memtable \<Rightarrow> bytes \<Rightarrow> bytes option option" where
  "MemTable_Get m key = Get (mt_table m) (c_str key)"

definition MemTable_GetMemUsage :: "memtable \<Rightarrow> int" where
  "MemTable_GetMemUsage m = GetMemUsage (mt_table m)"

definition MemTable_GetSize :: "memtable \<Rightarrow> int" where
  "MemTable_GetSize m = GetSize (mt_table m)"

subsection \<open>The iterator\<close>

record memtable_iterator =
  mi_list :: "(bytes, bytes) skiplist"
  mi_iter :: sl_iterator

definition MemTableIterator :: "(bytes, bytes) skiplist \<Rightarrow> memtable_iterator" where
  "MemTableIterator list = \<lparr>mi_list = list, mi_iter = SkipListIterator\<rparr>"

definition NewIter :: "memtable \<Rightarrow> memtable_iterator" where
  "NewIter m = MemTableIterator (mt_table m)"

definition mi_MoveToFirst :: "memtable_iterator \<Rightarrow> memtable_iterator option" where
  "mi_MoveToFirst i = do { p \<leftarrow> MoveToFirst (mi_list i); Some (i\<lparr>mi_iter := p\<rparr>) }"

definition mi_Next :: "memtable_iterator \<Rightarrow> memtable_iterator option" where
  "mi_Next i = do { p \<leftarrow> Next (mi_list i) (mi_iter i); Some (i\<lparr>mi_iter := p\<rparr>) }"

definition mi_key :: "memtable_iterator \<Rightarrow> bytes option" where
  "mi_key i = iter_key (mi_list i) (mi_iter i)"

definition mi_value :: "memtable_iterator \<Rightarrow> bytes option" where
  "mi_value i = iter_value (mi_list i) (mi_iter i)"

definition mi_Valid :: "memtable_iterator \<Rightarrow> bool" where
  "mi_Valid i \<longleftrightarrow> Valid (mi_iter i)"

text \<open>The loop every client writes: move to the first entry, read and advance while valid.\<close>

partial_function (option) mi_collect ::
  "memtable_iterator \<Rightarrow> (bytes \<times> bytes) list \<Rightarrow> (bytes \<times> bytes) list option" where
  "mi_collect i acc =
     (if mi_Valid i
      then do { k \<leftarrow> mi_key i; v \<leftarrow> mi_value i; j \<leftarrow> mi_Next i; mi_collect j (acc @ [(k, v)]) }
      else Some acc)"

definition mi_entries :: "memtable \<Rightarrow> (bytes \<times> bytes) list option" where
  "mi_entries m = do { i \<leftarrow> mi_MoveToFirst (NewIter m); mi_collect i [] }"

subsection \<open>What the database needs of its write buffer\<close>

text \<open>
  The operations \<open>DBImpl\<close> calls on the active table, over an abstract map. \<open>norm\<close> is what
  becomes of a key or value on its way into the table. The derived lemma is the branch both
  \<open>DBImpl::Put\<close> and \<open>DBImpl::Delete\<close> take: update when present, add when absent.
\<close>

locale write_buffer =
  fixes add :: "'c \<Rightarrow> 'b \<Rightarrow> 'b \<Rightarrow> 'm \<Rightarrow> 'm option"
    and upd :: "'c \<Rightarrow> 'b \<Rightarrow> 'b \<Rightarrow> 'm \<Rightarrow> 'm option"
    and del :: "'c \<Rightarrow> 'b \<Rightarrow> 'm \<Rightarrow> 'm option"
    and has :: "'m \<Rightarrow> 'b \<Rightarrow> bool option"
    and get :: "'m \<Rightarrow> 'b \<Rightarrow> 'b option option"
    and norm :: "'b \<Rightarrow> 'b"
    and tomb :: "'b"
    and abs :: "'m \<Rightarrow> ('b \<Rightarrow> 'b option) \<Rightarrow> bool"
  assumes has_abs: "abs m M \<Longrightarrow> has m k = Some (M (norm k) \<noteq> None)"
    and get_abs: "abs m M \<Longrightarrow> get m k = Some (M (norm k))"
    and add_abs: "abs m M \<Longrightarrow> M (norm k) = None \<Longrightarrow>
                   \<exists>m'. add c k v m = Some m' \<and> abs m' (M(norm k \<mapsto> norm v))"
    and upd_abs: "abs m M \<Longrightarrow> \<exists>m'. upd c k v m = Some m' \<and> abs m' (M(norm k \<mapsto> norm v))"
    and del_abs: "abs m M \<Longrightarrow> \<exists>m'. del c k m = Some m' \<and> abs m' (M(norm k \<mapsto> tomb))"
begin

lemma store:
  assumes "abs m M"
  obtains b m' where "has m k = Some b"
    and "(if b then upd c k v m else add c k v m) = Some m'" and "abs m' (M(norm k \<mapsto> norm v))"
  using has_abs [OF assms, of k] add_abs [OF assms, of k c v] upd_abs [OF assms, of c k v]
  by (cases "M (norm k)") auto

lemma bury:
  assumes "abs m M" and "norm e = tomb"
  obtains b m' where "has m k = Some b"
    and "(if b then del c k m else add c k e m) = Some m'" and "abs m' (M(norm k \<mapsto> tomb))"
  using has_abs [OF assms(1), of k] add_abs [OF assms(1), of k c e] del_abs [OF assms(1), of c k]
    assms(2)
  by (cases "M (norm k)") auto

text \<open>What was stored last is what is read, and every other key is untouched.\<close>

lemma get_after:
  "abs m' (M(norm k \<mapsto> w)) \<Longrightarrow> abs m M \<Longrightarrow>
     get m' j = (if norm j = norm k then Some (Some w) else get m j)"
  by (simp add: get_abs)

end

subsection \<open>The memory table implements it\<close>

definition mt_rep :: "memtable \<Rightarrow> (bytes \<times> bytes) list \<Rightarrow> bool" where
  "mt_rep m kvs \<longleftrightarrow> sl_rep length length (mt_table m) kvs"

definition mt_abs :: "memtable \<Rightarrow> (bytes \<Rightarrow> bytes option) \<Rightarrow> bool" where
  "mt_abs m M \<longleftrightarrow> (\<exists>kvs. mt_rep m kvs \<and> M = map_of kvs)"

lemma mt_rep_MemTable: "mt_rep MemTable []"
  by (simp add: mt_rep_def MemTable_def SkipList_rep)

lemma mt_rep_Add:
  assumes "mt_rep m kvs"
  shows "\<exists>m'. MemTable_Add c k v m = Some m' \<and> mt_rep m' (alist_insert (c_str k) (c_str v) kvs)"
  using sl.put_rep [OF assms [unfolded mt_rep_def], of c "c_str k" "c_str v"]
  by (auto simp: MemTable_Add_def MemTable_Insert_def mt_rep_def)

lemma mt_rep_Update:
  assumes "mt_rep m kvs"
  shows "\<exists>m'. MemTable_Update c k v m = Some m' \<and> mt_rep m' (alist_upsert (c_str k) (c_str v) kvs)"
  by (rule sl.del_put [OF assms [unfolded mt_rep_def], of "c_str k" c "c_str v"])
    (simp add: MemTable_Update_def MemTable_Insert_def mt_rep_def)

lemma mt_rep_Delete:
  assumes "mt_rep m kvs"
  shows "\<exists>m'. MemTable_Delete c k m = Some m' \<and> mt_rep m' (alist_upsert (c_str k) [] kvs)"
proof -
  obtain s1 s2 where s: "str_Delete (c_str k) (mt_table m) = Some s1"
    "str_Insert c (c_str k) [] s1 = Some s2" "sl_rep length length s2 (alist_upsert (c_str k) [] kvs)"
    using sl.del_put [OF assms [unfolded mt_rep_def], of "c_str k" c "[]"] by blast
  have has: "Contains (mt_table m) (c_str k) = Some (map_of kvs (c_str k) \<noteq> None)"
    using assms unfolding mt_rep_def by (rule sl.has_rep)
  moreover from has s(1) have "s1 = mt_table m" if "map_of kvs (c_str k) = None"
    using that by (simp add: Delete_def)
  ultimately show ?thesis
    using s by (auto simp: MemTable_Delete_def MemTable_Insert_def mt_rep_def)
qed

lemma mt_rep_Contains: "mt_rep m kvs \<Longrightarrow> MemTable_Contains m k = Some (map_of kvs (c_str k) \<noteq> None)"
  by (simp add: MemTable_Contains_def mt_rep_def sl.has_rep)

lemma mt_rep_Get: "mt_rep m kvs \<Longrightarrow> MemTable_Get m k = Some (map_of kvs (c_str k))"
  by (simp add: MemTable_Get_def mt_rep_def sl.get_rep)

lemma mt_rep_sorted: "mt_rep m kvs \<Longrightarrow> sorted_wrt (<) (map fst kvs)"
  unfolding mt_rep_def by (rule sl.rep_sorted)

lemma mt_rep_counts:
  assumes "mt_rep m kvs"
  shows "MemTable_GetSize m = int (length kvs)"
    and "MemTable_GetMemUsage m = (\<Sum>(k, v) \<leftarrow> kvs. int (length k) + int (length v))"
  using assms
  by (auto simp: mt_rep_def sl_rep_def sl_counts_def MemTable_GetSize_def GetSize_def
      MemTable_GetMemUsage_def GetMemUsage_def split_def)

interpretation mt: write_buffer MemTable_Add MemTable_Update MemTable_Delete
  MemTable_Contains MemTable_Get c_str "[]" mt_abs
proof unfold_locales
  fix m M k v c
  assume a: "mt_abs m M"
  then show "MemTable_Contains m k = Some (M (c_str k) \<noteq> None)"
    and "MemTable_Get m k = Some (M (c_str k))"
    by (auto simp: mt_abs_def mt_rep_Contains mt_rep_Get)
  show "\<exists>m'. MemTable_Update c k v m = Some m' \<and> mt_abs m' (M(c_str k \<mapsto> c_str v))"
    using a mt_rep_Update unfolding mt_abs_def by (metis map_of_alist_upsert)
  show "\<exists>m'. MemTable_Delete c k m = Some m' \<and> mt_abs m' (M(c_str k \<mapsto> []))"
    using a mt_rep_Delete unfolding mt_abs_def by (metis map_of_alist_upsert)
  assume "M (c_str k) = None"
  then show "\<exists>m'. MemTable_Add c k v m = Some m' \<and> mt_abs m' (M(c_str k \<mapsto> c_str v))"
    using a mt_rep_Add unfolding mt_abs_def by (metis map_of_alist_insert)
qed

lemma mt_abs_MemTable: "mt_abs MemTable Map.empty"
  using mt_rep_MemTable unfolding mt_abs_def by force

subsection \<open>Iteration\<close>

lemma mi_collect_from:
  assumes rep: "sl_rep length length (mi_list i) kvs" and n: "n \<le> length kvs"
    and at: "Next_n (mi_list i) n = Some (mi_iter i)"
  shows "mi_collect i acc = Some (acc @ drop n kvs)"
  using n at rep
proof (induction "length kvs - n" arbitrary: n i acc)
  case 0
  then have "n = length kvs" by simp
  with 0 sl_rep_iterate(2) [of length length "mi_list i" kvs] show ?case
    by (subst mi_collect.simps) (auto simp: mi_Valid_def)
next
  case (Suc d)
  then have lt: "n < length kvs" by simp
  let ?nx = "Next_n (mi_list i) (Suc n)"
  obtain p where p: "?nx = Some p"
    using sl_rep_iterate [OF Suc.prems(3)] lt by (metis Suc_leI le_neq_implies_less)
  let ?j = "i\<lparr>mi_iter := p\<rparr>"
  have "mi_Next i = Some ?j" using p Suc.prems(2) by (simp add: mi_Next_def)
  moreover have "mi_collect ?j (acc @ [kvs ! n]) = Some ((acc @ [kvs ! n]) @ drop (Suc n) kvs)"
    using Suc p lt by (intro Suc.hyps(1)) auto
  moreover have "drop n kvs = kvs ! n # drop (Suc n) kvs"
    using lt by (simp add: Cons_nth_drop_Suc)
  moreover have "mi_Valid i" "mi_key i = Some (fst (kvs ! n))" "mi_value i = Some (snd (kvs ! n))"
    using sl_rep_iterate(1) [OF Suc.prems(3) lt] Suc.prems(2)
    by (auto simp: mi_Valid_def mi_key_def mi_value_def)
  ultimately show ?case by (subst mi_collect.simps) simp
qed

lemma mi_entries_rep:
  assumes "mt_rep m kvs"
  shows "mi_entries m = Some kvs"
proof -
  have rep: "sl_rep length length (mt_table m) kvs" using assms by (simp add: mt_rep_def)
  then obtain p where p: "Next_n (mt_table m) 0 = Some p"
    using sl_rep_iterate by (metis length_greater_0_conv list.size(3))
  then have "mi_collect \<lparr>mi_list = mt_table m, mi_iter = p\<rparr> [] = Some ([] @ drop 0 kvs)"
    using rep by (intro mi_collect_from) auto
  with p show ?thesis
    by (simp add: mi_entries_def NewIter_def MemTableIterator_def mi_MoveToFirst_def)
qed

subsection \<open>Properties\<close>

text \<open>
  Add of a key that the memory table holds already leaves the table as it is: the old value
  stays (the header promises an update in place).
\<close>

theorem memtable_add_keeps:
  assumes "mt_rep m kvs" and "map_of kvs (c_str k) = Some w"
  shows "\<exists>m'. MemTable_Add coin k v m = Some m' \<and> mt_rep m' kvs \<and> MemTable_Get m' k = Some (Some w)"
proof -
  from mt_rep_Add [OF assms(1), of coin k v] assms(2) obtain m' where
    "MemTable_Add coin k v m = Some m'" "mt_rep m' kvs" by (auto simp: alist_insert_present)
  with assms(2) show ?thesis by (simp add: mt_rep_Get)
qed

theorem memtable_add_keeps_witness:
  "\<exists>m m'. MemTable_Add (\<lambda>_. True) [1] [2] MemTable = Some m \<and>
     MemTable_Add (\<lambda>_. True) [1] [3] m = Some m' \<and> MemTable_Get m' [1] = Some (Some [2])"
proof -
  obtain m where m: "MemTable_Add (\<lambda>_. True) [1] [2] MemTable = Some m" "mt_rep m [([1], [2])]"
    using mt_rep_Add [OF mt_rep_MemTable, of "\<lambda>_. True" "[1]" "[2]"]
    by (auto simp: c_str_def alist_insert_def)
  have "map_of [([1], [2])] (c_str [1]) = Some [2]" by (simp add: c_str_def)
  from memtable_add_keeps [OF m(2) this, of "\<lambda>_. True" "[3]"] m(1) show ?thesis by blast
qed

text \<open>
  C23: Update and Delete of the memory table act on the sorted list of entries as replacing
  the entry of the key by the value, respectively by the empty value, whatever tosses the skip
  list draws.
\<close>

theorem memtable_write_refines:
  assumes "mt_rep m kvs"
  shows "(\<exists>m'. MemTable_Update coin k v m = Some m' \<and> mt_rep m' (alist_upsert (c_str k) (c_str v) kvs)) \<and>
         (\<exists>m'. MemTable_Delete coin k m = Some m' \<and> mt_rep m' (alist_upsert (c_str k) [] kvs))"
  using mt_rep_Update [OF assms] mt_rep_Delete [OF assms] by blast

theorem memtable_write_refines_witness:
  "(\<exists>m'. MemTable_Update (\<lambda>_. True) [1] [2] MemTable = Some m' \<and> mt_rep m' [([1], [2])]) \<and>
   (\<exists>m'. MemTable_Delete (\<lambda>_. True) [1] MemTable = Some m' \<and> mt_rep m' [([1], [])])"
  using memtable_write_refines [OF mt_rep_MemTable, of "\<lambda>_. True" "[1]" "[2]"]
  by (simp add: c_str_def alist_upsert_def alist_insert_def alist_delete_def)

text \<open>
  C24: Reading a memory table through its iterator, from MoveToFirst while Valid, ends and
  yields every entry once, in ascending order of the keys; GetSize and GetMemUsage are the
  number of entries and the bytes of keys and values.
\<close>

theorem memtable_iterates:
  assumes "mt_rep m kvs"
  shows "mi_entries m = Some kvs \<and> sorted_wrt (<) (map fst kvs) \<and> MemTable_GetSize m = int (length kvs) \<and>
         MemTable_GetMemUsage m = (\<Sum>(k, v) \<leftarrow> kvs. int (length k) + int (length v))"
  using mi_entries_rep [OF assms] mt_rep_sorted [OF assms] mt_rep_counts [OF assms] by simp

theorem memtable_iterates_witness:
  "\<exists>m1 m2. MemTable_Add (\<lambda>_. True) [2] [7, 8] MemTable = Some m1 \<and> MemTable_Add (\<lambda>_. False) [1] [9] m1 = Some m2 \<and>
     mi_entries m2 = Some [([1], [9]), ([2], [7, 8])] \<and> MemTable_GetMemUsage m2 = 5"
proof -
  obtain m1 where m1: "MemTable_Add (\<lambda>_. True) [2] [7, 8] MemTable = Some m1" "mt_rep m1 [([2], [7, 8])]"
    using mt_rep_Add [OF mt_rep_MemTable, of "\<lambda>_. True" "[2]" "[7, 8]"]
    by (auto simp: c_str_def alist_insert_def)
  obtain m2 where m2: "MemTable_Add (\<lambda>_. False) [1] [9] m1 = Some m2" "mt_rep m2 [([1], [9]), ([2], [7, 8])]"
    using mt_rep_Add [OF m1(2), of "\<lambda>_. False" "[1]" "[9]"] by (auto simp: c_str_def alist_insert_def)
  from memtable_iterates [OF m2(2)] m1(1) m2(1) show ?thesis by simp
qed

end
