(* ===== verification/Lru_Cache.thy ===== *)
theory Lru_Cache
  imports Ordered_Table
begin

section \<open>The LRU cache\<close>

text \<open>
  \<open>LRU<K, V, LockType>\<close> of \<open>src/cache/lru.h\<close> and \<open>Node<K, V>\<close> of \<open>node.h\<close>, over an explicit
  heap of nodes. A \<open>Node *\<close> is an address. A node pointer stands in the list \<open>nodes\<close> at most
  once, so an iterator into the list is named by the pointer it yields. \<open>V *\<close> is the opaque
  value \<open>'v\<close>; the calls of the clean handle are recorded in \<open>destroyed\<close> in their order.
  \<open>delete node\<close> removes the address from the heap, so a later use of it is
  \<open>Undefined_Behaviour\<close>. Each operation runs under its \<open>ScopedLock\<close> and is one atomic step
  (the theory \<open>Locks\<close> is about the lock itself). \<open>hash_fn\<close> is \<open>std::hash<K>\<close> and \<open>now\<close> the
  value of \<open>time(0)\<close>.
\<close>

type_synonym naddr = nat

record ('k, 'v) cache_node =
  ckey :: 'k
  cval :: 'v
  ref_cnt :: int
  hash_val :: u32
  in_cache :: bool
  last_access_time :: u64

record ('k, 'v) lru =
  cap :: nat
  lheap :: "naddr \<rightharpoonup> ('k, 'v) cache_node"
  lbrk :: naddr
  nodes :: "naddr list"
  index :: "'k \<rightharpoonup> naddr"
  garbage_station :: "'k \<rightharpoonup> naddr"
  clean_handle :: bool
  destroyed :: "('k \<times> 'v) list"

definition node_at :: "('k, 'v) lru \<Rightarrow> naddr \<Rightarrow> ('k, 'v) cache_node res" where
  "node_at s a = option_res Undefined_Behaviour (lheap s a)"

definition unref :: "naddr option \<Rightarrow> ('k, 'v) lru \<Rightarrow> ('k, 'v) lru res" where
  "unref node s =
     (case node of None \<Rightarrow> Inr s
      | Some a \<Rightarrow>
          bind_res (node_at s a) (\<lambda>n.
            let r = ref_cnt n - 1 in
            if r \<le> 0 then
              if clean_handle s then
                Inr (s\<lparr>destroyed := destroyed s @ [(ckey n, cval n)],
                       garbage_station := (garbage_station s)(ckey n := None),
                       lheap := (lheap s)(a := None)\<rparr>)
              else Inl Exception_Thrown
            else Inr (s\<lparr>lheap := (lheap s)(a \<mapsto> n\<lparr>ref_cnt := r\<rparr>)\<rparr>)))"

definition ref :: "naddr option \<Rightarrow> ('k, 'v) lru \<Rightarrow> ('k, 'v) lru res" where
  "ref node s =
     (case node of None \<Rightarrow> Inr s
      | Some a \<Rightarrow>
          bind_res (node_at s a) (\<lambda>n.
            Inr (s\<lparr>lheap := (lheap s)(a \<mapsto> n\<lparr>ref_cnt := ref_cnt n + 1\<rparr>)\<rparr>)))"

text \<open>\<open>nodes.erase\<close> and \<open>nodes.splice\<close> to the front; an iterator not of the list is undefined.\<close>

definition list_erase :: "naddr option \<Rightarrow> naddr list \<Rightarrow> naddr list res" where
  "list_erase it xs =
     (case it of None \<Rightarrow> Inl Undefined_Behaviour
      | Some a \<Rightarrow> if a \<in> set xs then Inr (remove1 a xs) else Inl Undefined_Behaviour)"

definition splice_front :: "naddr option \<Rightarrow> naddr list \<Rightarrow> naddr list res" where
  "splice_front it xs =
     (case it of None \<Rightarrow> Inl Undefined_Behaviour
      | Some a \<Rightarrow> if a \<in> set xs then Inr (a # remove1 a xs) else Inl Undefined_Behaviour)"

definition phantom_erase_node :: "naddr option \<Rightarrow> ('k, 'v) lru \<Rightarrow> ('k, 'v) lru res" where
  "phantom_erase_node node s =
     (case node of None \<Rightarrow> Inr s
      | Some a \<Rightarrow>
          bind_res (node_at s a) (\<lambda>n.
          bind_res (list_erase (index s (ckey n)) (nodes s)) (\<lambda>xs.
            unref (Some a)
              (s\<lparr>lheap := (lheap s)(a \<mapsto> n\<lparr>in_cache := False\<rparr>),
                 nodes := xs,
                 index := (index s)(ckey n := None),
                 garbage_station := (garbage_station s)(ckey n \<mapsto> a)\<rparr>))))"

definition LRU :: "nat \<Rightarrow> ('k, 'v) lru" where
  "LRU c = \<lparr>cap = c, lheap = Map.empty, lbrk = 0, nodes = [], index = Map.empty,
            garbage_station = Map.empty, clean_handle = False, destroyed = []\<rparr>"

definition lru_insert :: "('k \<Rightarrow> u64) \<Rightarrow> u64 \<Rightarrow> 'k \<Rightarrow> 'v \<Rightarrow> ('k, 'v) lru \<Rightarrow> ('k, 'v) lru res" where
  "lru_insert hash_fn now key val s =
     (let new_node = lbrk s;
          s1 = s\<lparr>lheap := (lheap s)(new_node \<mapsto>
                   \<lparr>ckey = key, cval = val, ref_cnt = 1, hash_val = ucast (hash_fn key),
                    in_cache = True, last_access_time = now\<rparr>),
                 lbrk := Suc new_node\<rparr>
      in if index s key = None then
           let s2 = s1\<lparr>nodes := new_node # nodes s, index := (index s)(key \<mapsto> new_node)\<rparr>
           in if length (nodes s2) > cap s then phantom_erase_node (Some (last (nodes s2))) s2
              else Inr s2
         else
           bind_res (splice_front (index s key) (nodes s)) (\<lambda>xs.
             Inr (s1\<lparr>nodes := xs, index := (index s)(key \<mapsto> hd xs)\<rparr>)))"

definition lru_erase :: "'k \<Rightarrow> ('k, 'v) lru \<Rightarrow> ('k, 'v) lru res" where
  "lru_erase key s =
     (case index s key of None \<Rightarrow> Inr s | Some it \<Rightarrow> phantom_erase_node (Some it) s)"

definition lru_get :: "'k \<Rightarrow> ('k, 'v) lru \<Rightarrow> (naddr option \<times> ('k, 'v) lru) res" where
  "lru_get key s =
     (case index s key of None \<Rightarrow> Inr (None, s)
      | Some it \<Rightarrow>
          bind_res (splice_front (Some it) (nodes s)) (\<lambda>xs.
          bind_res (ref (Some it) (s\<lparr>nodes := xs, index := (index s)(key \<mapsto> hd xs)\<rparr>)) (\<lambda>s'.
            Inr (Some it, s'))))"

definition lru_contains :: "'k \<Rightarrow> ('k, 'v) lru \<Rightarrow> bool" where
  "lru_contains key s \<longleftrightarrow> index s key \<noteq> None"

definition lru_release :: "'k \<Rightarrow> ('k, 'v) lru \<Rightarrow> ('k, 'v) lru res" where
  "lru_release key s =
     (case index s key of None \<Rightarrow> Inl Undefined_Behaviour | Some it \<Rightarrow> unref (Some it) s)"

definition lru_register_clean_handle :: "('k, 'v) lru \<Rightarrow> ('k, 'v) lru" where
  "lru_register_clean_handle s = s\<lparr>clean_handle := True\<rparr>"

text \<open>\<open>*(node->val)\<close> through a pointer that \<open>get\<close> returned.\<close>

definition node_val :: "('k, 'v) lru \<Rightarrow> naddr \<Rightarrow> 'v res" where
  "node_val s a = bind_res (node_at s a) (\<lambda>n. Inr (cval n))"

subsection \<open>What a cache policy promises\<close>

text \<open>
  A cache is a list of entries, most recently used first. \<open>touch\<close> moves an entry to the
  front; \<open>remember\<close> is the effect of \<open>insert\<close>: a present key is only touched (its value
  stays), a new one comes first and the least recently used entry beyond the capacity goes.
\<close>

definition touch :: "'k \<Rightarrow> ('k \<times> 'v) list \<Rightarrow> ('k \<times> 'v) list" where
  "touch k l = (case map_of l k of None \<Rightarrow> l | Some v \<Rightarrow> (k, v) # alist_delete k l)"

definition remember :: "nat \<Rightarrow> 'k \<Rightarrow> 'v \<Rightarrow> ('k \<times> 'v) list \<Rightarrow> ('k \<times> 'v) list" where
  "remember c k v l = (if map_of l k = None then take c ((k, v) # l) else touch k l)"

lemma map_of_touch [simp]: "map_of (touch k l) = map_of l"
  by (auto simp: touch_def fun_eq_iff split: option.split)

lemma map_of_remember_present: "map_of l k = Some w \<Longrightarrow> map_of (remember c k v l) k = Some w"
  by (simp add: remember_def)

lemma map_of_remember_new:
  "map_of l k = None \<Longrightarrow> 0 < c \<Longrightarrow> map_of (remember c k v l) k = Some v"
  by (cases c) (simp_all add: remember_def)

lemma map_of_take: "map_of (take n l) j = Some w \<Longrightarrow> map_of l j = Some w"
  by (metis append_take_drop_id map_add_Some_iff map_of_append)

lemma map_of_remember_other:
  "j \<noteq> k \<Longrightarrow> map_of (remember c k v l) j = Some w \<Longrightarrow> map_of l j = Some w"
  by (auto simp: remember_def split: if_splits dest: map_of_take)

locale cache_policy =
  fixes ins :: "'c \<Rightarrow> 'k \<Rightarrow> 'v \<Rightarrow> 's \<Rightarrow> 's res"
    and era :: "'k \<Rightarrow> 's \<Rightarrow> 's res"
    and get :: "'k \<Rightarrow> 's \<Rightarrow> ('a option \<times> 's) res"
    and con :: "'k \<Rightarrow> 's \<Rightarrow> bool"
    and val :: "'s \<Rightarrow> 'a \<Rightarrow> 'v res"
    and room :: "'s \<Rightarrow> nat"
    and rep :: "'s \<Rightarrow> ('k \<times> 'v) list \<Rightarrow> bool"
  assumes rep_fits: "rep s l \<Longrightarrow> length l \<le> room s"
    and rep_distinct: "rep s l \<Longrightarrow> distinct (map fst l)"
    and con_rep: "rep s l \<Longrightarrow> con k s \<longleftrightarrow> map_of l k \<noteq> None"
    and ins_rep: "rep s l \<Longrightarrow>
          \<exists>s'. ins c k v s = Inr s' \<and> rep s' (remember (room s) k v l) \<and> room s' = room s"
    and era_rep: "rep s l \<Longrightarrow> \<exists>s'. era k s = Inr s' \<and> rep s' (alist_delete k l) \<and> room s' = room s"
    and get_miss: "rep s l \<Longrightarrow> map_of l k = None \<Longrightarrow> get k s = Inr (None, s)"
    and get_hit: "rep s l \<Longrightarrow> map_of l k = Some v \<Longrightarrow>
          \<exists>a s'. get k s = Inr (Some a, s') \<and> val s' a = Inr v \<and> rep s' (touch k l) \<and> room s' = room s"
begin

lemma stale_hit:
  assumes "rep s l" and "map_of l k = Some w" and "ins c k v s = Inr s'"
  obtains a s'' where "get k s' = Inr (Some a, s'')" and "val s'' a = Inr w"
  using ins_rep [OF assms(1), of c k v] get_hit map_of_remember_present [OF assms(2)] assms(3)
  by (metis sum.inject(2))

lemma fresh_hit:
  assumes "rep s l" and "map_of l k = None" and "0 < room s" and "ins c k v s = Inr s'"
  obtains a s'' where "get k s' = Inr (Some a, s'')" and "val s'' a = Inr v"
  using ins_rep [OF assms(1), of c k v] get_hit map_of_remember_new [OF assms(2,3)] assms(4)
  by (metis sum.inject(2))

lemma miss_after_erase:
  assumes "rep s l" and "era k s = Inr s'"
  shows "get k s' = Inr (None, s')" and "\<not> con k s'"
  using era_rep [OF assms(1), of k] assms(2) get_miss con_rep by (metis map_of_alist_delete fun_upd_same sum.inject(2))+

text \<open>A bank of caches: an operation on one of them is an operation on its entries.\<close>

lemma bank_insert:
  assumes "list_all2 rep ss ls" and "i < length ss"
  shows "\<exists>s'. ins c k v (ss ! i) = Inr s' \<and>
           list_all2 rep (ss[i := s']) (ls[i := remember (room (ss ! i)) k v (ls ! i)]) \<and>
           map room (ss[i := s']) = map room ss"
proof -
  from assms have "rep (ss ! i) (ls ! i)" by (simp add: list_all2_nthD)
  from ins_rep [OF this, of c k v] obtain s' where "ins c k v (ss ! i) = Inr s'"
    "rep s' (remember (room (ss ! i)) k v (ls ! i))" "room s' = room (ss ! i)" by blast
  with assms show ?thesis
    by (auto simp: list_all2_update_cong map_update intro: list_update_same_conv [THEN iffD2])
qed

lemma bank_erase:
  assumes "list_all2 rep ss ls" and "i < length ss"
  shows "\<exists>s'. era k (ss ! i) = Inr s' \<and> list_all2 rep (ss[i := s']) (ls[i := alist_delete k (ls ! i)]) \<and>
           map room (ss[i := s']) = map room ss"
proof -
  from assms have "rep (ss ! i) (ls ! i)" by (simp add: list_all2_nthD)
  from era_rep [OF this, of k] obtain s' where "era k (ss ! i) = Inr s'"
    "rep s' (alist_delete k (ls ! i))" "room s' = room (ss ! i)" by blast
  with assms show ?thesis
    by (auto simp: list_all2_update_cong map_update intro: list_update_same_conv [THEN iffD2])
qed

lemma bank_get:
  assumes "list_all2 rep ss ls" and "i < length ss" and "map_of (ls ! i) k = Some v"
  shows "\<exists>a s'. get k (ss ! i) = Inr (Some a, s') \<and> val s' a = Inr v \<and>
           list_all2 rep (ss[i := s']) (ls[i := touch k (ls ! i)]) \<and>
           map room (ss[i := s']) = map room ss"
proof -
  from assms have "rep (ss ! i) (ls ! i)" by (simp add: list_all2_nthD)
  from get_hit [OF this assms(3)] obtain a s' where "get k (ss ! i) = Inr (Some a, s')"
    "val s' a = Inr v" "rep s' (touch k (ls ! i))" "room s' = room (ss ! i)" by blast
  with assms show ?thesis
    by (auto simp: list_all2_update_cong map_update intro: list_update_same_conv [THEN iffD2])
qed

end

end
