(* ===== verification/Lru_Correct.thy ===== *)
theory Lru_Correct
  imports Lru_Cache
begin

section \<open>Correctness of the LRU cache\<close>

text \<open>
  The invariant \<open>lru_ok\<close> ties the list, the index and the garbage station to the heap; every
  operation preserves it and acts on the list of entries as \<open>remember\<close>, \<open>touch\<close> and
  \<open>alist_delete\<close> say. The interpretation at the end makes \<open>LRU\<close> a \<open>cache_policy\<close>. The last
  section is about reference counts: when an entry leaves the cache, its node is destroyed
  at once if nobody holds it, and otherwise stays readable.
\<close>

definition ckey_of :: "('k, 'v) lru \<Rightarrow> naddr \<Rightarrow> 'k" where
  "ckey_of s a = ckey (the (lheap s a))"

definition cval_of :: "('k, 'v) lru \<Rightarrow> naddr \<Rightarrow> 'v" where
  "cval_of s a = cval (the (lheap s a))"

definition entries :: "('k, 'v) lru \<Rightarrow> ('k \<times> 'v) list" where
  "entries s = map (\<lambda>a. (ckey_of s a, cval_of s a)) (nodes s)"

definition lru_linked :: "('k, 'v) lru \<Rightarrow> bool" where
  "lru_linked s \<longleftrightarrow>
     distinct (nodes s) \<and> clean_handle s \<and>
     (\<forall>a \<in> set (nodes s). \<exists>n. lheap s a = Some n \<and> 1 \<le> ref_cnt n \<and> in_cache n \<and>
        index s (ckey n) = Some a) \<and>
     (\<forall>k a. index s k = Some a \<longrightarrow> a \<in> set (nodes s) \<and> (\<exists>n. lheap s a = Some n \<and> ckey n = k)) \<and>
     (\<forall>k a. garbage_station s k = Some a \<longrightarrow>
        (\<exists>n. lheap s a = Some n \<and> ckey n = k \<and> \<not> in_cache n \<and> 1 \<le> ref_cnt n)) \<and>
     (\<forall>a. lbrk s \<le> a \<longrightarrow> lheap s a = None)"

definition lru_ok :: "('k, 'v) lru \<Rightarrow> bool" where
  "lru_ok s \<longleftrightarrow> lru_linked s \<and> length (nodes s) \<le> cap s"

definition lru_rep :: "('k, 'v) lru \<Rightarrow> ('k \<times> 'v) list \<Rightarrow> bool" where
  "lru_rep s l \<longleftrightarrow> lru_ok s \<and> l = entries s"

subsection \<open>The index and the entries\<close>

lemma linked_node:
  assumes "lru_linked s" and "a \<in> set (nodes s)"
  obtains n where "lheap s a = Some n" and "1 \<le> ref_cnt n" and "in_cache n"
    and "index s (ckey n) = Some a" and "ckey_of s a = ckey n" and "cval_of s a = cval n"
  using assms unfolding lru_linked_def ckey_of_def cval_of_def by force

lemma linked_index:
  assumes "lru_linked s" and "index s k = Some a"
  shows "a \<in> set (nodes s)" and "ckey_of s a = k"
  using assms unfolding lru_linked_def ckey_of_def by force+

lemma ckey_of_inj:
  assumes "lru_linked s" and "a \<in> set (nodes s)" and "b \<in> set (nodes s)" and "ckey_of s a = ckey_of s b"
  shows "a = b"
proof -
  have ix: "index s (ckey_of s c) = Some c" if "c \<in> set (nodes s)" for c
    by (rule linked_node [OF assms(1) that]) simp
  from ix [OF assms(2)] ix [OF assms(3)] show ?thesis unfolding assms(4) by simp
qed

lemma entries_distinct:
  assumes "lru_linked s"
  shows "distinct (map fst (entries s))"
proof -
  have "inj_on (ckey_of s) (set (nodes s))"
    by (intro inj_onI) (rule ckey_of_inj [OF assms])
  moreover have "distinct (nodes s)" using assms by (simp add: lru_linked_def)
  ultimately show ?thesis by (simp add: entries_def distinct_map comp_def)
qed

lemma entries_index:
  assumes "lru_linked s"
  shows "map_of (entries s) k = map_option (cval_of s) (index s k)"
proof (cases "index s k")
  case None
  have "ckey_of s a \<noteq> k" if "a \<in> set (nodes s)" for a
    by (rule linked_node [OF assms that]) (use None in auto)
  then have "k \<notin> ckey_of s ` set (nodes s)" by blast
  then have "k \<notin> fst ` set (entries s)" by (simp add: entries_def image_comp comp_def)
  then have "map_of (entries s) k = None" by (simp add: map_of_eq_None_iff)
  with None show ?thesis by simp
next
  case (Some a)
  then have "a \<in> set (nodes s)" "ckey_of s a = k" using linked_index [OF assms] by blast+
  then have "(k, cval_of s a) \<in> set (entries s)" by (auto simp: entries_def)
  with entries_distinct [OF assms] have "map_of (entries s) k = Some (cval_of s a)"
    by (rule map_of_is_SomeI)
  with Some show ?thesis by simp
qed

lemma alist_delete_entries:
  assumes "lru_linked s" and "a \<in> set (nodes s)"
  shows "map (\<lambda>b. (ckey_of s b, cval_of s b)) (remove1 a (nodes s)) = alist_delete (ckey_of s a) (entries s)"
proof -
  have "distinct (nodes s)" using assms(1) by (simp add: lru_linked_def)
  then have "remove1 a (nodes s) = filter (\<lambda>b. b \<noteq> a) (nodes s)" by (rule distinct_remove1_removeAll [unfolded removeAll_filter_not_eq, simplified eq_commute])
  also have "\<dots> = filter (\<lambda>b. ckey_of s b \<noteq> ckey_of s a) (nodes s)"
    using ckey_of_inj [OF assms(1)] assms(2) by (intro filter_cong) auto
  finally show ?thesis by (simp add: entries_def alist_delete_def filter_map comp_def)
qed

subsection \<open>Leaving the cache\<close>

lemma phantom_erase_linked:
  assumes inv: "lru_linked s" and a: "a \<in> set (nodes s)"
  obtains s' where "phantom_erase_node (Some a) s = Inr s'" and "lru_linked s'"
    and "nodes s' = remove1 a (nodes s)" and "cap s' = cap s"
    and "entries s' = alist_delete (ckey_of s a) (entries s)"
proof -
  obtain n where n: "lheap s a = Some n" "1 \<le> ref_cnt n" "index s (ckey n) = Some a"
    "ckey_of s a = ckey n"
    by (rule linked_node [OF inv a]) blast
  have dist: "distinct (nodes s)" and ch: "clean_handle s"
    and on: "\<And>b. b \<in> set (nodes s) \<Longrightarrow>
      \<exists>m. lheap s b = Some m \<and> 1 \<le> ref_cnt m \<and> in_cache m \<and> index s (ckey m) = Some b"
    and ix: "\<And>k b. index s k = Some b \<Longrightarrow> b \<in> set (nodes s) \<and> (\<exists>m. lheap s b = Some m \<and> ckey m = k)"
    and ga: "\<And>k b. garbage_station s k = Some b \<Longrightarrow>
      \<exists>m. lheap s b = Some m \<and> ckey m = k \<and> \<not> in_cache m \<and> 1 \<le> ref_cnt m"
    and br: "\<And>b. lbrk s \<le> b \<Longrightarrow> lheap s b = None"
    using inv by (auto simp: lru_linked_def)
  let ?free = "ref_cnt n - 1 \<le> 0"
  let ?new = "if ?free then None else Some (n\<lparr>in_cache := False, ref_cnt := ref_cnt n - 1\<rparr>)"
  let ?s = "s\<lparr>lheap := (lheap s)(a := ?new), nodes := remove1 a (nodes s),
      index := (index s)(ckey n := None),
      garbage_station := (garbage_station s)(ckey n := (if ?free then None else Some a)),
      destroyed := destroyed s @ (if ?free then [(ckey n, cval n)] else [])\<rparr>"
  have run: "phantom_erase_node (Some a) s = Inr ?s"
    using n(1,3) a ch by (simp add: phantom_erase_node_def node_at_def list_erase_def unref_def Let_def)
  have out: "in_cache n" using on [OF a] n(1) by auto
  have set: "set (remove1 a (nodes s)) = set (nodes s) - {a}" using dist by simp
  have "lru_linked ?s"
    unfolding lru_linked_def
  proof (intro conjI ballI allI impI)
    fix b assume b: "b \<in> set (nodes ?s)"
    then have "b \<noteq> a" "b \<in> set (nodes s)" using set by auto
    from on [OF this(2)] obtain m where m: "lheap s b = Some m" "1 \<le> ref_cnt m" "in_cache m"
      "index s (ckey m) = Some b" by blast
    with \<open>b \<noteq> a\<close> n(3) have "ckey m \<noteq> ckey n" by auto
    with m \<open>b \<noteq> a\<close> show "\<exists>m. lheap ?s b = Some m \<and> 1 \<le> ref_cnt m \<and> in_cache m \<and>
        index ?s (ckey m) = Some b" by simp
  next
    fix k b assume "index ?s k = Some b"
    then have k: "k \<noteq> ckey n" "index s k = Some b" by (auto split: if_splits)
    with ix [OF k(2)] n(1) have "b \<noteq> a" "b \<in> set (nodes s)" by auto
    then show "b \<in> set (nodes ?s)" using set by auto
    from \<open>b \<noteq> a\<close> ix [OF k(2)] show "\<exists>m. lheap ?s b = Some m \<and> ckey m = k" by auto
  next
    fix k b assume g: "garbage_station ?s k = Some b"
    show "\<exists>m. lheap ?s b = Some m \<and> ckey m = k \<and> \<not> in_cache m \<and> 1 \<le> ref_cnt m"
    proof (cases "k = ckey n")
      case True
      with g show ?thesis by (auto split: if_splits)
    next
      case False
      with g have "garbage_station s k = Some b" by simp
      from ga [OF this] have "b \<noteq> a" using out n(1) by auto
      with ga [OF \<open>garbage_station s k = Some b\<close>] show ?thesis by simp
    qed
  next
    fix b assume b: "lbrk ?s \<le> b"
    then have "lheap s b = None" using br by simp
    moreover from this n(1) have "b \<noteq> a" by auto
    ultimately show "lheap ?s b = None" by simp
  qed (use dist ch in simp_all)
  moreover have "entries ?s = map (\<lambda>b. (ckey_of s b, cval_of s b)) (remove1 a (nodes s))"
    using set by (auto simp: entries_def ckey_of_def cval_of_def)
  ultimately show thesis
    using that run alist_delete_entries [OF inv a] by simp
qed

subsection \<open>The steps of an operation\<close>

lemma ref_linked:
  assumes inv: "lru_linked s" and n: "lheap s a = Some n"
  shows "lru_linked (s\<lparr>lheap := (lheap s)(a \<mapsto> n\<lparr>ref_cnt := ref_cnt n + 1\<rparr>)\<rparr>)" (is "lru_linked ?s")
    and "entries (s\<lparr>lheap := (lheap s)(a \<mapsto> n\<lparr>ref_cnt := ref_cnt n + 1\<rparr>)\<rparr>) = entries s"
proof -
  have node: "\<exists>m'. lheap ?s b = Some m' \<and> ckey m' = ckey m \<and> in_cache m' = in_cache m \<and> ref_cnt m \<le> ref_cnt m'"
    if "lheap s b = Some m" for b m
    using that n by auto
  show "lru_linked ?s"
    unfolding lru_linked_def
  proof (intro conjI ballI allI impI)
    fix b assume "b \<in> set (nodes ?s)"
    then have "b \<in> set (nodes s)" by simp
    then obtain m where m: "lheap s b = Some m" "1 \<le> ref_cnt m" "in_cache m" "index s (ckey m) = Some b"
      by (rule linked_node [OF inv])
    from node [OF m(1)] obtain m' where "lheap ?s b = Some m'" "ckey m' = ckey m"
      "in_cache m' = in_cache m" "ref_cnt m \<le> ref_cnt m'" by blast
    with m show "\<exists>m. lheap ?s b = Some m \<and> 1 \<le> ref_cnt m \<and> in_cache m \<and> index ?s (ckey m) = Some b"
      by (intro exI [of _ m']) simp
  next
    fix k b assume "garbage_station ?s k = Some b"
    then obtain m where m: "lheap s b = Some m" "ckey m = k" "\<not> in_cache m" "1 \<le> ref_cnt m"
      using inv unfolding lru_linked_def by force
    from node [OF m(1)] obtain m' where "lheap ?s b = Some m'" "ckey m' = ckey m"
      "in_cache m' = in_cache m" "ref_cnt m \<le> ref_cnt m'" by blast
    with m show "\<exists>m. lheap ?s b = Some m \<and> ckey m = k \<and> \<not> in_cache m \<and> 1 \<le> ref_cnt m"
      by (intro exI [of _ m']) simp
  next
    fix k b assume "index ?s k = Some b"
    then obtain m where m: "b \<in> set (nodes s)" "lheap s b = Some m" "ckey m = k"
      using inv unfolding lru_linked_def by force
    then show "b \<in> set (nodes ?s)" by simp
    from node [OF m(2)] m(3) show "\<exists>m. lheap ?s b = Some m \<and> ckey m = k" by blast
  next
    fix b assume b: "lbrk ?s \<le> b"
    then have "lheap s b = None" using inv by (simp add: lru_linked_def)
    with n have "b \<noteq> a" by auto
    with \<open>lheap s b = None\<close> show "lheap ?s b = None" by simp
  qed (use inv in \<open>simp_all add: lru_linked_def\<close>)
  show "entries ?s = entries s"
    using n by (auto simp: entries_def ckey_of_def cval_of_def)
qed

lemma splice_linked:
  assumes inv: "lru_linked s" and a: "a \<in> set (nodes s)"
  shows "lru_linked (s\<lparr>nodes := a # remove1 a (nodes s)\<rparr>)"
    and "entries (s\<lparr>nodes := a # remove1 a (nodes s)\<rparr>) = touch (ckey_of s a) (entries s)"
proof -
  have dist: "distinct (nodes s)" using inv by (simp add: lru_linked_def)
  have set: "set (a # remove1 a (nodes s)) = set (nodes s)" using dist a by auto
  have "distinct (a # remove1 a (nodes s))" using dist by simp
  with inv set show "lru_linked (s\<lparr>nodes := a # remove1 a (nodes s)\<rparr>)"
    by (simp add: lru_linked_def)
  have "index s (ckey_of s a) = Some a" by (rule linked_node [OF inv a]) simp
  then have "touch (ckey_of s a) (entries s)
      = (ckey_of s a, cval_of s a) # alist_delete (ckey_of s a) (entries s)"
    by (simp add: touch_def entries_index [OF inv])
  also have "\<dots> = entries (s\<lparr>nodes := a # remove1 a (nodes s)\<rparr>)"
    unfolding alist_delete_entries [OF inv a, symmetric]
    by (simp add: entries_def ckey_of_def cval_of_def)
  finally show "entries (s\<lparr>nodes := a # remove1 a (nodes s)\<rparr>) = touch (ckey_of s a) (entries s)" ..
qed

lemma linked_below_brk: "lru_linked s \<Longrightarrow> a \<in> set (nodes s) \<Longrightarrow> a \<noteq> lbrk s"
  by (rule linked_node [of s a]) (auto simp: lru_linked_def)

lemma alloc_linked:
  assumes inv: "lru_linked s"
  shows "lru_linked (s\<lparr>lheap := (lheap s)(lbrk s \<mapsto> m), lbrk := Suc (lbrk s)\<rparr>)" (is "lru_linked ?s")
    and "entries (s\<lparr>lheap := (lheap s)(lbrk s \<mapsto> m), lbrk := Suc (lbrk s)\<rparr>) = entries s"
proof -
  have fresh: "lheap s (lbrk s) = None" using inv by (simp add: lru_linked_def)
  have node: "lheap ?s b = lheap s b" if "lheap s b \<noteq> None" for b using that fresh by auto
  show "lru_linked ?s"
    unfolding lru_linked_def
  proof (intro conjI ballI allI impI)
    fix b assume "b \<in> set (nodes ?s)"
    then have "b \<in> set (nodes s)" by simp
    then obtain n where n: "lheap s b = Some n" "1 \<le> ref_cnt n" "in_cache n" "index s (ckey n) = Some b"
      by (rule linked_node [OF inv])
    with node [of b] show "\<exists>n. lheap ?s b = Some n \<and> 1 \<le> ref_cnt n \<and> in_cache n \<and> index ?s (ckey n) = Some b"
      by (intro exI [of _ n]) simp
  next
    fix k b assume "garbage_station ?s k = Some b"
    then obtain n where n: "lheap s b = Some n" "ckey n = k" "\<not> in_cache n" "1 \<le> ref_cnt n"
      using inv unfolding lru_linked_def by force
    with node [of b] show "\<exists>n. lheap ?s b = Some n \<and> ckey n = k \<and> \<not> in_cache n \<and> 1 \<le> ref_cnt n"
      by (intro exI [of _ n]) simp
  next
    fix k b assume "index ?s k = Some b"
    then obtain n where n: "b \<in> set (nodes s)" "lheap s b = Some n" "ckey n = k"
      using inv unfolding lru_linked_def by force
    then show "b \<in> set (nodes ?s)" by simp
    from node [of b] n show "\<exists>n. lheap ?s b = Some n \<and> ckey n = k" by (intro exI [of _ n]) simp
  qed (use inv in \<open>simp_all add: lru_linked_def\<close>)
  show "entries ?s = entries s"
    using linked_below_brk [OF inv] by (auto simp: entries_def ckey_of_def cval_of_def)
qed

lemma push_linked:
  assumes inv: "lru_linked s" and k: "index s k = None"
    and a: "lheap s a = Some n" "ckey n = k" "ref_cnt n = 1" "in_cache n"
  shows "lru_linked (s\<lparr>nodes := a # nodes s, index := (index s)(k \<mapsto> a)\<rparr>)" (is "lru_linked ?s")
    and "entries (s\<lparr>nodes := a # nodes s, index := (index s)(k \<mapsto> a)\<rparr>) = (k, cval n) # entries s"
proof -
  have out: "a \<notin> set (nodes s)"
  proof
    assume "a \<in> set (nodes s)"
    then have "index s k = Some a" by (rule linked_node [OF inv]) (use a in auto)
    with k show False by simp
  qed
  show "lru_linked ?s"
    unfolding lru_linked_def
  proof (intro conjI ballI allI impI)
    fix b assume b: "b \<in> set (nodes ?s)"
    show "\<exists>m. lheap ?s b = Some m \<and> 1 \<le> ref_cnt m \<and> in_cache m \<and> index ?s (ckey m) = Some b"
    proof (cases "b = a")
      case True
      with a show ?thesis by simp
    next
      case False
      with b have "b \<in> set (nodes s)" by simp
      then obtain m where m: "lheap s b = Some m" "1 \<le> ref_cnt m" "in_cache m" "index s (ckey m) = Some b"
        by (rule linked_node [OF inv])
      with k have "ckey m \<noteq> k" by auto
      with m show ?thesis by simp
    qed
  next
    fix j b assume "garbage_station ?s j = Some b"
    then show "\<exists>n. lheap ?s b = Some n \<and> ckey n = j \<and> \<not> in_cache n \<and> 1 \<le> ref_cnt n"
      using inv unfolding lru_linked_def by force
  next
    fix j b assume j: "index ?s j = Some b"
    have "b \<in> set (nodes ?s) \<and> (\<exists>n. lheap ?s b = Some n \<and> ckey n = j)"
    proof (cases "j = k")
      case True
      with j a show ?thesis by simp
    next
      case False
      with j have "index s j = Some b" by simp
      then show ?thesis using inv unfolding lru_linked_def by force
    qed
    then show "b \<in> set (nodes ?s)" and "\<exists>n. lheap ?s b = Some n \<and> ckey n = j" by blast+
  qed (use inv out in \<open>simp_all add: lru_linked_def\<close>)
  show "entries ?s = (k, cval n) # entries s"
    using a by (simp add: entries_def ckey_of_def cval_of_def)
qed

subsection \<open>The operations\<close>

lemma Suc_length_remove1: "a \<in> set xs \<Longrightarrow> Suc (length (remove1 a xs)) = length xs"
  by (induction xs) auto

lemma lru_rep_LRU: "lru_rep (lru_register_clean_handle (LRU c)) []"
  by (simp add: lru_rep_def lru_ok_def lru_linked_def lru_register_clean_handle_def LRU_def entries_def)

lemma lru_contains_rep: "lru_rep s l \<Longrightarrow> lru_contains k s \<longleftrightarrow> map_of l k \<noteq> None"
  by (auto simp: lru_rep_def lru_ok_def lru_contains_def entries_index)

lemma length_entries [simp]: "length (entries s) = length (nodes s)"
  by (simp add: entries_def)

lemma last_entries:
  "nodes s \<noteq> [] \<Longrightarrow> last (entries s) = (ckey_of s (last (nodes s)), cval_of s (last (nodes s)))"
  by (simp add: entries_def last_map)

lemma lru_erase_rep:
  assumes "lru_rep s l"
  shows "\<exists>s'. lru_erase k s = Inr s' \<and> lru_rep s' (alist_delete k l) \<and> cap s' = cap s"
proof -
  from assms have inv: "lru_linked s" and len: "length (nodes s) \<le> cap s" and l: "l = entries s"
    by (auto simp: lru_rep_def lru_ok_def)
  show ?thesis
  proof (cases "index s k")
    case None
    with inv have "map_of l k = None" by (simp add: l entries_index)
    with None assms show ?thesis by (simp add: lru_erase_def alist_delete_absent)
  next
    case (Some a)
    with inv have a: "a \<in> set (nodes s)" "ckey_of s a = k" by (rule linked_index)+
    obtain s' where s': "phantom_erase_node (Some a) s = Inr s'" "lru_linked s'"
      "nodes s' = remove1 a (nodes s)" "cap s' = cap s"
      "entries s' = alist_delete (ckey_of s a) (entries s)"
      by (rule phantom_erase_linked [OF inv a(1)])
    from s'(3,4) len have "length (nodes s') \<le> cap s'" by (auto simp: length_remove1)
    with Some s' a(2) show ?thesis by (simp add: lru_erase_def lru_rep_def lru_ok_def l)
  qed
qed

lemma lru_get_miss:
  assumes "lru_rep s l" and "map_of l k = None"
  shows "lru_get k s = Inr (None, s)"
  using assms by (auto simp: lru_rep_def lru_ok_def entries_index lru_get_def)

lemma lru_get_hit:
  assumes "lru_rep s l" and v: "map_of l k = Some v"
  shows "\<exists>a s'. lru_get k s = Inr (Some a, s') \<and> node_val s' a = Inr v \<and> lru_rep s' (touch k l) \<and>
           cap s' = cap s"
proof -
  from assms have inv: "lru_linked s" and len: "length (nodes s) \<le> cap s" and l: "l = entries s"
    by (auto simp: lru_rep_def lru_ok_def)
  from v obtain a where ix: "index s k = Some a" and cv: "cval_of s a = v"
    by (auto simp: l entries_index [OF inv])
  from inv ix have a: "a \<in> set (nodes s)" "ckey_of s a = k" by (rule linked_index)+
  obtain n where n: "lheap s a = Some n" "cval_of s a = cval n"
    by (rule linked_node [OF inv a(1)]) simp
  let ?s = "s\<lparr>nodes := a # remove1 a (nodes s)\<rparr>"
  let ?s' = "?s\<lparr>lheap := (lheap ?s)(a \<mapsto> n\<lparr>ref_cnt := ref_cnt n + 1\<rparr>)\<rparr>"
  have linked: "lru_linked ?s" and ent: "entries ?s = touch k l"
    using splice_linked [OF inv a(1)] a(2) l by simp_all
  have "lheap ?s a = Some n" using n(1) by simp
  from ref_linked [OF linked this] ent have rep: "lru_linked ?s'" "entries ?s' = touch k l"
    by simp_all
  have "lru_get k s = Inr (Some a, ?s')"
  proof -
    have "(index s)(k \<mapsto> a) = index s" using ix by auto
    with ix a(1) n(1) show ?thesis by (simp add: lru_get_def splice_front_def ref_def node_at_def)
  qed
  moreover have "node_val ?s' a = Inr v" using n cv by (simp add: node_val_def node_at_def)
  moreover have "length (nodes ?s') \<le> cap ?s'"
    using len Suc_length_remove1 [OF a(1)] by simp
  moreover have "cap ?s' = cap s" by simp
  ultimately show ?thesis using rep(1) rep(2) [symmetric] unfolding lru_rep_def lru_ok_def by blast
qed

lemma lru_insert_rep:
  assumes "lru_rep s l"
  shows "\<exists>s'. lru_insert hash_fn now k v s = Inr s' \<and> lru_rep s' (remember (cap s) k v l) \<and> cap s' = cap s"
proof -
  from assms have inv: "lru_linked s" and len: "length (nodes s) \<le> cap s" and l: "l = entries s"
    by (auto simp: lru_rep_def lru_ok_def)
  let ?m = "\<lparr>ckey = k, cval = v, ref_cnt = 1, hash_val = ucast (hash_fn k), in_cache = True,
      last_access_time = now\<rparr>"
  let ?s1 = "s\<lparr>lheap := (lheap s)(lbrk s \<mapsto> ?m), lbrk := Suc (lbrk s)\<rparr>"
  have inv1: "lru_linked ?s1" and ent1: "entries ?s1 = l"
    using alloc_linked [OF inv, of ?m] l by simp_all
  show ?thesis
  proof (cases "index s k")
    case None
    let ?s2 = "?s1\<lparr>nodes := lbrk s # nodes ?s1, index := (index ?s1)(k \<mapsto> lbrk s)\<rparr>"
    have "index ?s1 k = None" "lheap ?s1 (lbrk s) = Some ?m" using None by simp_all
    from push_linked [OF inv1 this] ent1 have inv2: "lru_linked ?s2" and ent2: "entries ?s2 = (k, v) # l"
      by simp_all
    have rem: "remember (cap s) k v l = take (cap s) ((k, v) # l)"
      using None by (simp add: remember_def l entries_index [OF inv])
    have ll: "length l = length (nodes s)" by (simp add: l)
    show ?thesis
    proof (cases "length (nodes s) < cap s")
      case True
      then have "lru_insert hash_fn now k v s = Inr ?s2" "take (cap s) ((k, v) # l) = (k, v) # l"
        using None by (simp_all add: lru_insert_def Let_def ll)
      with inv2 ent2 True rem show ?thesis by (simp add: lru_rep_def lru_ok_def)
    next
      case False
      let ?a = "last (nodes ?s2)"
      have a: "?a \<in> set (nodes ?s2)" by simp
      obtain s' where s': "phantom_erase_node (Some ?a) ?s2 = Inr s'" "lru_linked s'"
        "nodes s' = remove1 ?a (nodes ?s2)" "cap s' = cap ?s2"
        "entries s' = alist_delete (ckey_of ?s2 ?a) (entries ?s2)"
        by (rule phantom_erase_linked [OF inv2 a])
      have full: "length (nodes s) = cap s" using False len by simp
      have run: "lru_insert hash_fn now k v s = Inr s'"
        using s'(1) None full by (simp add: lru_insert_def Let_def)
      have "entries ?s2 \<noteq> []" using ent2 by simp
      then have split: "entries ?s2 = butlast (entries ?s2) @ [last (entries ?s2)]" by simp
      have lst: "last (entries ?s2) = (ckey_of ?s2 ?a, cval_of ?s2 ?a)"
        by (rule last_entries) simp
      have "alist_delete (ckey_of ?s2 ?a) (entries ?s2) = butlast (entries ?s2)"
        using alist_delete_mid [of "butlast (entries ?s2)" "ckey_of ?s2 ?a" "cval_of ?s2 ?a" "[]"]
          entries_distinct [OF inv2] split lst by (metis append_Nil2)
      also have "butlast (entries ?s2) = take (cap s) ((k, v) # l)"
        unfolding ent2 by (simp add: butlast_conv_take ll full)
      finally have ent: "entries s' = remember (cap s) k v l" using s'(5) rem by simp
      have "length (nodes s') = length (entries s')" by simp
      also have "\<dots> \<le> cap s" by (simp add: ent rem)
      finally have "length (nodes s') \<le> cap s'" using s'(4) by simp
      with run s'(2,4) ent show ?thesis by (simp add: lru_rep_def lru_ok_def)
    qed
  next
    case (Some a)
    then have a: "a \<in> set (nodes s)" "ckey_of s a = k" using linked_index [OF inv] by blast+
    let ?s2 = "?s1\<lparr>nodes := a # remove1 a (nodes ?s1)\<rparr>"
    have a1: "a \<in> set (nodes ?s1)" using a(1) by simp
    have "ckey_of ?s1 a = k" using a linked_below_brk [OF inv a(1)] by (simp add: ckey_of_def)
    with splice_linked [OF inv1 a1] ent1 have rep: "lru_linked ?s2" "entries ?s2 = touch k l"
      by simp_all
    have "(index s)(k \<mapsto> a) = index s" using Some by auto
    with Some a(1) have "lru_insert hash_fn now k v s = Inr ?s2"
      by (simp add: lru_insert_def Let_def splice_front_def)
    moreover have "remember (cap s) k v l = touch k l"
      using Some by (simp add: remember_def l entries_index [OF inv])
    moreover have "length (nodes ?s2) \<le> cap ?s2"
      using len Suc_length_remove1 [OF a(1)] by simp
    ultimately show ?thesis using rep by (simp add: lru_rep_def lru_ok_def)
  qed
qed

interpretation lru: cache_policy "\<lambda>now. lru_insert hash_fn now" lru_erase lru_get lru_contains
  node_val cap lru_rep
  for hash_fn :: "'k \<Rightarrow> u64"
proof unfold_locales
  fix s :: "('k, 'v) lru" and l
  assume r: "lru_rep s l"
  then show "length l \<le> cap s" by (auto simp: lru_rep_def lru_ok_def)
  from r show "distinct (map fst l)" by (auto simp: lru_rep_def lru_ok_def entries_distinct)
qed (fact lru_contains_rep lru_insert_rep lru_erase_rep lru_get_miss lru_get_hit)+

subsection \<open>Reference counts\<close>

text \<open>The node of a cached key.\<close>

definition cached :: "('k, 'v) lru \<Rightarrow> 'k \<Rightarrow> naddr \<Rightarrow> ('k, 'v) cache_node \<Rightarrow> bool" where
  "cached s k a n \<longleftrightarrow> index s k = Some a \<and> lheap s a = Some n"

lemma cached_key:
  assumes "lru_ok s" and "cached s k a n"
  shows "a \<in> set (nodes s)" and "ckey n = k" and "1 \<le> ref_cnt n" and "clean_handle s"
proof -
  from assms have inv: "lru_linked s" and ix: "index s k = Some a" and n: "lheap s a = Some n"
    by (auto simp: lru_ok_def cached_def)
  from linked_index [OF inv ix] show a: "a \<in> set (nodes s)" and "ckey n = k"
    by (simp_all add: ckey_of_def n)
  show "1 \<le> ref_cnt n" by (rule linked_node [OF inv a]) (use n in simp)
  show "clean_handle s" using inv by (simp add: lru_linked_def)
qed

lemma erase_unheld:
  assumes "lru_ok s" and "cached s k a n" and "ref_cnt n = 1"
  shows "\<exists>s'. lru_erase k s = Inr s' \<and> destroyed s' = destroyed s @ [(k, cval n)] \<and> lheap s' a = None \<and>
           garbage_station s' k = None"
  using cached_key [OF assms(1,2)] assms(2,3)
  by (simp add: cached_def lru_erase_def phantom_erase_node_def node_at_def list_erase_def unref_def)

lemma erase_held:
  assumes "lru_ok s" and "cached s k a n" and "1 < ref_cnt n"
  shows "\<exists>s'. lru_erase k s = Inr s' \<and> destroyed s' = destroyed s \<and> garbage_station s' k = Some a \<and>
           node_val s' a = Inr (cval n) \<and> lru_release k s' = Inl Undefined_Behaviour"
  using cached_key [OF assms(1,2)] assms(2,3)
  by (simp add: cached_def lru_erase_def phantom_erase_node_def node_at_def list_erase_def unref_def
      node_val_def lru_release_def)

lemma release_last:
  assumes "lru_ok s" and "cached s k a n" and "ref_cnt n = 1"
  shows "\<exists>s'. lru_release k s = Inr s' \<and> destroyed s' = destroyed s @ [(k, cval n)] \<and>
           lru_contains k s' \<and> lru_get k s' = Inl Undefined_Behaviour"
  using cached_key [OF assms(1,2)] assms(2,3)
  by (simp add: cached_def lru_release_def unref_def node_at_def Let_def lru_contains_def lru_get_def
      splice_front_def ref_def)

lemma release_held:
  assumes "lru_ok s" and "cached s k a n" and "1 < ref_cnt n"
  shows "lru_release k s = Inr (s\<lparr>lheap := (lheap s)(a \<mapsto> n\<lparr>ref_cnt := ref_cnt n - 1\<rparr>)\<rparr>)"
  using assms by (simp add: cached_def lru_release_def unref_def node_at_def Let_def)

text \<open>A reference taken by \<open>get\<close> and given back by \<open>release\<close> leaves the node as it was.\<close>

lemma get_release:
  assumes "lru_ok s" and "cached s k a n"
  shows "\<exists>s1 s2. lru_get k s = Inr (Some a, s1) \<and> lru_release k s1 = Inr s2 \<and>
           lheap s2 = lheap s \<and> index s2 = index s \<and> destroyed s2 = destroyed s"
proof -
  note k = cached_key [OF assms]
  let ?s1 = "s\<lparr>nodes := a # remove1 a (nodes s), index := (index s)(k \<mapsto> a),
      lheap := (lheap s)(a \<mapsto> n\<lparr>ref_cnt := ref_cnt n + 1\<rparr>)\<rparr>"
  have get: "lru_get k s = Inr (Some a, ?s1)"
    using k assms(2) by (simp add: cached_def lru_get_def splice_front_def ref_def node_at_def)
  have "lheap s a = Some n" "index s k = Some a" using assms(2) by (simp_all add: cached_def)
  then have "(lheap s)(a \<mapsto> n) = lheap s" "(index s)(k \<mapsto> a) = index s" by auto
  with k(3,4) \<open>index s k = Some a\<close> have "lru_release k ?s1 = Inr (?s1\<lparr>lheap := lheap s\<rparr>)"
    by (simp add: lru_release_def unref_def node_at_def Let_def)
  with get \<open>(index s)(k \<mapsto> a) = index s\<close> show ?thesis by simp
qed

subsection \<open>Properties\<close>

text \<open>
  release finds its node through the index only: after a held entry has been erased it is
  undefined behaviour, and when it gives back the last reference of an entry that is still
  cached, the node is deleted but stays reachable, so that the next get uses freed memory.
\<close>

theorem lru_release_faults:
  assumes "lru_ok s" and "cached s k a n"
  shows "if ref_cnt n = 1
         then \<exists>s'. lru_release k s = Inr s' \<and> lru_contains k s' \<and> lru_get k s' = Inl Undefined_Behaviour
         else \<exists>s'. lru_erase k s = Inr s' \<and> garbage_station s' k = Some a \<and> lru_release k s' = Inl Undefined_Behaviour"
proof (cases "ref_cnt n = 1")
  case True
  with release_last [OF assms] show ?thesis by auto
next
  case False
  with cached_key(3) [OF assms] have "1 < ref_cnt n" by simp
  from erase_held [OF assms this] False show ?thesis by auto
qed

theorem lru_release_faults_witness:
  "\<exists>s s'. lru_insert (\<lambda>_. 0) 0 (1 :: nat) (10 :: nat) (lru_register_clean_handle (LRU 1)) = Inr s \<and>
     lru_release 1 s = Inr s' \<and> lru_get 1 s' = Inl Undefined_Behaviour"
proof -
  obtain s where s: "lru_insert (\<lambda>_. 0) 0 (1 :: nat) (10 :: nat) (lru_register_clean_handle (LRU 1)) = Inr s"
    "lru_ok s"
    using lru_insert_rep [OF lru_rep_LRU, of "\<lambda>_. 0" 0 "1 :: nat" "10 :: nat" 1] by (auto simp: lru_rep_def)
  let ?n = "\<lparr>ckey = 1, cval = 10, ref_cnt = 1, hash_val = 0, in_cache = True, last_access_time = 0\<rparr> :: (nat, nat) cache_node"
  have c: "cached s 1 0 ?n"
    using s(1) by (auto simp: lru_insert_def lru_register_clean_handle_def LRU_def Let_def cached_def)
  from lru_release_faults [OF s(2) c] s(1) show ?thesis by auto
qed

text \<open>
  C25: On a consistent LRU cache insert succeeds and keeps list, index and garbage station
  consistent: a present key only moves to the front and keeps its value, a new one comes first
  and the least recently used entry beyond the capacity leaves.
\<close>

theorem lru_insert_refines:
  assumes "lru_rep s l"
  shows "\<exists>s'. lru_insert hash_fn now k v s = Inr s' \<and> lru_rep s' (remember (cap s) k v l) \<and>
           cap s' = cap s \<and> length (nodes s') \<le> cap s'"
proof -
  from lru.ins_rep [OF assms] obtain s' where s': "lru_insert hash_fn now k v s = Inr s'"
    "lru_rep s' (remember (cap s) k v l)" "cap s' = cap s" by blast
  from lru.rep_fits [OF s'(2)] have "length (nodes s') \<le> cap s'" using s'(2) by (simp add: lru_rep_def)
  with s' show ?thesis by blast
qed

theorem lru_insert_refines_witness:
  "\<exists>s'. lru_insert (\<lambda>_. 0) 0 (1 :: nat) (10 :: nat) (lru_register_clean_handle (LRU 1)) = Inr s' \<and> lru_rep s' [(1, 10)]"
  using lru_insert_refines [OF lru_rep_LRU, of "\<lambda>_. 0" 0 "1 :: nat" "10 :: nat" 1]
  by (auto simp: remember_def lru_register_clean_handle_def LRU_def)

text \<open>
  C26: An entry that leaves the cache is destroyed at once, exactly once, when nobody holds
  its node; a node that is held stays readable and waits in the garbage station.
\<close>

theorem lru_erase_lifetime:
  assumes "lru_ok s" and "cached s k a n"
  shows "\<exists>s'. lru_erase k s = Inr s' \<and> \<not> lru_contains k s' \<and>
           (if ref_cnt n = 1
            then destroyed s' = destroyed s @ [(k, cval n)] \<and> lheap s' a = None \<and> garbage_station s' k = None
            else destroyed s' = destroyed s \<and> node_val s' a = Inr (cval n) \<and> garbage_station s' k = Some a)"
proof -
  have rep: "lru_rep s (entries s)" using assms(1) by (simp add: lru_rep_def)
  have gone: "\<not> lru_contains k s'" if "lru_erase k s = Inr s'" for s'
    using lru.miss_after_erase(2) [OF rep that] .
  show ?thesis
  proof (cases "ref_cnt n = 1")
    case True
    with erase_unheld [OF assms] gone show ?thesis by auto
  next
    case False
    with cached_key(3) [OF assms] have "1 < ref_cnt n" by simp
    from erase_held [OF assms this] gone False show ?thesis by auto
  qed
qed

theorem lru_erase_lifetime_witness:
  "\<exists>s s'. lru_insert (\<lambda>_. 0) 0 (1 :: nat) (10 :: nat) (lru_register_clean_handle (LRU 1)) = Inr s \<and>
     lru_erase 1 s = Inr s' \<and> destroyed s' = [(1, 10)]"
proof -
  obtain s where s: "lru_insert (\<lambda>_. 0) 0 (1 :: nat) (10 :: nat) (lru_register_clean_handle (LRU 1)) = Inr s"
    "lru_ok s"
    using lru_insert_rep [OF lru_rep_LRU, of "\<lambda>_. 0" 0 "1 :: nat" "10 :: nat" 1] by (auto simp: lru_rep_def)
  let ?n = "\<lparr>ckey = 1, cval = 10, ref_cnt = 1, hash_val = 0, in_cache = True, last_access_time = 0\<rparr> :: (nat, nat) cache_node"
  have c: "cached s 1 0 ?n" "destroyed s = []"
    using s(1) by (auto simp: lru_insert_def lru_register_clean_handle_def LRU_def Let_def cached_def)
  from lru_erase_lifetime [OF s(2) c(1)] s(1) c(2) show ?thesis by auto
qed

end
