(* ===== verification/Sharded_Cache.thy ===== *)
theory Sharded_Cache
  imports Lru_Correct
begin

section \<open>The sharded cache\<close>

text \<open>
  \<open>Cache<K, V>\<close> of \<open>src/cache/cache.h\<close>: five \<open>LRU\<close> caches, each of the full capacity, and a
  key goes to the shard \<open>hash_fn(key) % SHARDING_NUM\<close>. \<open>hash_fn\<close> is \<open>std::hash<K>\<close>, which the
  standard leaves to the implementation, and stays a parameter.
\<close>

definition SHARDING_NUM :: u64 where
  "SHARDING_NUM = 5"

type_synonym ('k, 'v) cache = "('k, 'v) lru list"

definition Cache :: "nat \<Rightarrow> ('k, 'v) cache" where
  "Cache c = replicate (unat SHARDING_NUM) (LRU c)"

definition sharding_index :: "('k \<Rightarrow> u64) \<Rightarrow> 'k \<Rightarrow> nat" where
  "sharding_index hash_fn key = unat (hash_fn key mod SHARDING_NUM)"

definition cache_insert ::
  "('k \<Rightarrow> u64) \<Rightarrow> u64 \<Rightarrow> 'k \<Rightarrow> 'v \<Rightarrow> ('k, 'v) cache \<Rightarrow> ('k, 'v) cache res" where
  "cache_insert hash_fn now key val cs =
     (let i = sharding_index hash_fn key
      in bind_res (lru_insert hash_fn now key val (cs ! i)) (\<lambda>s. Inr (cs[i := s])))"

definition cache_erase :: "('k \<Rightarrow> u64) \<Rightarrow> 'k \<Rightarrow> ('k, 'v) cache \<Rightarrow> ('k, 'v) cache res" where
  "cache_erase hash_fn key cs =
     (let i = sharding_index hash_fn key
      in bind_res (lru_erase key (cs ! i)) (\<lambda>s. Inr (cs[i := s])))"

definition cache_get ::
  "('k \<Rightarrow> u64) \<Rightarrow> 'k \<Rightarrow> ('k, 'v) cache \<Rightarrow> (naddr option \<times> ('k, 'v) cache) res" where
  "cache_get hash_fn key cs =
     (let i = sharding_index hash_fn key
      in bind_res (lru_get key (cs ! i)) (\<lambda>(p, s). Inr (p, cs[i := s])))"

definition cache_contains :: "('k \<Rightarrow> u64) \<Rightarrow> 'k \<Rightarrow> ('k, 'v) cache \<Rightarrow> bool" where
  "cache_contains hash_fn key cs = lru_contains key (cs ! sharding_index hash_fn key)"

definition cache_release :: "('k \<Rightarrow> u64) \<Rightarrow> 'k \<Rightarrow> ('k, 'v) cache \<Rightarrow> ('k, 'v) cache res" where
  "cache_release hash_fn key cs =
     (let i = sharding_index hash_fn key
      in bind_res (lru_release key (cs ! i)) (\<lambda>s. Inr (cs[i := s])))"

definition cache_register_clean_handle :: "('k, 'v) cache \<Rightarrow> ('k, 'v) cache" where
  "cache_register_clean_handle cs = map lru_register_clean_handle cs"

text \<open>The value behind a node pointer that \<open>cache_get\<close> returned for \<open>key\<close>.\<close>

definition cache_node_val :: "('k \<Rightarrow> u64) \<Rightarrow> 'k \<Rightarrow> ('k, 'v) cache \<Rightarrow> naddr \<Rightarrow> 'v res" where
  "cache_node_val hash_fn key cs a = node_val (cs ! sharding_index hash_fn key) a"

subsection \<open>The cache as a bank of entry lists\<close>

definition shard_list :: "('k \<Rightarrow> u64) \<Rightarrow> ('k \<times> 'v) list list \<Rightarrow> 'k \<Rightarrow> ('k \<times> 'v) list" where
  "shard_list hash_fn ls key = ls ! sharding_index hash_fn key"

definition cache_map :: "('k \<Rightarrow> u64) \<Rightarrow> ('k \<times> 'v) list list \<Rightarrow> 'k \<Rightarrow> 'v option" where
  "cache_map hash_fn ls key = map_of (shard_list hash_fn ls key) key"

definition cache_rep :: "nat \<Rightarrow> ('k, 'v) cache \<Rightarrow> ('k \<times> 'v) list list \<Rightarrow> bool" where
  "cache_rep c cs ls \<longleftrightarrow>
     list_all2 lru_rep cs ls \<and> map cap cs = replicate (unat SHARDING_NUM) c"

lemma sharding_index_less: "sharding_index hash_fn key < unat SHARDING_NUM"
  by (simp add: sharding_index_def SHARDING_NUM_def unat_mod)

lemma cache_rep_shard:
  assumes "cache_rep c cs ls"
  shows "sharding_index hash_fn key < length cs" and "sharding_index hash_fn key < length ls"
    and "cap (cs ! sharding_index hash_fn key) = c"
    and "lru_rep (cs ! sharding_index hash_fn key) (ls ! sharding_index hash_fn key)"
proof -
  let ?i = "sharding_index hash_fn key"
  from assms have "list_all2 lru_rep cs ls" and caps: "map cap cs = replicate (unat SHARDING_NUM) c"
    by (simp_all add: cache_rep_def)
  moreover from caps have len: "length cs = unat SHARDING_NUM" by (metis length_map length_replicate)
  ultimately show i: "?i < length cs" and "?i < length ls"
    using sharding_index_less [of hash_fn key] by (auto dest: list_all2_lengthD)
  from \<open>list_all2 lru_rep cs ls\<close> i show "lru_rep (cs ! ?i) (ls ! ?i)" by (simp add: list_all2_nthD)
  from i len have "map cap cs ! ?i = c" unfolding caps by simp
  with i show "cap (cs ! ?i) = c" by simp
qed

lemma Cache_rep:
  "cache_rep c (cache_register_clean_handle (Cache c)) (replicate (unat SHARDING_NUM) [])"
  using lru_rep_LRU
  by (auto simp: cache_rep_def Cache_def cache_register_clean_handle_def list_all2_conv_all_nth
      lru_register_clean_handle_def LRU_def)

lemma cache_contains_rep:
  "cache_rep c cs ls \<Longrightarrow> cache_contains hash_fn k cs \<longleftrightarrow> cache_map hash_fn ls k \<noteq> None"
  by (simp add: cache_contains_def cache_map_def shard_list_def lru.con_rep [OF cache_rep_shard(4)])

lemma cache_insert_rep:
  fixes hash_fn :: "'k \<Rightarrow> u64" and k :: 'k
  assumes rep: "cache_rep c cs ls"
  defines "i \<equiv> sharding_index hash_fn k"
  shows "\<exists>cs'. cache_insert hash_fn now k v cs = Inr cs' \<and> cache_rep c cs' (ls[i := remember c k v (ls ! i)])"
proof -
  note sh = cache_rep_shard [OF rep, of hash_fn k, folded i_def]
  have "list_all2 lru_rep cs ls" using rep by (simp add: cache_rep_def)
  from lru.bank_insert [OF this sh(1), of hash_fn now k v] obtain s' where
    "lru_insert hash_fn now k v (cs ! i) = Inr s'"
    "list_all2 lru_rep (cs[i := s']) (ls[i := remember c k v (ls ! i)])"
    "map cap (cs[i := s']) = map cap cs" unfolding sh(3) by blast
  with rep show ?thesis by (simp add: cache_insert_def i_def [symmetric] cache_rep_def)
qed

lemma cache_erase_rep:
  fixes hash_fn :: "'k \<Rightarrow> u64" and k :: 'k
  assumes rep: "cache_rep c cs ls"
  defines "i \<equiv> sharding_index hash_fn k"
  shows "\<exists>cs'. cache_erase hash_fn k cs = Inr cs' \<and> cache_rep c cs' (ls[i := alist_delete k (ls ! i)])"
proof -
  note sh = cache_rep_shard [OF rep, of hash_fn k, folded i_def]
  have "list_all2 lru_rep cs ls" using rep by (simp add: cache_rep_def)
  from lru.bank_erase [OF this sh(1), of k] obtain s' where
    "lru_erase k (cs ! i) = Inr s'"
    "list_all2 lru_rep (cs[i := s']) (ls[i := alist_delete k (ls ! i)])"
    "map cap (cs[i := s']) = map cap cs" by blast
  with rep show ?thesis by (simp add: cache_erase_def i_def [symmetric] cache_rep_def)
qed

lemma cache_get_miss:
  assumes "cache_rep c cs ls" and "cache_map hash_fn ls k = None"
  shows "cache_get hash_fn k cs = Inr (None, cs)"
  using lru.get_miss [OF cache_rep_shard(4) [OF assms(1)], of hash_fn k k] assms(2)
  by (simp add: cache_get_def cache_map_def shard_list_def)

lemma cache_get_touches:
  fixes hash_fn :: "'k \<Rightarrow> u64" and k :: 'k
  assumes rep: "cache_rep c cs ls" and "cache_map hash_fn ls k = Some v"
  defines "i \<equiv> sharding_index hash_fn k"
  shows "\<exists>a cs'. cache_get hash_fn k cs = Inr (Some a, cs') \<and> cache_node_val hash_fn k cs' a = Inr v \<and>
           cache_rep c cs' (ls[i := touch k (ls ! i)]) \<and>
           cache_map hash_fn (ls[i := touch k (ls ! i)]) = cache_map hash_fn ls"
proof -
  let ?i = "sharding_index hash_fn k"
  note sh = cache_rep_shard [OF rep, of hash_fn k]
  have "list_all2 lru_rep cs ls" using rep by (simp add: cache_rep_def)
  moreover have "map_of (ls ! ?i) k = Some v"
    using assms(2) by (simp add: cache_map_def shard_list_def)
  ultimately obtain a s' where s': "lru_get k (cs ! ?i) = Inr (Some a, s')" "node_val s' a = Inr v"
    "list_all2 lru_rep (cs[?i := s']) (ls[?i := touch k (ls ! ?i)])"
    "map cap (cs[?i := s']) = map cap cs" using lru.bank_get [OF _ sh(1)] by blast
  have "cache_map hash_fn (ls[?i := touch k (ls ! ?i)]) j = cache_map hash_fn ls j" for j
    using sh(2) by (cases "sharding_index hash_fn j = ?i") (simp_all add: cache_map_def shard_list_def)
  then have "cache_map hash_fn (ls[?i := touch k (ls ! ?i)]) = cache_map hash_fn ls" by blast
  moreover have "cache_get hash_fn k cs = Inr (Some a, cs[?i := s'])" by (simp add: cache_get_def s'(1))
  moreover have "cache_node_val hash_fn k (cs[?i := s']) a = Inr v"
    using sh(1) s'(2) by (simp add: cache_node_val_def)
  moreover have "cache_rep c (cs[?i := s']) (ls[?i := touch k (ls ! ?i)])"
    using rep s'(3,4) by (simp add: cache_rep_def)
  ultimately show ?thesis unfolding i_def by blast
qed

lemma cache_get_hit:
  assumes "cache_rep c cs ls" and "cache_map hash_fn ls k = Some v"
  shows "\<exists>a cs' ls'. cache_get hash_fn k cs = Inr (Some a, cs') \<and> cache_node_val hash_fn k cs' a = Inr v \<and>
           cache_rep c cs' ls' \<and> cache_map hash_fn ls' = cache_map hash_fn ls"
  using cache_get_touches [OF assms] by blast

subsection \<open>What the database sees of it\<close>

lemma cache_map_erase:
  fixes hash_fn :: "'k \<Rightarrow> u64" and k :: 'k
  assumes "cache_rep c cs ls"
  defines "i \<equiv> sharding_index hash_fn k"
  shows "cache_map hash_fn (ls[i := alist_delete k (ls ! i)]) = (cache_map hash_fn ls)(k := None)"
proof
  fix j
  show "cache_map hash_fn (ls[i := alist_delete k (ls ! i)]) j = ((cache_map hash_fn ls)(k := None)) j"
    using cache_rep_shard(2) [OF assms(1), of hash_fn k]
    by (cases "sharding_index hash_fn j = i") (auto simp: i_def cache_map_def shard_list_def)
qed

lemma cache_map_insert_present:
  assumes "cache_rep c cs ls" and "cache_map hash_fn ls k = Some w"
  defines "i \<equiv> sharding_index hash_fn k"
  shows "cache_map hash_fn (ls[i := remember c k v (ls ! i)]) = cache_map hash_fn ls"
proof
  fix j
  show "cache_map hash_fn (ls[i := remember c k v (ls ! i)]) j = cache_map hash_fn ls j"
    using cache_rep_shard(2) [OF assms(1), of hash_fn k] assms(2)
    by (cases "sharding_index hash_fn j = i") (auto simp: i_def cache_map_def shard_list_def remember_def)
qed

lemma cache_map_insert_new:
  assumes "cache_rep c cs ls" and "cache_map hash_fn ls k = None" and "0 < c"
  defines "i \<equiv> sharding_index hash_fn k"
  shows "cache_map hash_fn (ls[i := remember c k v (ls ! i)]) k = Some v"
    and "j \<noteq> k \<Longrightarrow> cache_map hash_fn (ls[i := remember c k v (ls ! i)]) j = Some w \<Longrightarrow>
           cache_map hash_fn ls j = Some w"
proof -
  note i = cache_rep_shard(2) [OF assms(1), of hash_fn k, folded i_def]
  show "cache_map hash_fn (ls[i := remember c k v (ls ! i)]) k = Some v"
    using assms(2) i map_of_remember_new [OF _ assms(3)]
    by (simp add: i_def [symmetric] cache_map_def shard_list_def)
  show "cache_map hash_fn ls j = Some w"
    if "j \<noteq> k" and "cache_map hash_fn (ls[i := remember c k v (ls ! i)]) j = Some w"
  proof (cases "sharding_index hash_fn j = i")
    case True
    with that(2) i have "map_of (remember c k v (ls ! i)) j = Some w"
      by (simp add: cache_map_def shard_list_def)
    from map_of_remember_other [OF that(1) this] True show ?thesis
      by (simp add: cache_map_def shard_list_def)
  next
    case False
    with that(2) show ?thesis by (simp add: cache_map_def shard_list_def)
  qed
qed

subsection \<open>Properties\<close>

text \<open>
  After an insert of a new key into the sharded cache a get of the key hits and its node holds
  the value, for every hash function; after an insert of a present key the get yields the
  value that was there before.
\<close>

theorem cache_insert_then_get:
  assumes "cache_rep c cs ls" and "0 < c"
  shows "\<exists>cs1 a cs2. cache_insert hash_fn now k v cs = Inr cs1 \<and> cache_get hash_fn k cs1 = Inr (Some a, cs2) \<and>
           cache_node_val hash_fn k cs2 a = Inr (case cache_map hash_fn ls k of None \<Rightarrow> v | Some w \<Rightarrow> w)"
proof -
  let ?i = "sharding_index hash_fn k"
  obtain cs1 where cs1: "cache_insert hash_fn now k v cs = Inr cs1"
    "cache_rep c cs1 (ls[?i := remember c k v (ls ! ?i)])"
    using cache_insert_rep [OF assms(1)] by blast
  have "cache_map hash_fn (ls[?i := remember c k v (ls ! ?i)]) k =
      Some (case cache_map hash_fn ls k of None \<Rightarrow> v | Some w \<Rightarrow> w)"
    using cache_map_insert_new(1) [OF assms(1) _ assms(2), of hash_fn k v]
      cache_map_insert_present [OF assms(1), of hash_fn k _ v] by (auto split: option.split)
  from cache_get_hit [OF cs1(2) this] cs1(1) show ?thesis by blast
qed

theorem cache_insert_then_get_witness:
  "\<exists>cs1 a cs2. cache_insert (\<lambda>_. 7) 0 (1 :: nat) (10 :: nat) (cache_register_clean_handle (Cache 2)) = Inr cs1 \<and>
     cache_get (\<lambda>_. 7) 1 cs1 = Inr (Some a, cs2) \<and> cache_node_val (\<lambda>_. 7) 1 cs2 a = Inr 10"
  using cache_insert_then_get [OF Cache_rep, of 2 "\<lambda>_. 7" 0 "1 :: nat" "10 :: nat"]
  by (simp add: cache_map_def shard_list_def nth_replicate [OF sharding_index_less])

end
