(* ===== verification/Db_Status.thy ===== *)
theory Db_Status
  imports Db_Prelude
begin

section \<open>Status values\<close>

text \<open>
  \<open>DBStatus\<close>, its comparison and the constants of \<open>Status\<close> (\<open>src/db/status.h\<close>,
  \<open>status.cpp\<close>). Two values are equal when their codes are, whatever their messages.
\<close>

record DBStatus =
  code :: int
  err_msg :: bytes

definition status_eq :: "DBStatus \<Rightarrow> DBStatus \<Rightarrow> bool" where
  "status_eq a b \<longleftrightarrow> code a = code b"

definition status_neq :: "DBStatus \<Rightarrow> DBStatus \<Rightarrow> bool" where
  "status_neq a b \<longleftrightarrow> code a \<noteq> code b"

definition Success :: DBStatus where
  "Success = \<lparr>code = 1, err_msg = str ''ExecStatus.''\<rparr>"

definition InvalidArgs :: DBStatus where
  "InvalidArgs = \<lparr>code = 2, err_msg = str ''Invalid args.''\<rparr>"

definition ExecFailed :: DBStatus where
  "ExecFailed = \<lparr>code = 3, err_msg = str ''Exec failed.''\<rparr>"

definition NotImpl :: DBStatus where
  "NotImpl = \<lparr>code = 4, err_msg = str ''Not implemented.''\<rparr>"

definition NotFound :: DBStatus where
  "NotFound = \<lparr>code = 5, err_msg = str ''Key not found.''\<rparr>"

definition Corruption :: DBStatus where
  "Corruption = \<lparr>code = 6, err_msg = str ''Data corruption.''\<rparr>"

lemma status_code [simp]:
  "code Success = 1" "code InvalidArgs = 2" "code ExecFailed = 3" "code NotImpl = 4"
  "code NotFound = 5" "code Corruption = 6"
  by (simp_all add: Success_def InvalidArgs_def ExecFailed_def NotImpl_def NotFound_def Corruption_def)

declare status_eq_def [status_simps] status_neq_def [status_simps]

lemma status_eq_refl [simp]: "status_eq a a"
  by (simp add: status_eq_def)

lemma status_distinct [simp]:
  "Success \<noteq> InvalidArgs" "Success \<noteq> ExecFailed" "Success \<noteq> NotImpl" "Success \<noteq> NotFound"
  "Success \<noteq> Corruption" "ExecFailed \<noteq> Corruption" "ExecFailed \<noteq> Success" "Corruption \<noteq> Success"
  "InvalidArgs \<noteq> Success" "NotFound \<noteq> Success" "NotFound \<noteq> InvalidArgs"
  by (metis status_code numeral_eq_iff one_eq_numeral_iff semiring_norm)+

end
