(* ===== verification/File_Io.thy ===== *)
theory File_Io
  imports Db_Status
begin

section \<open>Buffered files\<close>

text \<open>
  \<open>FileWriter\<close> (\<open>src/file/file_writer.h\<close>, \<open>file_writer.cpp\<close>) and \<open>FileReader\<close>
  (\<open>file_reader.cpp\<close>), over a small file system: the content of every regular file and the
  set of directories. \<open>write(2)\<close> may write less than it was given or fail; how many bytes a
  call writes is the parameter \<open>wr\<close>, and \<open>full_writes wr\<close> says that it writes all of them.
  A file has one writer, so \<open>O_APPEND\<close> and the file position of a truncated file are the
  same. \<open>fsync\<close> has no effect on what is read back and is not represented.
\<close>

record fs =
  files :: "bytes \<rightharpoonup> bytes"
  dirs :: "bytes set"

definition BUFFER_SIZE :: nat where
  "BUFFER_SIZE = 65536"

record file_writer =
  fd :: int
  fw_path :: bytes
  buffer_offset :: nat
  buffer :: bytes

type_synonym writer = "file_writer \<times> fs"

type_synonym write_count = "fs \<Rightarrow> bytes \<Rightarrow> int"

definition access_ok :: "fs \<Rightarrow> bytes \<Rightarrow> bool" where
  "access_ok d path \<longleftrightarrow> files d path \<noteq> None \<or> path \<in> dirs d"

text \<open>\<open>file_path.substr(0, (int) file_path.rfind('/'))\<close>: the whole path when it has no slash.\<close>

definition parent_dir :: "bytes \<Rightarrow> bytes" where
  "parent_dir path =
     (if 47 \<in> set path then rev (tl (dropWhile (\<lambda>b. b \<noteq> 47) (rev path))) else path)"

text \<open>
  \<open>std::filesystem::create_directories\<close>: every directory on the way; it throws for an empty path
  and when a regular file is in the way. Paths are compared as they are written.
\<close>

definition ancestors :: "bytes \<Rightarrow> bytes list" where
  "ancestors path = [take i path. i \<leftarrow> [1..<Suc (length path)], i = length path \<or> path ! i = 47]"

definition create_directories :: "bytes \<Rightarrow> fs \<Rightarrow> fs res" where
  "create_directories path d =
     (if path = [] \<or> (\<exists>q \<in> set (ancestors path). files d q \<noteq> None) then Inl Exception_Thrown
      else Inr (d\<lparr>dirs := dirs d \<union> set (ancestors path)\<rparr>))"

text \<open>\<open>open\<close> for writing: a directory cannot be opened; otherwise the file is created, or truncated.\<close>

definition open_write :: "bool \<Rightarrow> bytes \<Rightarrow> fs \<Rightarrow> int \<times> fs" where
  "open_write app_mode path d =
     (if path \<in> dirs d then (- 1, d)
      else (3, d\<lparr>files := (files d)(path \<mapsto>
                 (case files d path of None \<Rightarrow> [] | Some c \<Rightarrow> if app_mode then c else []))\<rparr>))"

definition FileWriter :: "bytes \<Rightarrow> bool \<Rightarrow> fs \<Rightarrow> writer res" where
  "FileWriter path app_mode d =
     bind_res (if \<not> access_ok d path then create_directories (parent_dir path) d else Inr d) (\<lambda>d1.
       let (n, d2) = open_write app_mode path d1
       in assert_res (access_ok d2 path)
            (Inr (\<lparr>fd = n, fw_path = path, buffer_offset = 0, buffer = replicate BUFFER_SIZE 0\<rparr>, d2)))"

definition write_fd :: "write_count \<Rightarrow> file_writer \<Rightarrow> bytes \<Rightarrow> fs \<Rightarrow> int \<times> fs" where
  "write_fd wr w data d =
     (if fd w = - 1 then (- 1, d)
      else
        (let ret = wr d data;
             old = (case files d (fw_path w) of None \<Rightarrow> [] | Some c \<Rightarrow> c)
         in (ret, d\<lparr>files := (files d)(fw_path w \<mapsto> old @ take (nat ret) data)\<rparr>)))"

definition buf_persist :: "write_count \<Rightarrow> nat \<Rightarrow> writer \<Rightarrow> (DBStatus \<times> writer) res" where
  "buf_persist wr len s =
     (let (w, d) = s; (ret, d') = write_fd wr w (take len (buffer w)) d
      in assert_res (ret = int len) (Inr (Success, (w\<lparr>buffer_offset := 0\<rparr>, d'))))"

definition is_buffer_full :: "file_writer \<Rightarrow> bool" where
  "is_buffer_full w \<longleftrightarrow> buffer_offset w = BUFFER_SIZE"

text \<open>\<open>memcpy(buffer + buffer_offset, data, n)\<close> followed by \<open>buffer_offset += n\<close>.\<close>

definition copy_in :: "bytes \<Rightarrow> file_writer \<Rightarrow> file_writer res" where
  "copy_in xs w =
     (if buffer_offset w + length xs \<le> length (buffer w)
      then Inr (w\<lparr>buffer := take (buffer_offset w) (buffer w) @ xs
                             @ drop (buffer_offset w + length xs) (buffer w),
                  buffer_offset := buffer_offset w + length xs\<rparr>)
      else Inl Undefined_Behaviour)"

text \<open>The \<open>while\<close> loop of \<open>append\<close>; \<open>data\<close> is what is left to copy.\<close>

function append_loop :: "write_count \<Rightarrow> bytes \<Rightarrow> writer \<Rightarrow> writer res" where
  "append_loop wr data s =
     (if data = [] then Inr s
      else
        bind_res
          (if is_buffer_full (fst s)
           then bind_res (buf_persist wr BUFFER_SIZE s) (\<lambda>(rsp, s'). assert_res (status_eq rsp Success) (Inr s'))
           else Inr s)
          (\<lambda>(w, d).
            let need_cpy = min (length data) (BUFFER_SIZE - buffer_offset w)
            in if need_cpy = 0 then Inl No_Return
               else bind_res (copy_in (take need_cpy data) w) (\<lambda>w'. append_loop wr (drop need_cpy data) (w', d))))"
  by pat_completeness auto
termination
  by (relation "measure (\<lambda>(wr, data, s). length data)") auto

declare append_loop.simps [simp del]

definition append_buffered :: "write_count \<Rightarrow> bytes \<Rightarrow> writer \<Rightarrow> writer res" where
  "append_buffered wr data s =
     (let (w, d) = s; remain_buf_size = BUFFER_SIZE - buffer_offset w
      in if length data < remain_buf_size
         then bind_res (copy_in data w) (\<lambda>w'. Inr (w', d))
         else
           bind_res (copy_in (take remain_buf_size data) w) (\<lambda>w'.
           bind_res (buf_persist wr BUFFER_SIZE (w', d)) (\<lambda>(rsp, s').
           assert_res (status_eq rsp Success) (append_loop wr (drop remain_buf_size data) s'))))"

text \<open>
  \<open>append(data, len, flush)\<close>: \<open>data\<close> holds the bytes behind the pointer. A negative \<open>len\<close> is
  less than the space left and goes to \<open>memcpy\<close> as a huge unsigned size.
\<close>

definition append_file :: "write_count \<Rightarrow> bytes \<Rightarrow> int \<Rightarrow> bool \<Rightarrow> writer \<Rightarrow> (DBStatus \<times> writer) res" where
  "append_file wr data len flush s =
     (if len = 0 then Inr (Success, s)
      else if len < 0 \<or> length data < nat len then Inl Undefined_Behaviour
      else
        bind_res (append_buffered wr (take (nat len) data) s) (\<lambda>s'.
          if flush
          then bind_res (buf_persist wr (buffer_offset (fst s')) s') (\<lambda>(rsp, s''). Inr (Success, s''))
          else Inr (Success, s')))"

definition flush_file :: "write_count \<Rightarrow> writer \<Rightarrow> (DBStatus \<times> writer) res" where
  "flush_file wr s =
     (if buffer_offset (fst s) > 0
      then bind_res (buf_persist wr (buffer_offset (fst s)) s) (\<lambda>(rsp, s').
             assert_res (status_eq rsp Success) (Inr (Success, s')))
      else Inr (Success, s))"

definition sync_file :: "write_count \<Rightarrow> writer \<Rightarrow> writer res" where
  "sync_file wr s = bind_res (flush_file wr s) (\<lambda>(rsp, s'). Inr s')"

definition close_file :: "write_count \<Rightarrow> writer \<Rightarrow> writer res" where
  "close_file wr s = bind_res (flush_file wr s) (\<lambda>(rsp, (w, d)). Inr (w\<lparr>fd := - 1\<rparr>, d))"

text \<open>\<open>~FileWriter\<close>\<close>

definition destroy_file :: "write_count \<Rightarrow> writer \<Rightarrow> writer res" where
  "destroy_file wr s = sync_file wr s"

subsection \<open>Reading\<close>

text \<open>
  A \<open>FileReader\<close> whose file cannot be accessed keeps the descriptor \<open>0\<close> it is initialised
  with; what \<open>pread\<close> yields there is the parameter \<open>stdin_pread\<close>.
\<close>

record file_reader =
  rfd :: int
  fr_path :: bytes

definition FileReader :: "bytes \<Rightarrow> fs \<Rightarrow> file_reader" where
  "FileReader path d =
     (if \<not> access_ok d path then \<lparr>rfd = 0, fr_path = path\<rparr> else \<lparr>rfd = 3, fr_path = path\<rparr>)"

text \<open>\<open>~FileReader\<close>: the descriptor it closes, if any.\<close>

definition FileReader_destroy :: "file_reader \<Rightarrow> int option \<times> file_reader" where
  "FileReader_destroy r = (if rfd r \<noteq> - 1 then (Some (rfd r), r\<lparr>rfd := - 1\<rparr>) else (None, r))"

definition pread_file :: "(nat \<Rightarrow> nat \<Rightarrow> bytes option) \<Rightarrow> file_reader \<Rightarrow> fs \<Rightarrow> int \<Rightarrow> int \<Rightarrow> bytes option" where
  "pread_file stdin_pread r d count offset =
     (if count < 0 \<or> offset < 0 then None
      else if rfd r = 0 then stdin_pread (nat count) (nat offset)
      else map_option (\<lambda>c. take (nat count) (drop (nat offset) c)) (files d (fr_path r)))"

text \<open>\<open>read(buf, count, offset)\<close>; the bytes are what \<open>buf\<close> holds afterwards.\<close>

definition read_file ::
  "(nat \<Rightarrow> nat \<Rightarrow> bytes option) \<Rightarrow> file_reader \<Rightarrow> fs \<Rightarrow> int \<Rightarrow> int \<Rightarrow> DBStatus \<times> bytes" where
  "read_file stdin_pread r d count offset =
     (if rfd r = - 1 then (ExecFailed, [])
      else
        (case pread_file stdin_pread r d count offset of
           None \<Rightarrow> (ExecFailed, [])
         | Some xs \<Rightarrow> if int (length xs) \<noteq> count then (ExecFailed, xs) else (Success, xs)))"

subsection \<open>What a client relies on\<close>

text \<open>
  A sink of bytes: what it has been given (\<open>total\<close>) and what of it is in the file
  (\<open>stored\<close>). A client that appends piece by piece gets the concatenation.
\<close>

locale byte_sink =
  fixes app :: "bytes \<Rightarrow> bool \<Rightarrow> 's \<Rightarrow> 's res"
    and flu :: "'s \<Rightarrow> 's res"
    and total :: "'s \<Rightarrow> bytes"
    and stored :: "'s \<Rightarrow> bytes"
    and fits :: "bytes \<Rightarrow> bool"
    and ok :: "'s \<Rightarrow> bool"
  assumes app_total: "ok s \<Longrightarrow> fits xs \<Longrightarrow>
      \<exists>s'. app xs now s = Inr s' \<and> ok s' \<and> total s' = total s @ xs \<and>
           (now \<longrightarrow> xs \<noteq> [] \<longrightarrow> stored s' = total s')"
    and flu_stored: "ok s \<Longrightarrow> \<exists>s'. flu s = Inr s' \<and> ok s' \<and> total s' = total s \<and> stored s' = total s"
begin

primrec app_all :: "bytes list \<Rightarrow> 's \<Rightarrow> 's res" where
  "app_all [] s = Inr s"
| "app_all (xs # xss) s = bind_res (app xs False s) (app_all xss)"

lemma app_all_total:
  assumes "ok s" and "\<forall>xs \<in> set xss. fits xs"
  shows "\<exists>s'. app_all xss s = Inr s' \<and> ok s' \<and> total s' = total s @ concat xss"
  using assms
proof (induction xss arbitrary: s)
  case Nil
  then show ?case by simp
next
  case (Cons xs xss)
  then obtain s1 where s1: "app xs False s = Inr s1" "ok s1" "total s1 = total s @ xs"
    using app_total by (metis list.set_intros(1))
  with Cons.IH [of s1] Cons.prems(2) show ?case by auto
qed

lemma app_all_flush:
  assumes "ok s" and "\<forall>xs \<in> set xss. fits xs"
  shows "\<exists>s'. bind_res (app_all xss s) flu = Inr s' \<and> ok s' \<and> stored s' = total s @ concat xss"
  using app_all_total [OF assms] flu_stored by force

end

subsection \<open>The writer is a sink\<close>

definition full_writes :: "write_count \<Rightarrow> bool" where
  "full_writes wr \<longleftrightarrow> (\<forall>d xs. wr d xs = int (length xs))"

definition fw_ok :: "writer \<Rightarrow> bool" where
  "fw_ok s \<longleftrightarrow>
     length (buffer (fst s)) = BUFFER_SIZE \<and> buffer_offset (fst s) \<le> BUFFER_SIZE \<and>
     fd (fst s) \<noteq> - 1 \<and> files (snd s) (fw_path (fst s)) \<noteq> None"

definition fw_stored :: "writer \<Rightarrow> bytes" where
  "fw_stored s = the (files (snd s) (fw_path (fst s)))"

definition fw_total :: "writer \<Rightarrow> bytes" where
  "fw_total s = fw_stored s @ take (buffer_offset (fst s)) (buffer (fst s))"

text \<open>An operation changes the file of its writer and nothing else of the file system.\<close>

definition same_file :: "writer \<Rightarrow> writer \<Rightarrow> bool" where
  "same_file s s' \<longleftrightarrow>
     fw_path (fst s') = fw_path (fst s) \<and> fd (fst s') = fd (fst s) \<and> dirs (snd s') = dirs (snd s) \<and>
     (\<forall>p. p \<noteq> fw_path (fst s) \<longrightarrow> files (snd s') p = files (snd s) p)"

lemma same_file_refl [simp]: "same_file s s"
  by (simp add: same_file_def)

lemma same_file_trans: "same_file s s' \<Longrightarrow> same_file s' s'' \<Longrightarrow> same_file s s''"
  by (simp add: same_file_def)

lemma parent_dir_shorter:
  assumes "47 \<in> set path"
  shows "length (parent_dir path) < length path"
proof -
  have "length (dropWhile (\<lambda>b. b \<noteq> 47) (rev path)) \<le> length path"
    using length_dropWhile_le [of "\<lambda>b. b \<noteq> 47" "rev path"] by simp
  moreover have "0 < length path" using assms by (rule length_pos_if_in_set)
  moreover have "length (parent_dir path) = length (dropWhile (\<lambda>b. b \<noteq> 47) (rev path)) - 1"
    using assms by (simp add: parent_dir_def)
  ultimately show ?thesis by linarith
qed

text \<open>Opening a path in a directory, and a new path that names none.\<close>

definition parent_free :: "bytes \<Rightarrow> fs \<Rightarrow> bool" where
  "parent_free path d \<longleftrightarrow> parent_dir path \<noteq> [] \<and> (\<forall>q \<in> set (ancestors (parent_dir path)). files d q = None)"

lemma ancestors_shorter: "q \<in> set (ancestors path) \<Longrightarrow> length q \<le> length path"
  by (auto simp: ancestors_def split: if_splits)

lemma ancestors_flat:
  assumes "path \<noteq> []" and "47 \<notin> set path"
  shows "set (ancestors path) = {path}"
proof -
  have "path ! i \<noteq> 47" if "i < length path" for i using assms(2) that nth_mem by metis
  then show ?thesis using assms(1) by (auto simp: ancestors_def Suc_le_eq less_Suc_eq split: if_splits)
qed

lemma FileWriter_opens:
  assumes "path \<notin> dirs d" and "47 \<in> set path" and "parent_free path d"
  obtains w d' where "FileWriter path app_mode d = Inr (w, d')" and "fw_ok (w, d')"
    and "fw_total (w, d') = (if app_mode then (case files d path of None \<Rightarrow> [] | Some c \<Rightarrow> c) else [])"
proof -
  have free: "path \<notin> set (ancestors (parent_dir path))"
    using parent_dir_shorter [OF assms(2)] ancestors_shorter [of path "parent_dir path"] by auto
  have made: "create_directories (parent_dir path) d = Inr (d\<lparr>dirs := dirs d \<union> set (ancestors (parent_dir path))\<rparr>)"
    using assms(3) by (auto simp: create_directories_def parent_free_def)
  from free made assms(1) that show thesis
    by (cases "files d path")
      (simp_all add: FileWriter_def open_write_def access_ok_def fw_ok_def fw_total_def fw_stored_def Let_def)
qed

lemma FileWriter_no_slash:
  assumes "\<not> access_ok d path" and "47 \<notin> set path" and "path \<noteq> []"
  obtains w d' where "FileWriter path app_mode d = Inr (w, d')" and "fd w = - 1"
    and "buffer_offset w = 0" and "length (buffer w) = BUFFER_SIZE" and "path \<in> dirs d'"
  using assms that ancestors_flat [OF assms(3,2)]
  by (simp add: FileWriter_def open_write_def access_ok_def parent_dir_def create_directories_def Let_def)

lemma append_file_closed:
  assumes "fd w = - 1" and "buffer_offset w = 0" and "length (buffer w) = BUFFER_SIZE"
    and "0 < length xs" and "length xs < BUFFER_SIZE"
  shows "append_file wr xs (int (length xs)) True (w, d) = Inl Assert_Failed"
  using assms
  by (simp add: append_file_def append_buffered_def copy_in_def buf_persist_def write_fd_def Let_def)

lemma buf_persist_ok:
  assumes "full_writes wr" and "fw_ok s" and "n \<le> BUFFER_SIZE"
  shows "\<exists>s'. buf_persist wr n s = Inr (Success, s') \<and> fw_ok s' \<and> same_file s s' \<and>
           buffer_offset (fst s') = 0 \<and> fw_stored s' = fw_stored s @ take n (buffer (fst s)) \<and>
           fw_total s' = fw_stored s'"
proof -
  obtain w d where s: "s = (w, d)" by (cases s)
  with assms(2) obtain c where c: "files d (fw_path w) = Some c" and f: "fd w \<noteq> - 1"
    and len: "length (buffer w) = BUFFER_SIZE" by (auto simp: fw_ok_def)
  have "int (length (take n (buffer w))) = int n" using assms(3) len by simp
  with assms(1) c f show ?thesis
    by (auto simp: buf_persist_def write_fd_def s full_writes_def fw_ok_def len fw_stored_def
        fw_total_def same_file_def Let_def)
qed

lemma copy_in_ok:
  assumes "fw_ok (w, d)" and "buffer_offset w + length xs \<le> BUFFER_SIZE"
  shows "\<exists>w'. copy_in xs w = Inr w' \<and> fw_ok (w', d) \<and> same_file (w, d) (w', d) \<and>
           buffer_offset w' = buffer_offset w + length xs \<and> fw_total (w', d) = fw_total (w, d) @ xs \<and>
           fw_stored (w', d) = fw_stored (w, d)"
  using assms by (auto simp: copy_in_def fw_ok_def fw_total_def fw_stored_def same_file_def)

lemma append_loop_ok:
  assumes "full_writes wr" and "fw_ok s"
  shows "\<exists>s'. append_loop wr data s = Inr s' \<and> fw_ok s' \<and> same_file s s' \<and>
           fw_total s' = fw_total s @ data"
  using assms(2)
proof (induction data arbitrary: s rule: length_induct)
  case (1 data)
  show ?case
  proof (cases "data = []")
    case True
    with 1 show ?thesis by (simp add: append_loop.simps)
  next
    case False
    let ?pre = "if is_buffer_full (fst s)
      then bind_res (buf_persist wr BUFFER_SIZE s) (\<lambda>(rsp, s'). assert_res (status_eq rsp Success) (Inr s'))
      else Inr s"
    have "\<exists>w d. ?pre = Inr (w, d) \<and> fw_ok (w, d) \<and> same_file s (w, d) \<and>
        buffer_offset w < BUFFER_SIZE \<and> fw_total (w, d) = fw_total s"
    proof (cases "is_buffer_full (fst s)")
      case True
      then have "fw_total s = fw_stored s @ take BUFFER_SIZE (buffer (fst s))"
        by (simp add: fw_total_def is_buffer_full_def)
      with True buf_persist_ok [OF assms(1) 1(2), of BUFFER_SIZE] show ?thesis
        by (auto simp: BUFFER_SIZE_def)
    next
      case False
      then have "buffer_offset (fst s) < BUFFER_SIZE"
        using 1(2) by (simp add: fw_ok_def is_buffer_full_def)
      with False 1(2) show ?thesis by (cases s) auto
    qed
    then obtain w d where pre: "?pre = Inr (w, d)" "fw_ok (w, d)" "same_file s (w, d)"
      "buffer_offset w < BUFFER_SIZE" "fw_total (w, d) = fw_total s" by blast
    let ?n = "min (length data) (BUFFER_SIZE - buffer_offset w)"
    have n: "0 < ?n" "?n \<le> length data" "buffer_offset w + ?n \<le> BUFFER_SIZE"
      using False pre(4) by auto
    obtain w' where w': "copy_in (take ?n data) w = Inr w'" "fw_ok (w', d)" "same_file (w, d) (w', d)"
      "fw_total (w', d) = fw_total (w, d) @ take ?n data"
      using copy_in_ok [OF pre(2), of "take ?n data"] n by auto
    have "length (drop ?n data) < length data" using n by simp
    with 1(1) w'(2) obtain s' where s': "append_loop wr (drop ?n data) (w', d) = Inr s'" "fw_ok s'"
      "same_file (w', d) s'" "fw_total s' = fw_total (w', d) @ drop ?n data" by blast
    have "append_loop wr data s = Inr s'"
      by (subst append_loop.simps) (use False pre(1) n(1) w'(1) s'(1) in \<open>simp add: Let_def\<close>)
    moreover have "fw_total s' = fw_total s @ data" using s'(4) w'(4) pre(5) by simp
    moreover have "same_file s s'" using pre(3) w'(3) s'(3) same_file_trans by blast
    ultimately show ?thesis using s'(2) by blast
  qed
qed

lemma append_buffered_ok:
  assumes "full_writes wr" and "fw_ok s"
  shows "\<exists>s'. append_buffered wr data s = Inr s' \<and> fw_ok s' \<and> same_file s s' \<and>
           fw_total s' = fw_total s @ data"
proof -
  obtain w d where s: "s = (w, d)" by (cases s)
  let ?r = "BUFFER_SIZE - buffer_offset w"
  have off: "buffer_offset w \<le> BUFFER_SIZE" using assms(2) by (simp add: fw_ok_def s)
  show ?thesis
  proof (cases "length data < ?r")
    case True
    then have "buffer_offset w + length data \<le> BUFFER_SIZE" by simp
    with copy_in_ok [of w d data] assms(2) True show ?thesis
      by (auto simp: append_buffered_def s Let_def)
  next
    case False
    then have "buffer_offset w + length (take ?r data) = BUFFER_SIZE" using off by simp
    with copy_in_ok [of w d "take ?r data"] assms(2) obtain w' where w':
      "copy_in (take ?r data) w = Inr w'" "fw_ok (w', d)" "same_file (w, d) (w', d)"
      "buffer_offset w' = BUFFER_SIZE" "fw_total (w', d) = fw_total (w, d) @ take ?r data"
      by (auto simp: s)
    obtain s1 where s1: "buf_persist wr BUFFER_SIZE (w', d) = Inr (Success, s1)" "fw_ok s1"
      "same_file (w', d) s1" "fw_total s1 = fw_total (w', d)"
      using buf_persist_ok [OF assms(1) w'(2), of BUFFER_SIZE] w'(4) by (auto simp: fw_total_def)
    obtain s2 where "append_loop wr (drop ?r data) s1 = Inr s2" "fw_ok s2" "same_file s1 s2"
      "fw_total s2 = fw_total s1 @ drop ?r data"
      using append_loop_ok [OF assms(1) s1(2)] by blast
    with False w' s1 show ?thesis
      by (auto simp: append_buffered_def s Let_def intro: same_file_trans)
  qed
qed

text \<open>The view a client has: the status is always \<open>Success\<close>.\<close>

definition sink_app :: "write_count \<Rightarrow> bytes \<Rightarrow> bool \<Rightarrow> writer \<Rightarrow> writer res" where
  "sink_app wr xs now s = bind_res (append_file wr xs (int (length xs)) now s) (\<lambda>(rsp, s'). Inr s')"

lemma append_file_ok:
  assumes "full_writes wr" and "fw_ok s"
  shows "\<exists>s'. append_file wr xs (int (length xs)) now s = Inr (Success, s') \<and> fw_ok s' \<and>
           same_file s s' \<and> fw_total s' = fw_total s @ xs \<and> (now \<longrightarrow> xs \<noteq> [] \<longrightarrow> fw_stored s' = fw_total s')"
proof (cases "xs = []")
  case True
  with assms show ?thesis by (simp add: append_file_def)
next
  case False
  obtain s1 where s1: "append_buffered wr xs s = Inr s1" "fw_ok s1" "same_file s s1"
    "fw_total s1 = fw_total s @ xs" using append_buffered_ok [OF assms] by blast
  have "buffer_offset (fst s1) \<le> BUFFER_SIZE" using s1(2) by (simp add: fw_ok_def)
  from buf_persist_ok [OF assms(1) s1(2) this] obtain s2 where
    s2: "buf_persist wr (buffer_offset (fst s1)) s1 = Inr (Success, s2)" "fw_ok s2" "same_file s1 s2"
    "fw_stored s2 = fw_total s1" "fw_total s2 = fw_stored s2"
    by (auto simp: fw_total_def)
  have run: "append_file wr xs (int (length xs)) now s =
      (if now then Inr (Success, s2) else Inr (Success, s1))"
    using False s1(1) s2(1) by (simp add: append_file_def)
  show ?thesis
  proof (cases now)
    case True
    have "same_file s s2" using s1(3) s2(3) by (rule same_file_trans)
    with True run s1(4) s2 show ?thesis by simp
  next
    case False
    with run s1 show ?thesis by simp
  qed
qed

lemma flush_file_ok:
  assumes "full_writes wr" and "fw_ok s"
  shows "\<exists>s'. flush_file wr s = Inr (Success, s') \<and> fw_ok s' \<and> same_file s s' \<and>
           fw_total s' = fw_total s \<and> fw_stored s' = fw_total s \<and> buffer_offset (fst s') = 0"
proof (cases "buffer_offset (fst s) = 0")
  case True
  with assms show ?thesis by (simp add: flush_file_def fw_total_def)
next
  case False
  with buf_persist_ok [OF assms, of "buffer_offset (fst s)"] assms(2) show ?thesis
    by (auto simp: flush_file_def fw_total_def fw_ok_def)
qed

lemma sync_file_ok:
  assumes "full_writes wr" and "fw_ok s"
  shows "\<exists>s'. sync_file wr s = Inr s' \<and> fw_ok s' \<and> same_file s s' \<and>
           fw_total s' = fw_total s \<and> fw_stored s' = fw_total s"
  using flush_file_ok [OF assms] by (auto simp: sync_file_def)

definition all_written :: write_count where
  "all_written d xs = int (length xs)"

lemma full_writes_all_written: "full_writes all_written"
  by (simp add: full_writes_def all_written_def)

interpretation fw: byte_sink "sink_app all_written" "sync_file all_written" fw_total fw_stored
  "\<lambda>_. True" fw_ok
proof unfold_locales
  fix s xs now
  assume "fw_ok s"
  with append_file_ok [OF full_writes_all_written this, of xs now]
  show "\<exists>s'. sink_app all_written xs now s = Inr s' \<and> fw_ok s' \<and> fw_total s' = fw_total s @ xs \<and>
      (now \<longrightarrow> xs \<noteq> [] \<longrightarrow> fw_stored s' = fw_total s')"
    by (auto simp: sink_app_def)
next
  fix s
  assume "fw_ok s"
  with sync_file_ok [OF full_writes_all_written this]
  show "\<exists>s'. sync_file all_written s = Inr s' \<and> fw_ok s' \<and> fw_total s' = fw_total s \<and>
      fw_stored s' = fw_total s" by blast
qed

subsection \<open>Properties\<close>

text \<open>
  A FileWriter on a new path without a slash makes a directory of that name, cannot open it,
  and aborts in the assertion of the first flush.
\<close>

theorem file_no_slash:
  assumes "\<not> access_ok d path" and "47 \<notin> set path" and "path \<noteq> []" and "0 < length xs" and "length xs < BUFFER_SIZE"
  shows "\<exists>w d'. FileWriter path app_mode d = Inr (w, d') \<and> path \<in> dirs d' \<and>
           append_file wr xs (int (length xs)) True (w, d') = Inl Assert_Failed"
proof -
  obtain w d' where w: "FileWriter path app_mode d = Inr (w, d')" "fd w = - 1"
    "buffer_offset w = 0" "length (buffer w) = BUFFER_SIZE" "path \<in> dirs d'"
    by (rule FileWriter_no_slash [OF assms(1-3)])
  with append_file_closed [OF w(2-4) assms(4,5)] show ?thesis by blast
qed

theorem file_no_slash_witness:
  "\<exists>w d'. FileWriter [119, 97, 108] True \<lparr>files = Map.empty, dirs = {}\<rparr> = Inr (w, d') \<and>
     append_file all_written [1] 1 True (w, d') = Inl Assert_Failed"
  using file_no_slash [of "\<lparr>files = Map.empty, dirs = {}\<rparr>" "[119, 97, 108]" "[1]" True all_written]
  by (auto simp: access_ok_def BUFFER_SIZE_def)

text \<open>
  A reader for a file that is not there keeps the descriptor 0 it starts with, reads from
  standard input as if that were the file, and closes standard input when it is destroyed.
\<close>

theorem file_reader_closes_stdin:
  assumes "\<not> access_ok d path"
  shows "fst (FileReader_destroy (FileReader path d)) = Some 0 \<and>
         (stdin_pread n m = Some xs \<and> length xs = n \<longrightarrow>
            read_file stdin_pread (FileReader path d) d (int n) (int m) = (Success, xs))"
  using assms by (simp add: FileReader_def FileReader_destroy_def read_file_def pread_file_def)

theorem file_reader_closes_stdin_witness:
  "fst (FileReader_destroy (FileReader [102] \<lparr>files = Map.empty, dirs = {}\<rparr>)) = Some 0 \<and>
   read_file (\<lambda>n m. Some (replicate n 7)) (FileReader [102] \<lparr>files = Map.empty, dirs = {}\<rparr>)
     \<lparr>files = Map.empty, dirs = {}\<rparr> (int 2) (int 0) = (Success, replicate 2 7)"
proof -
  have "\<not> access_ok \<lparr>files = Map.empty, dirs = {}\<rparr> [102]" by (simp add: access_ok_def)
  from file_reader_closes_stdin [OF this, of "\<lambda>n m. Some (replicate n 7)" 2 0 "replicate 2 7"] show ?thesis by simp
qed

text \<open>
  C32: Appending any number of bytes and flushing succeeds, ends, and leaves in the file what
  was in it, what was buffered and the new bytes, in this order; no other file changes.
\<close>

theorem file_append_flush:
  assumes "full_writes wr" and "fw_ok s"
  shows "\<exists>s1 s2. append_file wr xs (int (length xs)) now s = Inr (Success, s1) \<and>
           flush_file wr s1 = Inr (Success, s2) \<and> fw_ok s2 \<and> same_file s s2 \<and>
           files (snd s2) (fw_path (fst s)) = Some (fw_total s @ xs)"
proof -
  obtain s1 where s1: "append_file wr xs (int (length xs)) now s = Inr (Success, s1)" "fw_ok s1"
    "same_file s s1" "fw_total s1 = fw_total s @ xs"
    using append_file_ok [OF assms] by blast
  obtain s2 where s2: "flush_file wr s1 = Inr (Success, s2)" "fw_ok s2" "same_file s1 s2"
    "fw_stored s2 = fw_total s1"
    using flush_file_ok [OF assms(1) s1(2)] by blast
  have same: "same_file s s2" using s1(3) s2(3) by (rule same_file_trans)
  then have "files (snd s2) (fw_path (fst s)) = Some (fw_total s @ xs)"
    using s1(4) s2(2,4) by (auto simp: fw_stored_def fw_ok_def same_file_def)
  with s1(1) s2(1,2) same show ?thesis by blast
qed

theorem file_append_flush_witness:
  "\<exists>w d s1 s2. FileWriter [100, 47, 102] True \<lparr>files = [[100, 47, 102] \<mapsto> [9]], dirs = {[100]}\<rparr> = Inr (w, d) \<and>
     append_file all_written (replicate 70000 5) 70000 False (w, d) = Inr (Success, s1) \<and>
     flush_file all_written s1 = Inr (Success, s2) \<and>
     files (snd s2) (fw_path w) = Some (9 # replicate 70000 5)"
proof -
  let ?d = "\<lparr>files = [[100, 47, 102] \<mapsto> [9]], dirs = {[100]}\<rparr> :: fs"
  obtain w d where w: "FileWriter [100, 47, 102] True ?d = Inr (w, d)" "fw_ok (w, d)" "fw_total (w, d) = [9]"
    by (rule FileWriter_opens [of "[100, 47, 102]" ?d True])
      (simp_all add: parent_free_def parent_dir_def ancestors_def)
  from file_append_flush [OF full_writes_all_written w(2), of "replicate 70000 5" False] w(1,3)
  show ?thesis by (simp only: length_replicate of_nat_numeral fst_conv append_Cons append_Nil) blast
qed

end
