(* ===== verification/Wal.thy ===== *)
theory Wal
  imports Codec File_Io
begin

section \<open>The write-ahead log\<close>

text \<open>
  \<open>WALWriter\<close> (\<open>src/wal/wal_writer.h\<close>, \<open>wal_writer.cpp\<close>), \<open>WALReader\<close> (\<open>wal_reader.h\<close>,
  \<open>wal_reader.cpp\<close>) and \<open>WALConfig\<close> (\<open>src/utils/log_format.h\<close>). A record is a checksum, a
  length and the payload. The checksum is \<open>absl::ComputeCrc32c\<close>, code of another library: it
  is the parameter \<open>crc\<close>, of which nothing is assumed.
\<close>

definition kHeaderSize :: nat where
  "kHeaderSize = 8"

text \<open>\<open>(x >> k) & 0xff\<close>, stored in a \<open>char\<close>.\<close>

definition byte_of :: "nat \<Rightarrow> 'a :: len word \<Rightarrow> byte" where
  "byte_of k x = ucast (drop_bit k x AND 0xff)"

definition wal_header :: "u32 \<Rightarrow> u64 \<Rightarrow> bytes" where
  "wal_header checksum len =
     [byte_of 0 checksum, byte_of 8 checksum, byte_of 16 checksum, byte_of 24 checksum,
      byte_of 0 len, byte_of 8 len, byte_of 16 len, byte_of 24 len]"

definition AddLog :: "(bytes \<Rightarrow> u32) \<Rightarrow> write_count \<Rightarrow> bytes \<Rightarrow> writer \<Rightarrow> (DBStatus \<times> writer) res" where
  "AddLog crc wr log s =
     (let len = length log; header = wal_header (crc log) (of_nat len)
      in bind_res (append_file wr header (int kHeaderSize) False s) (\<lambda>(st1, s1).
         assert_res (status_eq st1 Success)
           (bind_res (append_file wr log (to_int32 (int len)) True s1) (\<lambda>(st2, s2).
            bind_res (sync_file wr s2) (\<lambda>s3.
            assert_res (status_eq st2 Success) (Inr (Success, s3)))))))"

definition WALWriter_destroy :: "write_count \<Rightarrow> writer \<Rightarrow> writer res" where
  "WALWriter_destroy wr s = close_file wr s"

record wal_reader =
  readable :: file_reader
  wal_offset :: nat

definition WALReader :: "file_reader \<Rightarrow> wal_reader" where
  "WALReader r = \<lparr>readable = r, wal_offset = 0\<rparr>"

definition VerifyChecksum :: "(bytes \<Rightarrow> u32) \<Rightarrow> bytes \<Rightarrow> u32 \<Rightarrow> bool" where
  "VerifyChecksum crc data expected_checksum \<longleftrightarrow> crc data = expected_checksum"

text \<open>\<open>(uint8_t)h[i] | ((uint8_t)h[i + 1] << 8) | ...\<close>\<close>

definition le_word :: "bytes \<Rightarrow> nat \<Rightarrow> u32" where
  "le_word h i =
     ucast (h ! i) OR push_bit 8 (ucast (h ! (i + 1))) OR push_bit 16 (ucast (h ! (i + 2)))
       OR push_bit 24 (ucast (h ! (i + 3)))"

text \<open>\<open>log->resize(len)\<close>, then a read of some bytes into its front.\<close>

definition resize :: "nat \<Rightarrow> bytes \<Rightarrow> bytes" where
  "resize n xs = take n xs @ replicate (n - length xs) 0"

definition overwrite :: "bytes \<Rightarrow> bytes \<Rightarrow> bytes" where
  "overwrite xs ys = xs @ drop (length xs) ys"

definition ReadLog ::
  "(bytes \<Rightarrow> u32) \<Rightarrow> (nat \<Rightarrow> nat \<Rightarrow> bytes option) \<Rightarrow> fs \<Rightarrow> bytes \<Rightarrow> wal_reader \<Rightarrow> DBStatus \<times> bytes \<times> wal_reader" where
  "ReadLog crc stdin_pread d log r =
     (let (st, header) = read_file stdin_pread (readable r) d (int kHeaderSize)
                           (to_int32 (int (wal_offset r)))
      in if status_neq st Success then (ExecFailed, log, r)
         else
           (let r1 = r\<lparr>wal_offset := wal_offset r + kHeaderSize\<rparr>;
                checksum = le_word header 0; len = le_word header 4;
                log1 = resize (unat len) log;
                (st2, payload) = read_file stdin_pread (readable r1) d (to_int32 (uint len))
                                   (to_int32 (int (wal_offset r1)));
                log2 = overwrite payload log1
            in if status_neq st2 Success then (Corruption, log2, r1)
               else
                 (let r2 = r1\<lparr>wal_offset := nat (int (wal_offset r1) + to_int32 (uint len))\<rparr>
                  in if \<not> VerifyChecksum crc log2 checksum then (Corruption, log2, r2)
                     else (Success, log2, r2))))"

subsection \<open>Records\<close>

definition wal_record :: "(bytes \<Rightarrow> u32) \<Rightarrow> bytes \<Rightarrow> bytes" where
  "wal_record crc log = wal_header (crc log) (of_nat (length log)) @ log"

lemma length_wal_header [simp]: "length (wal_header c n) = 8"
  by (simp add: wal_header_def)

lemma length_wal_record [simp]: "length (wal_record crc log) = 8 + length log"
  by (simp add: wal_record_def)

lemma ucast_byte_of: "(ucast (byte_of k (x :: 'a :: len word)) :: u32) = ucast (ucast (drop_bit k x) :: byte)"
  by (simp add: byte_of_def ucast_and_ff)

lemma le_word_checksum: "le_word (wal_header c n @ xs) 0 = c"
proof -
  have "le_word (wal_header c n @ xs) 0 = byte_slice 0 c OR byte_slice 8 c OR byte_slice 16 c OR byte_slice 24 c"
    by (simp add: le_word_def wal_header_def ucast_byte_of byte_slice_def nth_append)
  then show ?thesis by (simp only: byte_slices_32)
qed

lemma byte_of_ucast: "k + 8 \<le> 32 \<Longrightarrow> byte_of k (x :: u64) = byte_of k (ucast x :: u32)"
  unfolding byte_of_def ucast_and_ff
  by (rule bit_word_eqI) (auto simp: bit_simps)

lemma le_word_len: "le_word (wal_header c n @ xs) 4 = ucast n"
proof -
  have "le_word (wal_header c n @ xs) 4 = byte_slice 0 (ucast n) OR byte_slice 8 (ucast n)
      OR byte_slice 16 (ucast n) OR byte_slice 24 (ucast n)"
    by (simp add: le_word_def wal_header_def byte_of_ucast ucast_byte_of byte_slice_def nth_append)
  then show ?thesis by (simp only: byte_slices_32)
qed

lemma unat_len: "n < 2 ^ 31 \<Longrightarrow> unat (ucast (of_nat n :: u64) :: u32) = n"
  by (simp add: unsigned_ucast_eq unsigned_of_nat take_bit_nat_eq_self)

lemma uint_len: "n < 2 ^ 31 \<Longrightarrow> uint (ucast (of_nat n :: u64) :: u32) = int n"
  using unat_len [of n] by (metis uint_nat)

subsection \<open>Writing\<close>

lemma AddLog_ok:
  assumes "full_writes wr" and "fw_ok s" and "length log < 2 ^ 31"
  shows "\<exists>s'. AddLog crc wr log s = Inr (Success, s') \<and> fw_ok s' \<and> same_file s s' \<and>
           fw_total s' = fw_total s @ wal_record crc log \<and> fw_stored s' = fw_total s'"
proof -
  let ?h = "wal_header (crc log) (of_nat (length log))"
  obtain s1 where s1: "append_file wr ?h (int (length ?h)) False s = Inr (Success, s1)" "fw_ok s1"
    "same_file s s1" "fw_total s1 = fw_total s @ ?h"
    using append_file_ok [OF assms(1,2)] by blast
  obtain s2 where s2: "append_file wr log (int (length log)) True s1 = Inr (Success, s2)" "fw_ok s2"
    "same_file s1 s2" "fw_total s2 = fw_total s1 @ log"
    using append_file_ok [OF assms(1) s1(2)] by blast
  obtain s3 where s3: "sync_file wr s2 = Inr s3" "fw_ok s3" "same_file s2 s3"
    "fw_total s3 = fw_total s2" "fw_stored s3 = fw_total s2"
    using sync_file_ok [OF assms(1) s2(2)] by blast
  have "AddLog crc wr log s = Inr (Success, s3)"
    using s1(1) s2(1) s3(1) assms(3) by (simp add: AddLog_def Let_def kHeaderSize_def)
  moreover have "same_file s s3" using s1(3) s2(3) s3(3) same_file_trans by blast
  ultimately show ?thesis using s1(4) s2(4) s3 by (simp add: wal_record_def)
qed

fun AddLogs :: "(bytes \<Rightarrow> u32) \<Rightarrow> write_count \<Rightarrow> bytes list \<Rightarrow> writer \<Rightarrow> writer res" where
  "AddLogs crc wr [] s = Inr s"
| "AddLogs crc wr (log # logs) s = bind_res (AddLog crc wr log s) (\<lambda>(st, s'). AddLogs crc wr logs s')"

lemma AddLogs_ok:
  assumes "full_writes wr" and "fw_ok s" and "\<forall>log \<in> set logs. length log < 2 ^ 31"
    and "fw_stored s = fw_total s"
  shows "\<exists>s'. AddLogs crc wr logs s = Inr s' \<and> fw_ok s' \<and> same_file s s' \<and>
           fw_stored s' = fw_total s @ concat (map (wal_record crc) logs) \<and> fw_stored s' = fw_total s'"
  using assms(2-4)
proof (induction logs arbitrary: s)
  case Nil
  then show ?case by simp
next
  case (Cons log logs)
  then obtain s1 where s1: "AddLog crc wr log s = Inr (Success, s1)" "fw_ok s1" "same_file s s1"
    "fw_total s1 = fw_total s @ wal_record crc log" "fw_stored s1 = fw_total s1"
    using AddLog_ok [OF assms(1), of s log crc] by auto
  from Cons.IH [OF s1(2) _ s1(5)] Cons.prems(2) obtain s2 where s2: "AddLogs crc wr logs s1 = Inr s2"
    "fw_ok s2" "same_file s1 s2"
    "fw_stored s2 = fw_total s1 @ concat (map (wal_record crc) logs)" "fw_stored s2 = fw_total s2" by auto
  have "same_file s s2" using s1(3) s2(3) by (rule same_file_trans)
  with s1 s2 show ?case by simp
qed

subsection \<open>Reading back\<close>

definition reads :: "fs \<Rightarrow> wal_reader \<Rightarrow> bytes \<Rightarrow> bool" where
  "reads d r c \<longleftrightarrow> rfd (readable r) = 3 \<and> files d (fr_path (readable r)) = Some c \<and> length c < 2 ^ 31"

lemma read_file_reads:
  assumes "reads d r c" and "n + k \<le> length c"
  shows "read_file stdin_pread (readable r) d (int k) (to_int32 (int n)) = (Success, take k (drop n c))"
  using assms by (simp add: read_file_def pread_file_def reads_def)

lemma read_file_short:
  assumes "reads d r c" and "length c < n + k" and "n < 2 ^ 31" and "0 < k"
  shows "fst (read_file stdin_pread (readable r) d (int k) (to_int32 (int n))) = ExecFailed"
  using assms by (auto simp: read_file_def pread_file_def reads_def)

lemma overwrite_resize: "overwrite xs (resize (length xs) ys) = xs"
  by (simp add: overwrite_def resize_def)

lemma ReadLog_record:
  assumes r: "reads d r (xs @ wal_record crc log @ ys)" and off: "wal_offset r = length xs"
  shows "ReadLog crc stdin_pread d old r =
           (Success, log, r\<lparr>wal_offset := length xs + length (wal_record crc log)\<rparr>)"
proof -
  let ?c = "xs @ wal_record crc log @ ys"
  let ?h = "wal_header (crc log) (of_nat (length log))"
  have len: "length log < 2 ^ 31" using r by (simp add: reads_def)
  have c: "?c = xs @ ?h @ log @ ys" by (simp add: wal_record_def)
  have hdr: "read_file stdin_pread (readable r) d (int kHeaderSize) (to_int32 (int (length xs))) = (Success, ?h)"
    using read_file_reads [OF r, of "length xs" 8] by (simp add: kHeaderSize_def wal_record_def)
  have pay: "read_file stdin_pread (readable r) d (int (length log)) (to_int32 (int (length xs + 8))) = (Success, log)"
    using read_file_reads [OF r, of "length xs + 8" "length log"] by (simp add: wal_record_def)
  have words: "le_word ?h 0 = crc log" "le_word ?h 4 = ucast (of_nat (length log) :: u64)"
    using le_word_checksum [of "crc log" "of_nat (length log)" "[]"]
      le_word_len [of "crc log" "of_nat (length log)" "[]"] by simp_all
  have lens: "uint (le_word ?h 4) = int (length log)" "unat (le_word ?h 4) = length log"
    unfolding words(2) using len by (simp_all only: uint_len unat_len)
  have "to_int32 (int (length log)) = int (length log)" using len by simp
  with hdr pay words(1) lens show ?thesis
    by (simp add: ReadLog_def off Let_def status_neq_def kHeaderSize_def overwrite_resize
        VerifyChecksum_def nat_add_distrib)
qed

lemma ReadLog_end:
  assumes "reads d r c" and "wal_offset r < 2 ^ 31" and "length c < wal_offset r + 8"
  shows "ReadLog crc stdin_pread d old r = (ExecFailed, old, r)"
proof -
  obtain p where "read_file stdin_pread (readable r) d (int 8) (to_int32 (int (wal_offset r))) = (ExecFailed, p)"
    using read_file_short [OF assms(1), of "wal_offset r" 8] assms(2,3)
    by (metis prod.collapse zero_less_numeral)
  then show ?thesis by (simp add: ReadLog_def status_neq_def kHeaderSize_def)
qed

text \<open>A record whose payload was cut off, or whose bytes no longer match its checksum.\<close>

lemma ReadLog_torn:
  assumes r: "reads d r (xs @ wal_header cs (of_nat n) @ part)" and off: "wal_offset r = length xs"
    and n: "n < 2 ^ 31" and part: "length part < n"
  shows "fst (ReadLog crc stdin_pread d old r) = Corruption"
proof -
  let ?h = "wal_header cs (of_nat n)"
  have hdr: "read_file stdin_pread (readable r) d (int kHeaderSize) (to_int32 (int (length xs))) = (Success, ?h)"
    using read_file_reads [OF r, of "length xs" 8] by (simp add: kHeaderSize_def)
  have "le_word ?h 4 = ucast (of_nat n :: u64)" using le_word_len [of cs "of_nat n" "[]"] by simp
  then have len: "uint (le_word ?h 4) = int n" using n by (simp only: uint_len)
  have "length xs + 8 < 2 ^ 31" using r by (simp add: reads_def)
  with read_file_short [OF r, of "length xs + 8" n] part
  have "fst (read_file stdin_pread (readable r) d (int n) (to_int32 (int (length xs + 8)))) = ExecFailed"
    by simp
  then obtain p where p: "read_file stdin_pread (readable r) d (int n) (to_int32 (int (length xs + 8))) = (ExecFailed, p)"
    by (metis prod.collapse)
  have "to_int32 (int n) = int n" using n by simp
  with hdr len p show ?thesis
    by (simp add: ReadLog_def off Let_def status_neq_def kHeaderSize_def)
qed

lemma ReadLog_checksum:
  assumes r: "reads d r (xs @ wal_header cs (of_nat (length log)) @ log @ ys)"
    and off: "wal_offset r = length xs" and cs: "crc log \<noteq> cs"
  shows "ReadLog crc stdin_pread d old r = (Corruption, log, r\<lparr>wal_offset := length xs + 8 + length log\<rparr>)"
proof -
  let ?h = "wal_header cs (of_nat (length log))"
  have len: "length log < 2 ^ 31" using r by (simp add: reads_def)
  have hdr: "read_file stdin_pread (readable r) d (int kHeaderSize) (to_int32 (int (length xs))) = (Success, ?h)"
    using read_file_reads [OF r, of "length xs" 8] by (simp add: kHeaderSize_def)
  have pay: "read_file stdin_pread (readable r) d (int (length log)) (to_int32 (int (length xs + 8))) = (Success, log)"
    using read_file_reads [OF r, of "length xs + 8" "length log"] by simp
  have words: "le_word ?h 0 = cs" "le_word ?h 4 = ucast (of_nat (length log) :: u64)"
    using le_word_checksum [of cs "of_nat (length log)" "[]"]
      le_word_len [of cs "of_nat (length log)" "[]"] by simp_all
  have lens: "uint (le_word ?h 4) = int (length log)" "unat (le_word ?h 4) = length log"
    unfolding words(2) using len by (simp_all only: uint_len unat_len)
  have "to_int32 (int (length log)) = int (length log)" using len by simp
  with hdr pay words(1) lens cs show ?thesis
    by (simp add: ReadLog_def off Let_def status_neq_def kHeaderSize_def overwrite_resize
        VerifyChecksum_def nat_add_distrib)
qed

fun ReadLogs ::
  "nat \<Rightarrow> (bytes \<Rightarrow> u32) \<Rightarrow> (nat \<Rightarrow> nat \<Rightarrow> bytes option) \<Rightarrow> fs \<Rightarrow> wal_reader \<Rightarrow> (DBStatus \<times> bytes) list" where
  "ReadLogs 0 crc stdin_pread d r = []"
| "ReadLogs (Suc n) crc stdin_pread d r =
     (let (st, log, r') = ReadLog crc stdin_pread d [] r in (st, log) # ReadLogs n crc stdin_pread d r')"

lemma ReadLogs_prefix:
  assumes "reads d r (xs @ concat (map (wal_record crc) logs) @ ys)" and "wal_offset r = length xs"
  shows "ReadLogs (length logs + m) crc stdin_pread d r = map (\<lambda>log. (Success, log)) logs
           @ ReadLogs m crc stdin_pread d (r\<lparr>wal_offset := length (xs @ concat (map (wal_record crc) logs))\<rparr>)"
  using assms
proof (induction logs arbitrary: xs r)
  case Nil
  then have "r\<lparr>wal_offset := length xs\<rparr> = r" by simp
  then show ?case by simp
next
  case (Cons log logs)
  let ?r = "r\<lparr>wal_offset := length xs + length (wal_record crc log)\<rparr>"
  have step: "ReadLog crc stdin_pread d [] r = (Success, log, ?r)"
    using Cons.prems by (intro ReadLog_record [where ys = "concat (map (wal_record crc) logs) @ ys"]) simp_all
  have "reads d ?r ((xs @ wal_record crc log) @ concat (map (wal_record crc) logs) @ ys)"
    using Cons.prems(1) by (simp add: reads_def)
  from Cons.IH [OF this] step show ?case by (simp add: add.assoc)
qed

lemma ReadLogs_records:
  assumes "reads d r (xs @ concat (map (wal_record crc) logs))" and "wal_offset r = length xs"
  shows "ReadLogs (Suc (length logs)) crc stdin_pread d r
           = map (\<lambda>log. (Success, log)) logs @ [(ExecFailed, [])]"
proof -
  let ?c = "concat (map (wal_record crc) logs)"
  let ?r = "r\<lparr>wal_offset := length (xs @ ?c)\<rparr>"
  have "reads d ?r (xs @ ?c)" and "wal_offset ?r < 2 ^ 31" using assms(1) by (simp_all add: reads_def)
  then have "ReadLog crc stdin_pread d [] ?r = (ExecFailed, [], ?r)" by (intro ReadLog_end) auto
  with ReadLogs_prefix [of d r xs crc logs "[]" 1 stdin_pread] assms show ?thesis by simp
qed

subsection \<open>Reading any file\<close>

text \<open>The header that is read is the one that would be written for what was decoded from it.\<close>

lemma byte_of_le_word:
  "byte_of 0 (le_word h i) = h ! i" "byte_of 8 (le_word h i) = h ! (i + 1)"
  "byte_of 16 (le_word h i) = h ! (i + 2)" "byte_of 24 (le_word h i) = h ! (i + 3)"
  unfolding byte_of_def le_word_def ucast_and_ff
  by (auto simp: bit_simps byte_bit_high intro!: bit_word_eqI)

lemma ucast_up_down: "(ucast (ucast (x :: u32) :: u64) :: u32) = x"
  by (auto simp: bit_simps intro!: bit_word_eqI dest: bit_imp_le_length)

lemma header_of_decoded:
  assumes "length h = 8"
  shows "wal_header (le_word h 0) (of_nat (unat (le_word h 4))) = h"
proof -
  obtain a0 a1 a2 a3 a4 a5 a6 a7 where "h = [a0, a1, a2, a3, a4, a5, a6, a7]"
    using assms by (auto simp: length_Suc_conv eval_nat_numeral)
  then show ?thesis
    using byte_of_le_word [of h 0] byte_of_le_word [of h 4]
    by (simp add: wal_header_def byte_of_ucast ucast_up_down)
qed

lemma read_file_Success:
  assumes "reads d r c" and "fst (read_file stdin_pread (readable r) d k m) = Success"
  shows "0 \<le> k" and "0 \<le> m" and "snd (read_file stdin_pread (readable r) d k m) = take (nat k) (drop (nat m) c)"
    and "length (take (nat k) (drop (nat m) c)) = nat k"
  using assms by (auto simp: read_file_def pread_file_def reads_def split: if_splits)

lemma read_file_status: "code (fst (read_file stdin_pread fr d k m)) = 1 \<Longrightarrow> fst (read_file stdin_pread fr d k m) = Success"
  by (auto simp: read_file_def split: option.splits if_splits)

lemma ReadLog_status: "code (fst (ReadLog crc stdin_pread d old r)) = 1 \<longleftrightarrow> fst (ReadLog crc stdin_pread d old r) = Success"
  by (auto simp: ReadLog_def Let_def split: prod.splits)

text \<open>A record that is read with success stands in the file at the place of the reader.\<close>

lemma ReadLog_sound:
  assumes r: "reads d r c" and off: "wal_offset r \<le> length c"
    and run: "ReadLog crc stdin_pread d old r = (Success, rec, r')"
  shows "\<exists>ys. drop (wal_offset r) c = wal_record crc rec @ ys \<and> r' = r\<lparr>wal_offset := wal_offset r + 8 + length rec\<rparr>"
proof -
  let ?o = "wal_offset r"
  have small: "length c < 2 ^ 31" using r by (simp add: reads_def)
  have o: "to_int32 (int ?o) = int ?o" using off small by simp
  let ?rd1 = "read_file stdin_pread (readable r) d (int kHeaderSize) (to_int32 (int ?o))"
  define h where "h = snd ?rd1"
  have s1: "fst ?rd1 = Success"
    using run by (intro read_file_status) (auto simp: ReadLog_def status_neq_def split: if_splits prod.splits)
  note f1 = read_file_Success [OF r s1]
  have h: "h = take 8 (drop ?o c)" "length h = 8" using f1(3,4) by (simp_all add: h_def kHeaderSize_def o)
  have len8: "?o + 8 \<le> length c" using h off by simp
  then have o8: "to_int32 (int (?o + 8)) = int (?o + 8)" using small by simp
  let ?len = "le_word h 4"
  let ?r1 = "r\<lparr>wal_offset := ?o + kHeaderSize\<rparr>"
  let ?rd2 = "read_file stdin_pread (readable r) d (to_int32 (uint ?len)) (to_int32 (int (?o + kHeaderSize)))"
  have rd1: "?rd1 = (Success, h)" using s1 by (simp add: h_def prod_eq_iff)
  have s2: "fst ?rd2 = Success"
    using run by (intro read_file_status) (auto simp: ReadLog_def rd1 Let_def status_neq_def split: if_splits prod.splits)
  note f2 = read_file_Success [OF r s2]
  define p where "p = snd ?rd2"
  have rd2: "?rd2 = (Success, p)" using s2 by (simp add: p_def prod_eq_iff)
  have ul: "to_int32 (uint ?len) = int (unat ?len)"
  proof -
    have "0 \<le> sint ?len" using f2(1) by (simp add: to_int32_def)
    moreover have "sint ?len < 2 ^ 31" using sint_less [of ?len] by simp
    moreover have "uint ?len = sint ?len mod 2 ^ 32"
      using uint_word_of_int [of "sint ?len", where 'a = 32] by simp
    ultimately have "uint ?len = sint ?len" by simp
    then show ?thesis by (simp add: to_int32_def)
  qed
  have p: "p = take (unat ?len) (drop (?o + 8) c)" "length p = unat ?len"
    using f2(3,4) ul o8 by (simp_all add: p_def kHeaderSize_def nat_add_distrib)
  have next_offset: "nat (int ?o + 8 + uint ?len) = ?o + 8 + unat ?len"
    using uint_nat [of ?len] by arith
  have fin: "rec = p \<and> crc p = le_word h 0 \<and> r' = ?r1\<lparr>wal_offset := ?o + 8 + length p\<rparr>"
    using run rd1 rd2 ul p(2) overwrite_resize [of p old]
    by (auto simp: ReadLog_def Let_def status_neq_def VerifyChecksum_def kHeaderSize_def next_offset split: if_splits)
  have "drop ?o c = h @ drop (?o + 8) c" unfolding h(1) by (metis append_take_drop_id drop_drop add.commute)
  moreover have "drop (?o + 8) c = p @ drop (unat ?len) (drop (?o + 8) c)" unfolding p(1) by (simp only: append_take_drop_id)
  moreover have "wal_record crc p = h @ p"
    using header_of_decoded [OF h(2)] fin p(2) by (simp add: wal_record_def)
  ultimately show ?thesis using fin by (metis append.assoc wal_reader.update_convs(2) wal_reader.surjective wal_reader.select_convs)
qed

text \<open>The client's loop: reading until a record is not read with success.\<close>

fun read_until :: "nat \<Rightarrow> (bytes \<Rightarrow> u32) \<Rightarrow> (nat \<Rightarrow> nat \<Rightarrow> bytes option) \<Rightarrow> fs \<Rightarrow> wal_reader \<Rightarrow> (bytes list \<times> DBStatus) option" where
  "read_until 0 crc stdin_pread d r = None"
| "read_until (Suc n) crc stdin_pread d r =
     (let (st, rec, r') = ReadLog crc stdin_pread d [] r
      in if status_eq st Success
         then map_option (\<lambda>(recs, st). (rec # recs, st)) (read_until n crc stdin_pread d r')
         else Some ([], st))"

definition starts_record :: "(bytes \<Rightarrow> u32) \<Rightarrow> bytes \<Rightarrow> bool" where
  "starts_record crc c \<longleftrightarrow> (\<exists>rec ys. c = wal_record crc rec @ ys)"

lemma read_until_exact:
  assumes r: "reads d r c" and off: "wal_offset r \<le> length c" and fuel: "length c - wal_offset r < 8 * n"
  shows "\<exists>recs st rest. read_until n crc stdin_pread d r = Some (recs, st) \<and> st \<noteq> Success \<and>
           drop (wal_offset r) c = concat (map (wal_record crc) recs) @ rest \<and> \<not> starts_record crc rest"
  using assms
proof (induction n arbitrary: r)
  case 0
  then show ?case by simp
next
  case (Suc n)
  let ?o = "wal_offset r"
  obtain st rec r' where run: "ReadLog crc stdin_pread d [] r = (st, rec, r')" by (metis prod_cases3)
  show ?case
  proof (cases "st = Success")
    case True
    with ReadLog_sound [OF Suc.prems(1,2)] run obtain ys where ys: "drop ?o c = wal_record crc rec @ ys"
      "r' = r\<lparr>wal_offset := ?o + 8 + length rec\<rparr>" by blast
    have "length (drop ?o c) = 8 + length rec + length ys" unfolding ys(1) by simp
    then have l: "length c = ?o + 8 + length rec + length ys" using Suc.prems(2) by simp
    have "reads d r' c" using Suc.prems(1) by (simp add: ys(2) reads_def)
    from Suc.IH [OF this] l Suc.prems(3) obtain recs st' rest where
      rest: "read_until n crc stdin_pread d r' = Some (recs, st')" "st' \<noteq> Success"
      "drop (wal_offset r') c = concat (map (wal_record crc) recs) @ rest" "\<not> starts_record crc rest"
      by (auto simp: ys(2))
    have "drop (wal_offset r') c = ys"
      using ys(1) by (simp add: ys(2)) (metis add.assoc add.commute append_eq_conv_conj drop_drop length_wal_record)
    with rest ys(1) run True show ?thesis by (intro exI [of _ "rec # recs"] exI [of _ st'] exI [of _ rest]) simp
  next
    case False
    have "\<not> starts_record crc (drop ?o c)"
    proof
      assume "starts_record crc (drop ?o c)"
      then obtain rc ys where "drop ?o c = wal_record crc rc @ ys" by (auto simp: starts_record_def)
      then have "c = take ?o c @ wal_record crc rc @ ys" by (metis append_take_drop_id)
      with Suc.prems(1) have "reads d r (take ?o c @ wal_record crc rc @ ys)" by simp
      from ReadLog_record [OF this] Suc.prems(2) run False show False by simp
    qed
    moreover have "\<not> status_eq st Success"
      using ReadLog_status [of crc stdin_pread d "[]" r] run False by (simp add: status_eq_def)
    ultimately show ?thesis using run False by (intro exI [of _ "[]"] exI [of _ st] exI [of _ "drop ?o c"]) simp
  qed
qed

subsection \<open>Properties\<close>

text \<open>
  A record whose stored checksum is not that of its payload is reported as Corruption, and the
  reader stands behind it, so that the records after it can be read.
\<close>

theorem wal_checksum:
  assumes "reads d r (xs @ wal_header cs (of_nat (length log)) @ log @ wal_record crc next_log)"
    and "wal_offset r = length xs" and "crc log \<noteq> cs"
  shows "\<exists>r'. ReadLog crc stdin_pread d [] r = (Corruption, log, r') \<and>
           fst (ReadLog crc stdin_pread d [] r') = Success"
proof -
  let ?bad = "wal_header cs (of_nat (length log)) @ log"
  let ?r = "r\<lparr>wal_offset := length (xs @ ?bad)\<rparr>"
  have bad: "ReadLog crc stdin_pread d [] r = (Corruption, log, ?r)"
    using ReadLog_checksum [where crc = crc and xs = xs and log = log and cs = cs and ys = "wal_record crc next_log", OF assms] by (simp add: add.assoc)
  have "reads d ?r ((xs @ ?bad) @ wal_record crc next_log @ [])" using assms(1) by (simp add: reads_def)
  from ReadLog_record [OF this] bad show ?thesis by simp
qed

theorem wal_checksum_witness:
  "\<exists>c r'. ReadLog (\<lambda>xs. 7) (\<lambda>n k. None) \<lparr>files = [[119] \<mapsto> c], dirs = {}\<rparr> []
     (WALReader \<lparr>rfd = 3, fr_path = [119]\<rparr>) = (Corruption, [1, 2], r')"
proof -
  let ?c = "[] @ wal_header 8 (of_nat (length [1, 2 :: byte])) @ [1, 2] @ wal_record (\<lambda>xs. 7) [5]"
  have "reads \<lparr>files = [[119] \<mapsto> ?c], dirs = {}\<rparr> (WALReader \<lparr>rfd = 3, fr_path = [119]\<rparr>) ?c"
    by (simp add: reads_def WALReader_def)
  then have "\<exists>r'. ReadLog (\<lambda>xs. 7) (\<lambda>n k. None) \<lparr>files = [[119] \<mapsto> ?c], dirs = {}\<rparr> []
        (WALReader \<lparr>rfd = 3, fr_path = [119]\<rparr>) = (Corruption, [1, 2], r') \<and>
      fst (ReadLog (\<lambda>xs. 7) (\<lambda>n k. None) \<lparr>files = [[119] \<mapsto> ?c], dirs = {}\<rparr> [] r') = Success"
    by (rule wal_checksum) (simp_all add: WALReader_def)
  then show ?thesis by blast
qed







end
