(* ===== verification/Murmur.thy ===== *)
theory Murmur
  imports Db_Prelude
begin

section \<open>MurmurHash2\<close>

text \<open>
  \<open>murmur_hash2\<close>, of which the repository has two copies: \<open>smallkv::utils::murmur_hash2\<close> in
  \<open>src/utils/murmur_hash.h\<close> and \<open>smallkv::murmur_hash2\<close> in \<open>src/filter/bloom_filter.cpp\<close>. All
  arithmetic is on \<open>uint32_t\<close> and wraps; a block of four bytes is read as a little-endian
  word. \<open>murmur_hash2 data len\<close> hashes the first \<open>len\<close> bytes behind the pointer.
\<close>

definition murmur_seed :: u32 where "murmur_seed = 0xbc451d34"
definition murmur_m :: u32 where "murmur_m = 0x5bd1e995"
definition murmur_r :: nat where "murmur_r = 24"

definition read_u32 :: "byte \<Rightarrow> byte \<Rightarrow> byte \<Rightarrow> byte \<Rightarrow> u32" where
  "read_u32 b0 b1 b2 b3 =
     ucast b0 OR push_bit 8 (ucast b1) OR push_bit 16 (ucast b2) OR push_bit 24 (ucast b3)"

definition mix_k :: "u32 \<Rightarrow> u32" where
  "mix_k k = (let k1 = k * murmur_m; k2 = k1 XOR drop_bit murmur_r k1 in k2 * murmur_m)"

fun murmur_loop :: "u32 \<Rightarrow> bytes \<Rightarrow> u32" where
  "murmur_loop h (b0 # b1 # b2 # b3 # rest) =
     murmur_loop ((h * murmur_m) XOR mix_k (read_u32 b0 b1 b2 b3)) rest"
| "murmur_loop h [b0, b1, b2] =
     (h XOR push_bit 16 (ucast b2) XOR push_bit 8 (ucast b1) XOR ucast b0) * murmur_m"
| "murmur_loop h [b0, b1] = (h XOR push_bit 8 (ucast b1) XOR ucast b0) * murmur_m"
| "murmur_loop h [b0] = (h XOR ucast b0) * murmur_m"
| "murmur_loop h [] = h"

definition finish :: "u32 \<Rightarrow> u32" where
  "finish h =
     (let h' = (h XOR drop_bit 13 h) * murmur_m in h' XOR drop_bit 15 h')"

definition murmur_hash2 :: "bytes \<Rightarrow> u32 \<Rightarrow> u32 res" where
  "murmur_hash2 data len =
     (if unat len \<le> length data
      then Inr (finish (murmur_loop (murmur_seed XOR len) (take (unat len) data)))
      else Inl Undefined_Behaviour)"

subsection \<open>The mixing steps lose nothing\<close>

text \<open>\<open>murmur_m\<close> is odd, so that multiplication by it can be undone.\<close>

definition m_inverse :: u32 where "m_inverse = 0xe59b19bd"

lemma m_inverse: "murmur_m * m_inverse = 1"
  by (simp add: murmur_m_def m_inverse_def)

lemma mult_m_inj: "x * murmur_m = y * murmur_m \<longleftrightarrow> x = y"
proof
  assume "x * murmur_m = y * murmur_m"
  then have "x * (murmur_m * m_inverse) = y * (murmur_m * m_inverse)" by (metis mult.assoc)
  then show "x = y" by (simp add: m_inverse)
qed simp

definition undo_xor_drop :: "nat \<Rightarrow> u32 \<Rightarrow> u32" where
  "undo_xor_drop k y = y XOR drop_bit k y XOR drop_bit (k + k) y"

lemma xor_drop_undo:
  assumes "11 \<le> k"
  shows "undo_xor_drop k (x XOR drop_bit k x) = x"
proof (rule bit_word_eqI)
  fix n assume "n < LENGTH(32)"
  have "\<not> bit x (n + (k + (k + k)))" using assms bit_imp_le_length [of x "n + (k + (k + k))"] by auto
  then show "bit (undo_xor_drop k (x XOR drop_bit k x)) n = bit x n"
    by (auto simp: undo_xor_drop_def bit_simps ac_simps)
qed

lemma xor_drop_inj: "11 \<le> k \<Longrightarrow> (x :: u32) XOR drop_bit k x = y XOR drop_bit k y \<longleftrightarrow> x = y"
  using xor_drop_undo by metis

lemma finish_inj: "finish x = finish y \<longleftrightarrow> x = y"
  by (simp add: finish_def Let_def xor_drop_inj mult_m_inj)

lemma mix_k_inj: "mix_k x = mix_k y \<longleftrightarrow> x = y"
  by (simp add: mix_k_def Let_def murmur_r_def xor_drop_inj mult_m_inj)

lemma xor_cancel: "(a :: 'a :: len word) XOR b = a XOR c \<longleftrightarrow> b = c"
  by (metis xor.assoc xor.left_neutral xor_self_eq)

lemma bit_read_u32:
  "bit (read_u32 b0 b1 b2 b3) i \<longleftrightarrow>
     i < 32 \<and> (if i < 8 then bit b0 i else if i < 16 then bit b1 (i - 8)
       else if i < 24 then bit b2 (i - 16) else bit b3 (i - 24))"
  by (auto simp: read_u32_def bit_simps byte_bit_high)

lemma read_u32_inj:
  assumes "read_u32 a0 a1 a2 a3 = read_u32 b0 b1 b2 b3"
  shows "a0 = b0 \<and> a1 = b1 \<and> a2 = b2 \<and> a3 = b3"
proof -
  have eq: "bit (read_u32 a0 a1 a2 a3) i = bit (read_u32 b0 b1 b2 b3) i" for i
    using assms by simp
  have "bit a0 i = bit b0 i \<and> bit a1 i = bit b1 i \<and> bit a2 i = bit b2 i \<and> bit a3 i = bit b3 i"
    if "i < 8" for i
    using that eq [of i] eq [of "i + 8"] eq [of "i + 16"] eq [of "i + 24"] by (simp add: bit_read_u32)
  then show ?thesis by (auto intro!: bit_word_eqI)
qed

text \<open>Whatever was hashed before, two blocks that differ give states that differ.\<close>

lemma murmur_block_inj:
  "murmur_loop h [a0, a1, a2, a3] = murmur_loop h [b0, b1, b2, b3] \<longleftrightarrow>
     [a0, a1, a2, a3] = [b0, b1, b2, b3]"
  using read_u32_inj [of a0 a1 a2 a3 b0 b1 b2 b3] by (auto simp: xor_cancel mix_k_inj)

lemma length_4:
  assumes "length xs = 4"
  obtains a b c d where "xs = [a, b, c, d]"
  using assms by (auto simp: numeral_eq_Suc length_Suc_conv)

lemma murmur_total: "length k < 2 ^ 32 \<Longrightarrow>
    murmur_hash2 k (of_nat (length k)) = Inr (finish (murmur_loop (murmur_seed XOR of_nat (length k)) k))"
  by (simp add: murmur_hash2_def unat_of_nat)

lemma murmur_ok: "\<exists>h. murmur_hash2 k (of_nat (length k)) = Inr h"
  by (simp add: murmur_hash2_def unat_of_nat)

subsection \<open>Properties\<close>

text \<open>
  Keys of four bytes never collide: murmur_hash2 returns for every one and maps different keys
  to different hashes.
\<close>

theorem murmur_no_collision4:
  assumes "length k = 4" and "length k' = 4" and "k \<noteq> k'"
  shows "\<exists>h h'. murmur_hash2 k 4 = Inr h \<and> murmur_hash2 k' 4 = Inr h' \<and> h \<noteq> h'"
proof -
  obtain a b c d where k: "k = [a, b, c, d]" by (rule length_4 [OF assms(1)])
  obtain a' b' c' d' where k': "k' = [a', b', c', d']" by (rule length_4 [OF assms(2)])
  have "murmur_loop (murmur_seed XOR 4) k \<noteq> murmur_loop (murmur_seed XOR 4) k'"
    using assms(3) unfolding k k' murmur_block_inj .
  with murmur_total [of k] murmur_total [of k'] assms(1,2) show ?thesis by (simp add: finish_inj)
qed

theorem murmur_no_collision4_witness:
  "\<exists>h h'. murmur_hash2 [1, 2, 3, 4] 4 = Inr h \<and> murmur_hash2 [1, 2, 3, 5] 4 = Inr h' \<and> h \<noteq> h'"
  by (rule murmur_no_collision4) simp_all

end
