(* ===== verification/Bloom.thy ===== *)
theory Bloom
  imports Murmur
begin

section \<open>The Bloom filter\<close>

text \<open>
  \<open>BloomFilter\<close> (\<open>src/filter/bloom_filter.h\<close>, \<open>bloom_filter.cpp\<close>), an implementation of the
  interface \<open>FilterPolicy\<close> (\<open>filter_policy.h\<close>). Hashes and bit positions are \<open>uint32_t\<close>
  throughout, \<open>int32_t\<close> members are integers. The constructor computes with \<open>double\<close>: the
  cast \<open>static_cast<int32_t>(std::log(false_positive) * keys_num / 0.48...)\<close> is its argument
  \<open>log_quot\<close>. The product \<open>0.6931471805599453 * bits_per_key\<close> is computed exactly with the
  binary value of the constant; rounding could change its integer part only far above 32,
  where the result is clamped.
\<close>

record bloom =
  hash_func_num :: int
  bits_per_key :: int
  bits_array :: bytes

definition BloomFilter0 :: bloom where
  "BloomFilter0 = \<lparr>hash_func_num = 0, bits_per_key = 0, bits_array = []\<rparr>"

definition clamp_hash_num :: "int \<Rightarrow> int" where
  "clamp_hash_num n = (let n1 = (if n < 1 then 1 else n) in if n1 > 32 then 32 else n1)"

definition BloomFilter :: "int \<Rightarrow> int \<Rightarrow> bloom res" where
  "BloomFilter keys_num log_quot =
     (let bits_num = - 1 * log_quot;
          bytes_num = cdiv (bits_num + 7) 8
      in if bits_num + 7 \<ge> 2 ^ 31 then Inl Undefined_Behaviour
         else if bytes_num < 0 then Inl Exception_Thrown
         else
           (let arr = replicate (nat bytes_num) 0; bits = int (length arr) * 8
            in if keys_num = 0 then Inl Undefined_Behaviour
               else
                 (let per_key = cdiv bits keys_num
                  in Inr \<lparr>hash_func_num = clamp_hash_num (cdiv (6243314768165359 * per_key) (2 ^ 53)),
                          bits_per_key = per_key, bits_array = arr\<rparr>)))"

definition get_hash_num :: "bloom \<Rightarrow> int" where
  "get_hash_num f = hash_func_num f"

definition filter_data :: "bloom \<Rightarrow> bytes" where
  "filter_data f = bits_array f"

definition filter_size :: "bloom \<Rightarrow> nat" where
  "filter_size f = length (bits_array f)"

definition policy_name :: bytes where
  "policy_name = str ''BloomFilter''"

definition bits_size :: "bytes \<Rightarrow> u32" where
  "bits_size bits = of_nat (length bits * 8)"

text \<open>\<open>(h >> 17) | (h << 15)\<close>\<close>

definition rotate17 :: "u32 \<Rightarrow> u32" where
  "rotate17 h = drop_bit 17 h OR push_bit 15 h"

text \<open>The \<open>j\<close>-loop of \<open>create_filter\<close> and \<open>add\<close>: \<open>n\<close> rounds are left.\<close>

fun set_bits :: "nat \<Rightarrow> u32 \<Rightarrow> u32 \<Rightarrow> u32 \<Rightarrow> bytes \<Rightarrow> bytes res" where
  "set_bits 0 sz h delta bits = Inr bits"
| "set_bits (Suc n) sz h delta bits =
     (if sz = 0 then Inl Undefined_Behaviour
      else
        (let bit_pos = h mod sz; i = unat (bit_pos div 8)
         in if i < length bits
            then set_bits n sz (h + delta) delta
                   (bits[i := bits ! i OR push_bit (unat (bit_pos mod 8)) 1])
            else Inl Undefined_Behaviour))"

fun test_bits :: "nat \<Rightarrow> u32 \<Rightarrow> u32 \<Rightarrow> u32 \<Rightarrow> bytes \<Rightarrow> bool res" where
  "test_bits 0 sz h delta bits = Inr True"
| "test_bits (Suc n) sz h delta bits =
     (if sz = 0 then Inl Undefined_Behaviour
      else
        (let bit_pos = h mod sz; i = unat (bit_pos div 8)
         in if i < length bits
            then if (bits ! i) AND push_bit (unat (bit_pos mod 8)) 1 = 0 then Inr False
                 else test_bits n sz (h + delta) delta bits
            else Inl Undefined_Behaviour))"

definition key_hash :: "bytes \<Rightarrow> u32 res" where
  "key_hash key = murmur_hash2 key (of_nat (length key))"

definition insert_key :: "u32 \<Rightarrow> bytes \<Rightarrow> bloom \<Rightarrow> bloom res" where
  "insert_key sz key f =
     bind_res (key_hash key) (\<lambda>h.
     bind_res (set_bits (nat (hash_func_num f)) sz h (rotate17 h) (bits_array f)) (\<lambda>bits.
       Inr (f\<lparr>bits_array := bits\<rparr>)))"

fun insert_keys :: "u32 \<Rightarrow> bytes list \<Rightarrow> bloom \<Rightarrow> bloom res" where
  "insert_keys sz [] f = Inr f"
| "insert_keys sz (key # keys) f = bind_res (insert_key sz key f) (insert_keys sz keys)"

definition create_filter :: "bytes list \<Rightarrow> bloom \<Rightarrow> bloom res" where
  "create_filter keys f = insert_keys (bits_size (bits_array f)) keys f"

definition filter_add :: "bytes \<Rightarrow> bloom \<Rightarrow> bloom res" where
  "filter_add key f = (if key = [] then Inr f else insert_key (bits_size (bits_array f)) key f)"

definition filter_exists :: "bytes \<Rightarrow> bloom \<Rightarrow> bool res" where
  "filter_exists key f =
     (if key = [] then Inr False
      else
        bind_res (key_hash key) (\<lambda>h.
          test_bits (nat (hash_func_num f)) (bits_size (bits_array f)) h (rotate17 h) (bits_array f)))"

definition create_filter2 :: "int \<Rightarrow> bytes \<Rightarrow> bloom \<Rightarrow> bloom" where
  "create_filter2 hash_num arr f = f\<lparr>hash_func_num := hash_num, bits_array := arr\<rparr>"

subsection \<open>Bits of an array\<close>

definition bit_set :: "bytes \<Rightarrow> nat \<Rightarrow> bool" where
  "bit_set bits p \<longleftrightarrow> p div 8 < length bits \<and> bit (bits ! (p div 8)) (p mod 8)"

text \<open>The positions the rounds visit.\<close>

fun positions :: "nat \<Rightarrow> u32 \<Rightarrow> u32 \<Rightarrow> u32 \<Rightarrow> nat list" where
  "positions 0 sz h delta = []"
| "positions (Suc n) sz h delta = unat (h mod sz) # positions n sz (h + delta) delta"

definition usable :: "bloom \<Rightarrow> bool" where
  "usable f \<longleftrightarrow> bits_array f \<noteq> [] \<and> length (bits_array f) < 2 ^ 29"

lemma unat_bits_size: "length bits < 2 ^ 29 \<Longrightarrow> unat (bits_size bits) = length bits * 8"
  unfolding bits_size_def unat_of_nat by simp

lemma bits_size_nonzero:
  assumes "bits \<noteq> []" and "length bits < 2 ^ 29"
  shows "bits_size bits \<noteq> 0"
proof
  assume "bits_size bits = 0"
  then have "length bits * 8 = 0" using unat_bits_size [OF assms(2)] by simp
  with assms(1) show False by simp
qed

lemma position_in_range:
  assumes "bits \<noteq> []" and "length bits < 2 ^ 29"
  shows "unat (h mod bits_size bits) div 8 < length bits"
proof -
  have "unat (h mod bits_size bits) < length bits * 8"
    using assms(1) by (simp add: unat_mod unat_bits_size [OF assms(2)])
  then show ?thesis by auto
qed

lemma unat_byte_index:
  "unat ((p :: u32) div 8) = unat p div 8" "unat (p mod 8) = unat p mod 8"
  by (simp_all add: unat_div unat_mod)

lemma bit_set_update:
  assumes "p div 8 < length bits"
  shows "bit_set (bits[p div 8 := bits ! (p div 8) OR 2 ^ (p mod 8)]) q \<longleftrightarrow> bit_set bits q \<or> q = p"
proof (cases "q div 8 = p div 8")
  case True
  have "bit (bits ! (p div 8) OR 2 ^ (p mod 8)) (q mod 8) \<longleftrightarrow>
      bit (bits ! (p div 8)) (q mod 8) \<or> q mod 8 = p mod 8"
    by (auto simp: bit_simps)
  moreover have "q mod 8 = p mod 8 \<longleftrightarrow> q = p" using True by (metis div_mult_mod_eq)
  ultimately show ?thesis using assms True by (simp add: bit_set_def)
next
  case False
  then show ?thesis using assms by (auto simp: bit_set_def)
qed

lemma test_bit_byte: "(b :: byte) AND 2 ^ n = 0 \<longleftrightarrow> \<not> bit b n"
  by (rule and_exp_eq_0_iff_not_bit)

lemma set_bits_positions:
  assumes "bits \<noteq> []" and "length bits < 2 ^ 29" and "length arr = length bits"
  shows "\<exists>arr'. set_bits n (bits_size bits) h delta arr = Inr arr' \<and> length arr' = length bits \<and>
           (\<forall>q. bit_set arr' q \<longleftrightarrow> bit_set arr q \<or> q \<in> set (positions n (bits_size bits) h delta))"
  using assms(3)
proof (induction n arbitrary: h arr)
  case 0
  then show ?case by simp
next
  case (Suc n)
  note nz = bits_size_nonzero [OF assms(1,2)] and pos = position_in_range [OF assms(1,2), of h]
  let ?p = "unat (h mod bits_size bits)"
  let ?arr = "arr[?p div 8 := arr ! (?p div 8) OR 2 ^ (?p mod 8)]"
  have i: "?p div 8 < length arr" using pos Suc.prems by simp
  obtain arr' where arr': "set_bits n (bits_size bits) (h + delta) delta ?arr = Inr arr'"
    "length arr' = length bits"
    "\<forall>q. bit_set arr' q \<longleftrightarrow> bit_set ?arr q \<or> q \<in> set (positions n (bits_size bits) (h + delta) delta)"
    using Suc.IH [of ?arr "h + delta"] Suc.prems by auto
  from nz i arr'(1) have "set_bits (Suc n) (bits_size bits) h delta arr = Inr arr'"
    by (simp add: Let_def unat_byte_index)
  moreover from arr'(3) have "\<forall>q. bit_set arr' q \<longleftrightarrow>
      bit_set arr q \<or> q \<in> set (positions (Suc n) (bits_size bits) h delta)"
    by (simp add: bit_set_update [OF i] disj_ac)
  ultimately show ?case using arr'(2) by blast
qed

lemma test_bits_positions:
  assumes "bits \<noteq> []" and "length bits < 2 ^ 29"
  shows "test_bits n (bits_size bits) h delta bits =
           Inr (\<forall>q \<in> set (positions n (bits_size bits) h delta). bit_set bits q)"
proof (induction n arbitrary: h)
  case 0
  then show ?case by simp
next
  case (Suc n)
  note nz = bits_size_nonzero [OF assms] and i = position_in_range [OF assms, of h]
  let ?p = "unat (h mod bits_size bits)"
  from i have "bits ! (?p div 8) AND 2 ^ (?p mod 8) = 0 \<longleftrightarrow> \<not> bit_set bits ?p"
    by (simp add: test_bit_byte bit_set_def)
  with Suc nz i show ?case by (simp add: Let_def unat_byte_index)
qed

subsection \<open>Keys and their bits\<close>

definition key_bits :: "bloom \<Rightarrow> bytes \<Rightarrow> nat set" where
  "key_bits f key =
     (case key_hash key of Inl _ \<Rightarrow> {}
      | Inr h \<Rightarrow> set (positions (nat (hash_func_num f)) (bits_size (bits_array f)) h (rotate17 h)))"

definition holds_key :: "bloom \<Rightarrow> bytes \<Rightarrow> bool" where
  "holds_key f key \<longleftrightarrow> (\<forall>q \<in> key_bits f key. bit_set (bits_array f) q)"

definition same_shape :: "bloom \<Rightarrow> bloom \<Rightarrow> bool" where
  "same_shape f g \<longleftrightarrow> hash_func_num f = hash_func_num g \<and> length (bits_array f) = length (bits_array g)"

lemma same_shape_trans: "same_shape f g \<Longrightarrow> same_shape g h \<Longrightarrow> same_shape f h"
  by (simp add: same_shape_def)

lemma same_shape_simps:
  assumes "same_shape f g"
  shows "key_bits g = key_bits f" and "usable g = usable f"
    and "bits_size (bits_array g) = bits_size (bits_array f)"
  using assms by (auto simp: same_shape_def key_bits_def usable_def bits_size_def fun_eq_iff split: sum.split)

lemma insert_key_effect:
  assumes "usable f"
  obtains g where "insert_key (bits_size (bits_array f)) key f = Inr g" and "same_shape f g"
    and "\<forall>q. bit_set (bits_array g) q \<longleftrightarrow> bit_set (bits_array f) q \<or> q \<in> key_bits f key"
proof -
  obtain h where h: "key_hash key = Inr h" using murmur_ok [of key] by (auto simp: key_hash_def)
  obtain arr where arr: "set_bits (nat (hash_func_num f)) (bits_size (bits_array f)) h (rotate17 h) (bits_array f) = Inr arr"
    "length arr = length (bits_array f)"
    "\<forall>q. bit_set arr q \<longleftrightarrow> bit_set (bits_array f) q \<or>
       q \<in> set (positions (nat (hash_func_num f)) (bits_size (bits_array f)) h (rotate17 h))"
    using set_bits_positions [OF _ _ refl, of "bits_array f"] assms unfolding usable_def by blast
  show thesis
    by (rule that [of "f\<lparr>bits_array := arr\<rparr>"])
      (simp_all add: insert_key_def h arr same_shape_def key_bits_def)
qed

lemma filter_exists_usable:
  assumes "usable f"
  shows "filter_exists key f = Inr (key \<noteq> [] \<and> holds_key f key)"
proof -
  obtain h where h: "key_hash key = Inr h" using murmur_ok [of key] by (auto simp: key_hash_def)
  have "filter_exists key f = Inr (holds_key f key)" if "key \<noteq> []"
    using that assms
    by (simp add: filter_exists_def h holds_key_def key_bits_def usable_def test_bits_positions)
  then show ?thesis by (auto simp: filter_exists_def)
qed

lemma filter_add_effect:
  assumes "usable f"
  obtains g where "filter_add key f = Inr g" and "usable g" and "same_shape f g"
    and "\<forall>q. bit_set (bits_array g) q \<longleftrightarrow> bit_set (bits_array f) q \<or> key \<noteq> [] \<and> q \<in> key_bits f key"
proof (cases "key = []")
  case True
  with assms that [of f] show thesis by (simp add: filter_add_def same_shape_def)
next
  case False
  obtain g where "insert_key (bits_size (bits_array f)) key f = Inr g" "same_shape f g"
    "\<forall>q. bit_set (bits_array g) q \<longleftrightarrow> bit_set (bits_array f) q \<or> q \<in> key_bits f key"
    by (rule insert_key_effect [OF assms])
  with False assms that [of g] same_shape_simps(2) show thesis by (simp add: filter_add_def)
qed

lemma holds_key_grow:
  assumes "same_shape f g" and "\<forall>q. bit_set (bits_array f) q \<longrightarrow> bit_set (bits_array g) q"
  shows "holds_key f key \<Longrightarrow> holds_key g key"
  using assms by (auto simp: holds_key_def same_shape_simps(1))

subsection \<open>Creating a filter\<close>

lemma insert_keys_effect:
  assumes "usable f"
  shows "\<exists>g. insert_keys (bits_size (bits_array f)) keys f = Inr g \<and> same_shape f g \<and>
           (\<forall>q. bit_set (bits_array g) q \<longleftrightarrow>
              bit_set (bits_array f) q \<or> (\<exists>key \<in> set keys. q \<in> key_bits f key))"
  using assms
proof (induction keys arbitrary: f)
  case Nil
  then show ?case by (simp add: same_shape_def)
next
  case (Cons key keys)
  obtain g where g: "insert_key (bits_size (bits_array f)) key f = Inr g" "same_shape f g"
    "\<forall>q. bit_set (bits_array g) q \<longleftrightarrow> bit_set (bits_array f) q \<or> q \<in> key_bits f key"
    by (rule insert_key_effect [OF Cons.prems])
  have "usable g" using Cons.prems same_shape_simps(2) [OF g(2)] by simp
  from Cons.IH [OF this] obtain k where k: "insert_keys (bits_size (bits_array g)) keys g = Inr k"
    "same_shape g k" "\<forall>q. bit_set (bits_array k) q \<longleftrightarrow>
       bit_set (bits_array g) q \<or> (\<exists>key \<in> set keys. q \<in> key_bits g key)" by blast
  from g(1) k(1) have "insert_keys (bits_size (bits_array f)) (key # keys) f = Inr k"
    by (simp add: same_shape_simps(3) [OF g(2)])
  moreover have "same_shape f k" using g(2) k(2) by (rule same_shape_trans)
  moreover have "\<forall>q. bit_set (bits_array k) q \<longleftrightarrow>
      bit_set (bits_array f) q \<or> (\<exists>key \<in> set (key # keys). q \<in> key_bits f key)"
    using g(3) k(3) by (auto simp: same_shape_simps(1) [OF g(2)])
  ultimately show ?case by blast
qed

lemma create_filter_effect:
  assumes "usable f"
  obtains g where "create_filter keys f = Inr g" and "same_shape f g" and "usable g"
    and "\<forall>q. bit_set (bits_array g) q \<longleftrightarrow>
      bit_set (bits_array f) q \<or> (\<exists>key \<in> set keys. q \<in> key_bits f key)"
  using insert_keys_effect [OF assms, of keys] assms that same_shape_simps(2)
  unfolding create_filter_def by metis

lemma create_filter_holds:
  assumes "usable f" and "create_filter keys f = Inr g" and "key \<in> set keys"
  shows "holds_key g key" and "usable g"
proof -
  from assms(1) obtain g' where g': "create_filter keys f = Inr g'" "same_shape f g'" "usable g'"
    "\<forall>q. bit_set (bits_array g') q \<longleftrightarrow>
      bit_set (bits_array f) q \<or> (\<exists>key \<in> set keys. q \<in> key_bits f key)"
    by (rule create_filter_effect)
  with assms(2,3) show "holds_key g key" and "usable g"
    by (auto simp: holds_key_def same_shape_simps(1))
qed

lemma create_filter_nothing_else:
  assumes "usable f" and "\<forall>q. \<not> bit_set (bits_array f) q" and "create_filter keys f = Inr g"
  shows "bit_set (bits_array g) q \<longleftrightarrow> (\<exists>key \<in> set keys. q \<in> key_bits f key)"
proof -
  from assms(1) obtain g' where "create_filter keys f = Inr g'"
    "\<forall>q. bit_set (bits_array g') q \<longleftrightarrow>
      bit_set (bits_array f) q \<or> (\<exists>key \<in> set keys. q \<in> key_bits f key)"
    by (rule create_filter_effect)
  with assms(2,3) show ?thesis by auto
qed

subsection \<open>The filter policy\<close>

text \<open>
  What the table builder and the table reader rely on: a key that was added is found, keys
  found stay found, and a filter rebuilt from the two things that are persisted, the number
  of hash functions and the bits, answers alike.
\<close>

locale filter_policy =
  fixes add :: "'k \<Rightarrow> 'f \<Rightarrow> 'f res"
    and ex :: "'k \<Rightarrow> 'f \<Rightarrow> bool res"
    and num :: "'f \<Rightarrow> int"
    and dat :: "'f \<Rightarrow> 'd"
    and restore :: "int \<Rightarrow> 'd \<Rightarrow> 'f \<Rightarrow> 'f"
    and ok :: "'f \<Rightarrow> bool"
    and proper :: "'k \<Rightarrow> bool"
  assumes add_found: "ok f \<Longrightarrow> \<exists>g. add k f = Inr g \<and> ok g \<and> (proper k \<longrightarrow> ex k g = Inr True) \<and>
                        (\<forall>j. ex j f = Inr True \<longrightarrow> ex j g = Inr True)"
    and restored: "ok f \<Longrightarrow> ok (restore (num f) (dat f) f0) \<and> ex k (restore (num f) (dat f) f0) = ex k f"
begin

primrec add_all :: "'k list \<Rightarrow> 'f \<Rightarrow> 'f res" where
  "add_all [] f = Inr f"
| "add_all (k # ks) f = bind_res (add k f) (add_all ks)"

lemma add_all_found:
  assumes "ok f"
  shows "\<exists>g. add_all ks f = Inr g \<and> ok g \<and> (\<forall>k \<in> set ks. proper k \<longrightarrow> ex k g = Inr True) \<and>
           (\<forall>j. ex j f = Inr True \<longrightarrow> ex j g = Inr True)"
  using assms
proof (induction ks arbitrary: f)
  case Nil
  then show ?case by simp
next
  case (Cons k ks)
  from add_found [OF Cons.prems, of k] obtain g where g: "add k f = Inr g" "ok g"
    "proper k \<longrightarrow> ex k g = Inr True" "\<forall>j. ex j f = Inr True \<longrightarrow> ex j g = Inr True" by blast
  from Cons.IH [OF g(2)] obtain h where "add_all ks g = Inr h" "ok h"
    "\<forall>k \<in> set ks. proper k \<longrightarrow> ex k h = Inr True" "\<forall>j. ex j g = Inr True \<longrightarrow> ex j h = Inr True"
    by blast
  with g show ?case by auto
qed

lemma persisted_found:
  assumes "ok f" and "add_all ks f = Inr g" and "k \<in> set ks" and "proper k"
  shows "ex k (restore (num g) (dat g) f0) = Inr True"
  using add_all_found [OF assms(1), of ks] assms(2-4) restored by force

end

interpretation bf: filter_policy filter_add filter_exists get_hash_num filter_data create_filter2 usable
  "\<lambda>k. k \<noteq> []"
proof unfold_locales
  fix f k
  assume u: "usable f"
  obtain g where g: "filter_add k f = Inr g" "usable g" "same_shape f g"
    "\<forall>q. bit_set (bits_array g) q \<longleftrightarrow> bit_set (bits_array f) q \<or> k \<noteq> [] \<and> q \<in> key_bits f k"
    by (rule filter_add_effect [OF u])
  have "holds_key g k" if "k \<noteq> []"
    using that g(4) by (auto simp: holds_key_def same_shape_simps(1) [OF g(3)])
  moreover have "holds_key f j \<Longrightarrow> holds_key g j" for j
    using g(4) by (intro holds_key_grow [OF g(3)]) auto
  ultimately show "\<exists>g. filter_add k f = Inr g \<and> usable g \<and>
      (k \<noteq> [] \<longrightarrow> filter_exists k g = Inr True) \<and>
      (\<forall>j. filter_exists j f = Inr True \<longrightarrow> filter_exists j g = Inr True)"
    using g(1,2) u by (auto simp: filter_exists_usable)
next
  fix f f0 k
  assume "usable f"
  then show "usable (create_filter2 (get_hash_num f) (filter_data f) f0) \<and>
      filter_exists k (create_filter2 (get_hash_num f) (filter_data f) f0) = filter_exists k f"
    by (simp add: usable_def create_filter2_def get_hash_num_def filter_data_def filter_exists_def)
qed

text \<open>Creating a filter from keys that are not empty is adding them one by one.\<close>

lemma insert_keys_add_all:
  assumes "usable f" and "[] \<notin> set keys"
  shows "insert_keys (bits_size (bits_array f)) keys f = bf.add_all keys f"
  using assms
proof (induction keys arbitrary: f)
  case Nil
  then show ?case by simp
next
  case (Cons key keys)
  obtain g where g: "insert_key (bits_size (bits_array f)) key f = Inr g" "same_shape f g"
    by (rule insert_key_effect [OF Cons.prems(1)])
  have "usable g" using Cons.prems(1) same_shape_simps(2) [OF g(2)] by simp
  moreover have "filter_add key f = Inr g" using g(1) Cons.prems(2) by (auto simp: filter_add_def)
  ultimately show ?case
    using Cons.IH [of g] Cons.prems(2) g(1) by (simp add: bf.add_all.simps same_shape_simps(3) [OF g(2)])
qed

definition bloom_ok :: "bloom \<Rightarrow> bool" where
  "bloom_ok f \<longleftrightarrow> usable f \<and> 1 \<le> hash_func_num f \<and> hash_func_num f \<le> 32"

lemma bloom_ok_shape:
  assumes "same_shape f g"
  shows "bloom_ok g = bloom_ok f"
  using same_shape_simps(2) [OF assms] assms by (simp add: bloom_ok_def same_shape_def)

subsection \<open>The constructor\<close>

lemma clamp_hash_num_range: "1 \<le> clamp_hash_num n \<and> clamp_hash_num n \<le> 32"
  by (simp add: clamp_hash_num_def Let_def)

lemma BloomFilter_usable:
  assumes "0 < keys_num" and "log_quot < 0" and "- (2 ^ 31) + 7 < log_quot"
  obtains f where "BloomFilter keys_num log_quot = Inr f" and "usable f"
    and "1 \<le> hash_func_num f" and "hash_func_num f \<le> 32" and "\<forall>q. \<not> bit_set (bits_array f) q"
    and "int (length (bits_array f)) * 8 \<ge> - log_quot"
proof -
  let ?n = "(7 - log_quot) div 8"
  have n: "cdiv (7 - log_quot) 8 = ?n" using assms(2) by (simp add: cdiv_nonneg)
  have pos: "0 < ?n" "?n < 2 ^ 29" "?n * 8 \<ge> - log_quot" using assms(2,3) by auto
  let ?p = "cdiv (int (length (replicate (nat ?n) (0 :: byte))) * 8) keys_num"
  let ?f = "\<lparr>hash_func_num = clamp_hash_num (cdiv (6243314768165359 * ?p) (2 ^ 53)),
      bits_per_key = ?p, bits_array = replicate (nat ?n) 0\<rparr>"
  have "BloomFilter keys_num log_quot = Inr ?f"
    using assms pos by (simp add: BloomFilter_def Let_def n)
  moreover have "usable ?f" using pos by (simp add: usable_def nat_less_iff)
  moreover have "\<forall>q. \<not> bit_set (bits_array ?f) q" by (simp add: bit_set_def)
  ultimately show thesis using that clamp_hash_num_range pos by simp
qed

subsection \<open>Properties\<close>

text \<open>
  create_filter of a list of non-empty keys, which computes the number of bits once for all
  keys, leaves the filter that adding the keys one after the other leaves.
\<close>

theorem bloom_create_is_adds:
  assumes "usable f" and "[] \<notin> set keys"
  shows "create_filter keys f = foldl (\<lambda>r key. bind_res r (filter_add key)) (Inr f) keys"
proof -
  have fold: "foldl (\<lambda>r key. bind_res r (filter_add key)) r ks = bind_res r (bf.add_all ks)" for r ks
    by (induction ks arbitrary: r) (simp_all add: bind_res_def split: sum.split)
  show ?thesis using insert_keys_add_all [OF assms] by (simp add: create_filter_def fold)
qed

theorem bloom_create_is_adds_witness:
  "\<exists>f. BloomFilter 2 (- 20) = Inr f \<and>
     create_filter [[1, 2, 3], [4]] f = bind_res (filter_add [1, 2, 3] f) (filter_add [4])"
proof -
  obtain f where f: "BloomFilter 2 (- 20) = Inr f" "usable f" by (rule BloomFilter_usable [of 2 "- 20"]) simp_all
  with bloom_create_is_adds [OF f(2), of "[[1, 2, 3], [4]]"] show ?thesis by simp
qed

text \<open>
  C33: For at least one key and a negative size quotient in range, the constructor and
  create_filter succeed, and every non-empty key that was inserted is reported as present.
\<close>

theorem bloom_no_false_negative:
  assumes "0 < keys_num" and "log_quot < 0" and "- (2 ^ 31) + 7 < log_quot"
  shows "\<exists>f g. BloomFilter keys_num log_quot = Inr f \<and> create_filter keys f = Inr g \<and>
           (\<forall>key \<in> set keys. key \<noteq> [] \<longrightarrow> filter_exists key g = Inr True)"
proof -
  from assms obtain f where f: "BloomFilter keys_num log_quot = Inr f" "usable f"
    by (rule BloomFilter_usable)
  from f(2) obtain g where g: "create_filter keys f = Inr g" by (rule create_filter_effect)
  from create_filter_holds [OF f(2) g] have "\<forall>key \<in> set keys. key \<noteq> [] \<longrightarrow> filter_exists key g = Inr True"
    by (simp add: filter_exists_usable)
  with f(1) g show ?thesis by blast
qed

theorem bloom_no_false_negative_witness:
  "\<exists>f g. BloomFilter 2 (- 20) = Inr f \<and> create_filter [[1, 2, 3], [4]] f = Inr g \<and>
     filter_exists [1, 2, 3] g = Inr True \<and> filter_exists [4] g = Inr True"
  using bloom_no_false_negative [of 2 "- 20" "[[1, 2, 3], [4]]"] by simp



end
