(* ===== verification/Blocks.thy ===== *)
theory Blocks
  imports Complex_Main Codec Bloom Db_Status
begin

section \<open>The blocks of an SST file\<close>

text \<open>
  \<open>OffsetInfo\<close> (\<open>src/db/offset_info.h\<close>), \<open>SSTConfigInfo\<close> (\<open>src/table/sst_config.h\<close>) and the
  four builders: \<open>DataBlockBuilder\<close>, \<open>IndexBlockBuilder\<close>, \<open>FilterBlockBuilder\<close> and
  \<open>FooterBuilder\<close> (\<open>src/table/\<close>). A builder is the record of its members. Counters are
  integers; a value is cut to its width where the code casts or encodes it.
\<close>

definition RESTART_INTERVAL :: int where
  "RESTART_INTERVAL = 16"

definition MAX_DATA_BLOCK_SIZE :: nat where
  "MAX_DATA_BLOCK_SIZE = 4096"

record OffsetInfo =
  oi_size :: int
  oi_offset :: int

definition OffsetInfo_clear :: OffsetInfo where
  "OffsetInfo_clear = \<lparr>oi_size = 0, oi_offset = 0\<rparr>"

definition get_offset_info_size :: int where
  "get_offset_info_size = 8"

text \<open>\<open>*reinterpret_cast<uint64_t *>(&info)\<close> and back: the size is the low half.\<close>

definition offset_bits :: "OffsetInfo \<Rightarrow> u64" where
  "offset_bits oi =
     ucast (word_of_int (oi_size oi) :: u32) OR push_bit 32 (ucast (word_of_int (oi_offset oi) :: u32))"

definition bits_offset :: "u64 \<Rightarrow> OffsetInfo" where
  "bits_offset x =
     \<lparr>oi_size = sint (ucast x :: u32), oi_offset = sint (ucast (drop_bit 32 x) :: u32)\<rparr>"

definition int32_range :: "int \<Rightarrow> bool" where
  "int32_range n \<longleftrightarrow> - (2 ^ 31) \<le> n \<and> n < 2 ^ 31"

lemma sint_word_of_int32: "int32_range n \<Longrightarrow> sint (word_of_int n :: u32) = n"
  by (simp add: int32_range_def sint_word_ariths signed_take_bit_int_eq_self sint_sbintrunc')

lemma offset_bits_halves:
  "(ucast (offset_bits oi) :: u32) = word_of_int (oi_size oi)"
  "(ucast (drop_bit 32 (offset_bits oi)) :: u32) = word_of_int (oi_offset oi)"
  unfolding offset_bits_def by (rule bit_word_eqI, auto simp: bit_simps)+

lemma bits_offset_bits:
  "int32_range (oi_size oi) \<Longrightarrow> int32_range (oi_offset oi) \<Longrightarrow> bits_offset (offset_bits oi) = oi"
  unfolding bits_offset_def offset_bits_halves by (simp add: sint_word_of_int32)

lemma offset_bits_encode:
  "EncodeFixed64 (offset_bits oi) = EncodeFixed32 (word_of_int (oi_size oi)) @ EncodeFixed32 (word_of_int (oi_offset oi))"
proof -
  have lo: "ucast (drop_bit k (offset_bits oi)) = (ucast (drop_bit k (word_of_int (oi_size oi) :: u32)) :: byte)"
    if "k + 8 \<le> 32" for k
    unfolding offset_bits_halves(1) [symmetric] using that
    by (intro bit_word_eqI) (auto simp: bit_simps)
  have hi: "ucast (drop_bit (32 + k) (offset_bits oi)) = (ucast (drop_bit k (word_of_int (oi_offset oi) :: u32)) :: byte)"
    if "k + 8 \<le> 32" for k
    unfolding offset_bits_halves(2) [symmetric] using that
    by (intro bit_word_eqI) (auto simp: bit_simps ac_simps)
  show ?thesis
    using lo [of 0] lo [of 8] lo [of 16] lo [of 24] hi [of 0] hi [of 8] hi [of 16] hi [of 24]
    by (simp add: EncodeFixed64_def EncodeFixed32_def ucast_and_ff)
qed

subsection \<open>The data block\<close>

record data_block =
  record_group_offset :: "int list"
  db_pre_key :: bytes
  db_data :: bytes
  record_num :: int

definition DataBlockBuilder :: data_block where
  "DataBlockBuilder = \<lparr>record_group_offset = [], db_pre_key = [], db_data = [], record_num = 0\<rparr>"

fun shared_len :: "bytes \<Rightarrow> bytes \<Rightarrow> nat" where
  "shared_len (x # xs) (y # ys) = (if x = y then Suc (shared_len xs ys) else 0)"
| "shared_len _ _ = 0"

text \<open>The five appends of \<open>add\<close>, for a given shared length.\<close>

definition put_record :: "bytes \<Rightarrow> nat \<Rightarrow> bytes \<Rightarrow> bytes \<Rightarrow> bytes" where
  "put_record data shared key value =
     PutFixed32 (PutFixed32 (PutFixed32 data (of_nat shared)) (of_nat (length key - shared)))
       (of_nat (length value)) @ drop shared key @ value"

definition db_add :: "bytes \<Rightarrow> bytes \<Rightarrow> data_block \<Rightarrow> DBStatus \<times> data_block" where
  "db_add key value b =
     (if key = [] then (Success, b)
      else
        (let need_fullkey = (record_num b mod RESTART_INTERVAL = 0);
             offs = (if need_fullkey then record_group_offset b @ [to_int32 (int (length (db_data b)))]
                     else record_group_offset b);
             shared_key_len = (if need_fullkey then 0 else shared_len key (db_pre_key b))
         in (Success,
             b\<lparr>record_group_offset := offs, record_num := record_num b + 1,
               db_data := put_record (db_data b) shared_key_len key value, db_pre_key := key\<rparr>)))"

text \<open>The \<open>i\<close>-loop of \<open>finish_data_block\<close>, over the offsets that are left.\<close>

fun put_restarts :: "int \<Rightarrow> int \<Rightarrow> int list \<Rightarrow> bytes \<Rightarrow> bytes" where
  "put_restarts num last_offset [] data = data"
| "put_restarts num last_offset [o1] data =
     PutFixed64 (PutFixed32 data (word_of_int (num mod RESTART_INTERVAL)))
       (offset_bits \<lparr>oi_size = last_offset - o1, oi_offset = o1\<rparr>)"
| "put_restarts num last_offset (o1 # o2 # offs) data =
     put_restarts num last_offset (o2 # offs)
       (PutFixed64 (PutFixed32 data (word_of_int RESTART_INTERVAL))
         (offset_bits \<lparr>oi_size = o2 - o1, oi_offset = o1\<rparr>))"

definition finish_data_block :: "data_block \<Rightarrow> DBStatus \<times> data_block" where
  "finish_data_block b =
     (let restart_point_num = cdiv (2 * record_num b - 1) 32 + 1;
          last_offset = to_int32 (int (length (db_data b)));
          data = put_restarts (record_num b) last_offset (record_group_offset b) (db_data b)
      in (Success, b\<lparr>db_data := PutFixed32 data (word_of_int restart_point_num)\<rparr>))"

definition db_clear :: "data_block \<Rightarrow> data_block" where
  "db_clear b = b\<lparr>record_group_offset := [], db_pre_key := [], db_data := [], record_num := 0\<rparr>"

definition db_size :: "data_block \<Rightarrow> nat" where
  "db_size b = length (db_data b)"

definition get_records_size :: "data_block \<Rightarrow> nat" where
  "get_records_size b = length (db_data b)"

subsection \<open>The index block\<close>

type_synonym index_block_builder = bytes

definition ib_add :: "bytes \<Rightarrow> OffsetInfo \<Rightarrow> index_block_builder \<Rightarrow> DBStatus \<times> index_block_builder" where
  "ib_add shortest_key oi data =
     (Success, PutFixed64 (PutFixed32 data (of_nat (length shortest_key)) @ shortest_key) (offset_bits oi))"

definition ib_clear :: "index_block_builder \<Rightarrow> index_block_builder" where
  "ib_clear data = []"

subsection \<open>The filter block\<close>

text \<open>
  \<open>logq\<close> is the floating-point expression of the \<open>BloomFilter\<close> constructor, as a function of
  the number of keys and the false-positive rate.
\<close>

record filter_block =
  filterPolicy :: bloom
  key_data :: "bytes list"
  fb_data :: bytes

definition FilterBlockBuilder :: "(int \<Rightarrow> real \<Rightarrow> int) \<Rightarrow> int \<Rightarrow> real \<Rightarrow> filter_block res" where
  "FilterBlockBuilder logq keys_num false_positive =
     assert_res (0 \<le> false_positive)
       (bind_res (BloomFilter keys_num (logq keys_num false_positive)) (\<lambda>f.
          Inr \<lparr>filterPolicy = f, key_data = [], fb_data = []\<rparr>))"

definition fb_add :: "bytes \<Rightarrow> filter_block \<Rightarrow> filter_block" where
  "fb_add key b = (if key = [] then b else b\<lparr>key_data := key_data b @ [key]\<rparr>)"

definition fb_create_filter :: "filter_block \<Rightarrow> filter_block res" where
  "fb_create_filter b =
     (if key_data b = [] then Inr b
      else bind_res (create_filter (key_data b) (filterPolicy b)) (\<lambda>f. Inr (b\<lparr>filterPolicy := f\<rparr>)))"

definition finish_filter_block :: "filter_block \<Rightarrow> filter_block res" where
  "finish_filter_block b =
     bind_res (fb_create_filter b) (\<lambda>b'.
       Inr (b'\<lparr>fb_data := PutFixed32 (filter_data (filterPolicy b'))
                             (word_of_int (get_hash_num (filterPolicy b')))\<rparr>))"

definition fb_clear :: "filter_block \<Rightarrow> filter_block" where
  "fb_clear b = b\<lparr>fb_data := []\<rparr>"

definition fb_exists :: "bytes \<Rightarrow> filter_block \<Rightarrow> bool res" where
  "fb_exists key b = filter_exists key (filterPolicy b)"

subsection \<open>The footer\<close>

type_synonym footer = bytes

definition footer_add :: "OffsetInfo \<Rightarrow> OffsetInfo \<Rightarrow> footer \<Rightarrow> DBStatus \<times> footer" where
  "footer_add meta index data =
     (Success, PutFixed64 (PutFixed64 data (offset_bits meta)) (offset_bits index))"

definition footer_clear :: "footer \<Rightarrow> footer" where
  "footer_clear data = []"

subsection \<open>What a data block holds\<close>

text \<open>Adding entries one after the other.\<close>

fun db_adds :: "(bytes \<times> bytes) list \<Rightarrow> data_block \<Rightarrow> data_block" where
  "db_adds [] b = b"
| "db_adds ((k, v) # kvs) b = db_adds kvs (snd (db_add k v b))"

text \<open>The records of a block; \<open>i\<close> entries came before and \<open>prev\<close> was the last key.\<close>

definition enc_record :: "nat \<Rightarrow> bytes \<Rightarrow> bytes \<Rightarrow> bytes \<Rightarrow> bytes" where
  "enc_record i prev k v =
     (let s = (if i mod 16 = 0 then 0 else shared_len k prev)
      in EncodeFixed32 (of_nat s) @ EncodeFixed32 (of_nat (length k - s)) @ EncodeFixed32 (of_nat (length v))
           @ drop s k @ v)"

fun enc_records :: "nat \<Rightarrow> bytes \<Rightarrow> (bytes \<times> bytes) list \<Rightarrow> bytes" where
  "enc_records i prev [] = []"
| "enc_records i prev ((k, v) # kvs) = enc_record i prev k v @ enc_records (Suc i) k kvs"

lemma enc_records_append:
  "enc_records i prev (xs @ [(k, v)]) =
     enc_records i prev xs @ enc_record (i + length xs) (if xs = [] then prev else fst (last xs)) k v"
  by (induction i prev xs rule: enc_records.induct) auto

lemma shared_len_le: "shared_len k p \<le> length k" "shared_len k p \<le> length p"
  by (induction k p rule: shared_len.induct) auto

lemma shared_len_prefix: "take (shared_len k p) p @ drop (shared_len k p) k = k"
  by (induction k p rule: shared_len.induct) auto

lemma put_record_enc:
  "put_record data (if i mod 16 = 0 then 0 else shared_len k prev) k v = data @ enc_record i prev k v"
  by (simp add: put_record_def enc_record_def codec_simps Let_def)

text \<open>The offsets of the record groups: where every sixteenth record begins.\<close>

fun group_offsets :: "nat \<Rightarrow> nat \<Rightarrow> bytes \<Rightarrow> (bytes \<times> bytes) list \<Rightarrow> int list" where
  "group_offsets i pos prev [] = []"
| "group_offsets i pos prev ((k, v) # kvs) =
     (if i mod 16 = 0 then [to_int32 (int pos)] else [])
       @ group_offsets (Suc i) (pos + length (enc_record i prev k v)) k kvs"

lemma mod_16_int: "int i mod RESTART_INTERVAL = 0 \<longleftrightarrow> i mod 16 = 0"
  unfolding RESTART_INTERVAL_def by presburger

lemma db_adds_from:
  assumes "\<forall>(k, v) \<in> set kvs. k \<noteq> []" and "record_num b = int i"
  shows "db_adds kvs b =
     b\<lparr>record_group_offset := record_group_offset b @ group_offsets i (length (db_data b)) (db_pre_key b) kvs,
       db_pre_key := (if kvs = [] then db_pre_key b else fst (last kvs)),
       db_data := db_data b @ enc_records i (db_pre_key b) kvs,
       record_num := int (i + length kvs)\<rparr>"
  using assms
proof (induction kvs arbitrary: b i)
  case Nil
  then show ?case by simp
next
  case (Cons kv kvs)
  obtain k v where kv: "kv = (k, v)" by (cases kv)
  let ?b = "snd (db_add k v b)"
  have k: "k \<noteq> []" using Cons.prems(1) kv by auto
  have b: "?b = b\<lparr>record_group_offset := record_group_offset b @
        (if i mod 16 = 0 then [to_int32 (int (length (db_data b)))] else []),
      record_num := int (Suc i), db_data := db_data b @ enc_record i (db_pre_key b) k v, db_pre_key := k\<rparr>"
    using k Cons.prems(2) put_record_enc [of "db_data b" i k "db_pre_key b" v]
    by (simp add: db_add_def Let_def mod_16_int)
  have "record_num ?b = int (Suc i)" by (simp add: b)
  from Cons.IH [OF _ this] Cons.prems(1) have "db_adds kvs ?b = ?b\<lparr>
      record_group_offset := record_group_offset ?b @ group_offsets (Suc i) (length (db_data ?b)) (db_pre_key ?b) kvs,
      db_pre_key := (if kvs = [] then db_pre_key ?b else fst (last kvs)),
      db_data := db_data ?b @ enc_records (Suc i) (db_pre_key ?b) kvs,
      record_num := int (Suc i + length kvs)\<rparr>" by auto
  then show ?case by (simp add: kv b)
qed

lemma db_adds_data:
  assumes "\<forall>(k, v) \<in> set kvs. k \<noteq> []"
  shows "db_data (db_adds kvs DataBlockBuilder) = enc_records 0 [] kvs"
    and "record_num (db_adds kvs DataBlockBuilder) = int (length kvs)"
    and "record_group_offset (db_adds kvs DataBlockBuilder) = group_offsets 0 0 [] kvs"
  using db_adds_from [OF assms, of DataBlockBuilder 0] by (simp_all add: DataBlockBuilder_def)

subsection \<open>Reading the records back\<close>

text \<open>
  A reader of the record format that the builder writes: the shared part of a key is taken
  from the key before it.
\<close>

fun dec_records :: "nat \<Rightarrow> bytes \<Rightarrow> bytes \<Rightarrow> (bytes \<times> bytes) list res" where
  "dec_records 0 prev d = Inr []"
| "dec_records (Suc n) prev d =
     bind_res (DecodeFixed32 d) (\<lambda>s.
     bind_res (DecodeFixed32 (drop 4 d)) (\<lambda>u.
     bind_res (DecodeFixed32 (drop 8 d)) (\<lambda>l.
     bind_res (read_at d 12 (unat u)) (\<lambda>rest.
     bind_res (read_at d (12 + unat u) (unat l)) (\<lambda>v.
       let k = take (unat s) prev @ rest
       in bind_res (dec_records n k (drop (12 + unat u + unat l) d)) (\<lambda>kvs. Inr ((k, v) # kvs)))))))"

definition small :: "(bytes \<times> bytes) list \<Rightarrow> bool" where
  "small kvs \<longleftrightarrow> (\<forall>(k, v) \<in> set kvs. k \<noteq> [] \<and> length k < 2 ^ 31 \<and> length v < 2 ^ 31)"

lemma dec_enc_record:
  assumes "length k < 2 ^ 31" and "length v < 2 ^ 31"
  shows "dec_records (Suc n) prev (enc_record i prev k v @ rest) =
           bind_res (dec_records n k rest) (\<lambda>kvs. Inr ((k, v) # kvs))"
proof -
  let ?s = "if i mod 16 = 0 then 0 else shared_len k prev"
  let ?d = "enc_record i prev k v @ rest"
  have s: "?s \<le> length k" using shared_len_le by auto
  have key: "take ?s prev @ drop ?s k = k" using shared_len_prefix by auto
  have u: "unat (of_nat ?s :: u32) = ?s" "unat (of_nat (length k - ?s) :: u32) = length k - ?s"
    "unat (of_nat (length v) :: u32) = length v"
    using assms s by (simp_all add: unat_of_nat del: of_nat_diff)
  have d: "?d = EncodeFixed32 (of_nat ?s) @ EncodeFixed32 (of_nat (length k - ?s))
      @ EncodeFixed32 (of_nat (length v)) @ drop ?s k @ v @ rest"
    by (simp only: enc_record_def Let_def append_assoc)
  have w: "DecodeFixed32 ?d = Inr (of_nat ?s)" "DecodeFixed32 (drop 4 ?d) = Inr (of_nat (length k - ?s))"
    "DecodeFixed32 (drop 8 ?d) = Inr (of_nat (length v))"
    unfolding d by simp_all
  have r: "read_at ?d 12 (length k - ?s) = Inr (drop ?s k)"
    "read_at ?d (12 + (length k - ?s)) (length v) = Inr v"
    "drop (12 + (length k - ?s) + length v) ?d = rest"
    unfolding d using s by (simp_all add: read_at_def)
  show ?thesis
    unfolding dec_records.simps w bind_res_simps u r Let_def key ..
qed

lemma dec_enc_records:
  assumes "small kvs"
  shows "dec_records (length kvs) prev (enc_records i prev kvs @ rest) = Inr kvs"
  using assms
proof (induction kvs arbitrary: prev i)
  case Nil
  then show ?case by simp
next
  case (Cons kv kvs)
  obtain k v where kv: "kv = (k, v)" by (cases kv)
  with Cons.prems have "length k < 2 ^ 31" "length v < 2 ^ 31" "small kvs" by (auto simp: small_def)
  with dec_enc_record [of k v "length kvs" prev i "enc_records (Suc i) k kvs @ rest"] Cons.IH
  show ?case by (simp add: kv del: dec_records.simps)
qed

subsection \<open>The trailer\<close>

definition enc_restart :: "int \<Rightarrow> int \<Rightarrow> int \<Rightarrow> bytes" where
  "enc_restart num sz off =
     EncodeFixed32 (word_of_int num) @ EncodeFixed64 (offset_bits \<lparr>oi_size = sz, oi_offset = off\<rparr>)"

lemma length_enc_restart [simp]: "length (enc_restart num sz off) = 12"
  by (simp add: enc_restart_def)

lemma put_restarts_append:
  "put_restarts num lst offs (data @ data') = data @ put_restarts num lst offs data'"
  by (induction num lst offs data' rule: put_restarts.induct) (simp_all add: codec_simps)

lemma put_restarts_Nil: "put_restarts num lst offs data = data @ put_restarts num lst offs []"
  using put_restarts_append [of num lst offs data "[]"] by simp

lemma length_put_restarts: "length (put_restarts num lst offs []) = 12 * length offs"
proof (induction offs rule: induct_list012)
  case (3 y z offs)
  then show ?case by (simp, subst put_restarts_Nil) (simp add: codec_simps)
qed (simp_all add: codec_simps)

lemma put_restarts_last:
  "\<exists>xs. put_restarts num lst (offs @ [x]) [] = xs @ enc_restart (num mod RESTART_INTERVAL) (lst - x) x
     \<and> length xs = 12 * length offs"
proof (induction offs rule: induct_list012)
  case 1
  then show ?case by (simp add: codec_simps enc_restart_def)
next
  case (2 y)
  then show ?case by (simp add: codec_simps enc_restart_def)
next
  case (3 y z offs)
  then obtain xs where xs: "put_restarts num lst ((z # offs) @ [x]) [] =
      xs @ enc_restart (num mod RESTART_INTERVAL) (lst - x) x" "length xs = 12 * length (z # offs)" by blast
  have "put_restarts num lst ((y # z # offs) @ [x]) [] =
      enc_restart RESTART_INTERVAL (z - y) y @ put_restarts num lst ((z # offs) @ [x]) []"
    by (simp, subst put_restarts_Nil) (simp add: codec_simps enc_restart_def)
  with xs show ?case by (intro exI [of _ "enc_restart RESTART_INTERVAL (z - y) y @ xs"]) simp
qed

lemma group_count: "(if i mod 16 = 0 then 1 else 0) + (i + 15) div 16 = (Suc i + 15) div 16"
proof (cases "i mod 16 = 0")
  case True
  then obtain q where "i = 16 * q" by blast
  then show ?thesis by simp
next
  case False
  define q r where "q = i div 16" and "r = i mod 16"
  have i: "i = r + 16 * q" by (simp add: q_def r_def)
  have r: "0 < r" "r < 16" using False by (auto simp: r_def)
  have "(i + 15) div 16 = (r + 15) div 16 + q" "(Suc i + 15) div 16 = (r + 16) div 16 + q"
    unfolding i by simp_all
  moreover have "(r + 15) div 16 = 1" "(r + 16) div 16 = 1" using r by auto
  ultimately show ?thesis using False by simp
qed

lemma length_group_offsets:
  "length (group_offsets i pos prev kvs) + (i + 15) div 16 = (i + length kvs + 15) div 16"
proof (induction i pos prev kvs rule: group_offsets.induct)
  case (2 i pos prev k v kvs)
  have "length (group_offsets i pos prev ((k, v) # kvs)) + (i + 15) div 16
      = length (group_offsets (Suc i) (pos + length (enc_record i prev k v)) k kvs) + (Suc i + 15) div 16"
    unfolding group_count [of i, symmetric] by simp
  with 2 show ?case by simp
qed simp

lemma restart_point_num:
  assumes "0 < n"
  shows "cdiv (2 * int n - 1) 32 + 1 = int ((n + 15) div 16)"
proof -
  have "cdiv (2 * int n - 1) 32 = (2 * int n - 1) div (2 * 16)" using assms by (simp add: cdiv_nonneg)
  also have "\<dots> = (2 * int n - 1) div 2 div 16" by (rule zdiv_zmult2_eq) simp
  also have "(2 * int n - 1) div 2 = int n - 1" by simp
  finally have "cdiv (2 * int n - 1) 32 + 1 = (int n - 1 + 16) div 16" by simp
  also have "\<dots> = int ((n + 15) div 16)" by (simp add: zdiv_int)
  finally show ?thesis .
qed

lemma finish_data_block_data:
  "db_data (snd (finish_data_block b)) =
     db_data b @ put_restarts (record_num b) (to_int32 (int (length (db_data b)))) (record_group_offset b) []
       @ EncodeFixed32 (word_of_int (cdiv (2 * record_num b - 1) 32 + 1))"
  using put_restarts_Nil [of "record_num b" "to_int32 (int (length (db_data b)))" "record_group_offset b" "db_data b"]
  by (simp add: finish_data_block_def Let_def codec_simps)

text \<open>The block that a list of entries becomes.\<close>

definition block_of :: "(bytes \<times> bytes) list \<Rightarrow> bytes" where
  "block_of kvs = db_data (snd (finish_data_block (db_adds kvs DataBlockBuilder)))"

lemma block_of_records:
  assumes "small kvs" and "kvs \<noteq> []"
  obtains trailer where "block_of kvs = enc_records 0 [] kvs @ trailer"
    and "length trailer = 12 * ((length kvs + 15) div 16) + 4"
proof -
  have keys: "\<forall>(k, v) \<in> set kvs. k \<noteq> []" using assms(1) by (auto simp: small_def)
  have "length (group_offsets 0 0 [] kvs) = (length kvs + 15) div 16"
    using length_group_offsets [of 0 0 "[]" kvs] by simp
  then show thesis
    by (intro that) (auto simp: block_of_def finish_data_block_data db_adds_data [OF keys] length_put_restarts)
qed

lemma group_offsets_start:
  "kvs \<noteq> [] \<Longrightarrow> i mod 16 = 0 \<Longrightarrow> \<exists>offs. group_offsets i pos prev kvs = to_int32 (int pos) # offs"
  by (cases kvs) auto

lemma block_of_trailer:
  assumes "small kvs" and "kvs \<noteq> []"
  obtains front x where "block_of kvs = front
      @ enc_restart (int (length kvs) mod RESTART_INTERVAL)
          (to_int32 (int (length (enc_records 0 [] kvs))) - x) x
      @ EncodeFixed32 (of_nat ((length kvs + 15) div 16))"
    and "x = last (group_offsets 0 0 [] kvs)"
proof -
  have keys: "\<forall>(k, v) \<in> set kvs. k \<noteq> []" using assms(1) by (auto simp: small_def)
  obtain offs x where offs: "group_offsets 0 0 [] kvs = offs @ [x]"
    using group_offsets_start [OF assms(2), of 0 0 "[]"] by (metis list.distinct(1) mod_0 rev_exhaust)
  let ?last = "to_int32 (int (length (enc_records 0 [] kvs)))"
  obtain xs where xs: "put_restarts (int (length kvs)) ?last (offs @ [x]) [] =
      xs @ enc_restart (int (length kvs) mod RESTART_INTERVAL) (?last - x) x"
    using put_restarts_last by blast
  have num: "cdiv (2 * int (length kvs) - 1) 32 + 1 = int ((length kvs + 15) div 16)"
    using assms(2) by (intro restart_point_num) simp
  have w: "(word_of_int (int ((length kvs + 15) div 16)) :: u32) = of_nat ((length kvs + 15) div 16)"
    by (rule of_int_of_nat_eq)
  have "block_of kvs = (enc_records 0 [] kvs @ xs)
      @ enc_restart (int (length kvs) mod RESTART_INTERVAL) (?last - x) x
      @ EncodeFixed32 (of_nat ((length kvs + 15) div 16))"
    by (simp only: block_of_def finish_data_block_data db_adds_data [OF keys] offs xs num w append_assoc)
  then show thesis by (rule that) (simp add: offs)
qed

subsection \<open>Filter blocks\<close>

lemma finish_filter_block_ok:
  assumes "usable (filterPolicy b)"
  shows "\<exists>b'. finish_filter_block b = Inr b' \<and> usable (filterPolicy b') \<and> key_data b' = key_data b \<and>
           same_shape (filterPolicy b) (filterPolicy b') \<and>
           fb_data b' = bits_array (filterPolicy b') @ EncodeFixed32 (word_of_int (hash_func_num (filterPolicy b'))) \<and>
           (\<forall>key \<in> set (key_data b). holds_key (filterPolicy b') key)"
proof (cases "key_data b = []")
  case True
  with assms show ?thesis
    by (simp add: finish_filter_block_def fb_create_filter_def codec_simps filter_data_def get_hash_num_def
        same_shape_def)
next
  case False
  from assms obtain g where g: "create_filter (key_data b) (filterPolicy b) = Inr g"
    "same_shape (filterPolicy b) g" "usable g" by (rule create_filter_effect)
  with False create_filter_holds [OF assms g(1)] show ?thesis
    by (simp add: finish_filter_block_def fb_create_filter_def codec_simps filter_data_def get_hash_num_def)
qed

subsection \<open>Properties\<close>

text \<open>
  The filter block that finish writes holds the bits and, in its last four bytes, the number
  of hash functions; a filter rebuilt from the two answers every key as the builder's own
  filter does, and finds every key that was added.
\<close>

theorem filter_block_roundtrip:
  assumes "usable (filterPolicy b)" and "1 \<le> hash_func_num (filterPolicy b)" and "hash_func_num (filterPolicy b) \<le> 32"
  shows "\<exists>b' w. finish_filter_block b = Inr b' \<and>
           DecodeFixed32 (drop (length (fb_data b') - 4) (fb_data b')) = Inr w \<and>
           (\<forall>key. filter_exists key (create_filter2 (sint w) (take (length (fb_data b') - 4) (fb_data b')) f0)
                    = fb_exists key b') \<and>
           (\<forall>key \<in> set (key_data b). key \<noteq> [] \<longrightarrow> fb_exists key b' = Inr True)"
proof -
  from finish_filter_block_ok [OF assms(1)] obtain b' where b': "finish_filter_block b = Inr b'"
    "usable (filterPolicy b')" "same_shape (filterPolicy b) (filterPolicy b')"
    "fb_data b' = bits_array (filterPolicy b') @ EncodeFixed32 (word_of_int (hash_func_num (filterPolicy b')))"
    "\<forall>key \<in> set (key_data b). holds_key (filterPolicy b') key" by blast
  let ?f = "filterPolicy b'"
  have n: "sint (word_of_int (hash_func_num ?f) :: u32) = hash_func_num ?f"
    using assms(2,3) b'(3) by (intro sint_word_of_int32) (simp add: int32_range_def same_shape_def)
  have "DecodeFixed32 (drop (length (fb_data b') - 4) (fb_data b')) = Inr (word_of_int (hash_func_num ?f))"
    unfolding b'(4) using DecodeFixed32_Encode [of "word_of_int (hash_func_num ?f)" "[]"] by simp
  moreover have "filter_exists key (create_filter2 (sint (word_of_int (hash_func_num ?f) :: u32))
      (take (length (fb_data b') - 4) (fb_data b')) f0) = fb_exists key b'" for key
    unfolding n b'(4) by (simp add: fb_exists_def filter_exists_def create_filter2_def)
  moreover have "\<forall>key \<in> set (key_data b). key \<noteq> [] \<longrightarrow> fb_exists key b' = Inr True"
    using b'(5) by (simp add: fb_exists_def filter_exists_usable [OF b'(2)])
  ultimately show ?thesis using b'(1) by blast
qed

theorem filter_block_roundtrip_witness:
  "\<exists>b b' w. FilterBlockBuilder (\<lambda>n fp. - 20) 2 (1 / 100) = Inr b \<and>
     finish_filter_block (fb_add [107] b) = Inr b' \<and>
     DecodeFixed32 (drop (length (fb_data b') - 4) (fb_data b')) = Inr w \<and>
     filter_exists [107] (create_filter2 (sint w) (take (length (fb_data b') - 4) (fb_data b')) BloomFilter0) = Inr True"
proof -
  obtain f where f: "BloomFilter 2 (- 20) = Inr f" "usable f" "1 \<le> hash_func_num f" "hash_func_num f \<le> 32"
    by (rule BloomFilter_usable [of 2 "- 20"]) simp_all
  let ?b = "\<lparr>filterPolicy = f, key_data = [], fb_data = []\<rparr>"
  have b: "FilterBlockBuilder (\<lambda>n fp. - 20) 2 (1 / 100) = Inr ?b" by (simp add: FilterBlockBuilder_def f(1))
  have "filterPolicy (fb_add [107] ?b) = f" "key_data (fb_add [107] ?b) = [[107]]"
    by (simp_all add: fb_add_def)
  with filter_block_roundtrip [of "fb_add [107] ?b" BloomFilter0] f(2-4) b show ?thesis
    by (simp del: One_nat_def) (metis (no_types, lifting) list.discI)
qed

text \<open>
  A data block built from entries with non-empty keys decodes to these entries in order, each
  key rebuilt from its predecessor and the unshared rest; after the records come twelve bytes
  for every sixteen entries begun and four more.
\<close>

theorem block_records_roundtrip:
  assumes "small kvs" and "kvs \<noteq> []"
  shows "\<exists>trailer. block_of kvs = enc_records 0 [] kvs @ trailer \<and>
           length trailer = 12 * ((length kvs + 15) div 16) + 4 \<and>
           dec_records (length kvs) [] (block_of kvs) = Inr kvs"
proof -
  obtain trailer where t: "block_of kvs = enc_records 0 [] kvs @ trailer"
    "length trailer = 12 * ((length kvs + 15) div 16) + 4"
    by (rule block_of_records [OF assms])
  with dec_enc_records [OF assms(1), of "[]" 0 trailer] show ?thesis by auto
qed

theorem block_records_roundtrip_witness:
  "dec_records 2 [] (block_of [([1, 2], [9]), ([1, 3], [8, 8])]) = Inr [([1, 2], [9]), ([1, 3], [8, 8])] \<and>
   (\<exists>trailer. block_of [([1, 2], [9]), ([1, 3], [8, 8])] = enc_records 0 [] [([1, 2], [9]), ([1, 3], [8, 8])] @ trailer \<and>
     length trailer = 16)"
proof -
  let ?kvs = "[([1, 2], [9]), ([1, 3], [8, 8])] :: (bytes \<times> bytes) list"
  have "small ?kvs" "?kvs \<noteq> []" by (simp_all add: small_def)
  note r = block_records_roundtrip [OF this]
  have "length ?kvs = 2" "12 * ((2 + 15) div 16) + 4 = (16 :: nat)" by simp_all
  with r show ?thesis by metis
qed

end
