(* ===== verification/Sst_Builder.thy ===== *)
theory Sst_Builder
  imports Blocks File_Io
begin

section \<open>Writing an SST file\<close>

text \<open>
  \<open>SSTableBuilder\<close> (\<open>src/table/sstable_builder.h\<close>, \<open>sstable_builder.cpp\<close>). Blocks go to the
  file as they fill up; \<open>finish_sst\<close> writes the last block, the filter, the index and the
  footer. The lemmas follow the bytes: what \<open>add\<close> appends to the file and to the index, where
  the separator of a block lies, and the layout of a finished file.
\<close>

record sst_builder =
  dataBlockBuilder :: data_block
  indexBlockBuilder :: index_block_builder
  filterBlockBuilder :: filter_block
  fileWriter :: writer
  footerBuilder :: footer
  FilterBlock_offset :: OffsetInfo
  IndexBlock_offset :: OffsetInfo
  keys_num :: int
  sb_false_positive :: real
  index_data :: bytes
  key_count :: int
  sb_pre_key :: bytes
  pre_offset_info :: OffsetInfo

definition SSTableBuilder :: "(int \<Rightarrow> real \<Rightarrow> int) \<Rightarrow> int \<Rightarrow> writer \<Rightarrow> real \<Rightarrow> sst_builder res" where
  "SSTableBuilder logq num w false_positive =
     bind_res (FilterBlockBuilder logq num false_positive) (\<lambda>fb.
       Inr \<lparr>dataBlockBuilder = DataBlockBuilder, indexBlockBuilder = [], filterBlockBuilder = fb,
            fileWriter = w, footerBuilder = [], FilterBlock_offset = OffsetInfo_clear,
            IndexBlock_offset = OffsetInfo_clear, keys_num = num, sb_false_positive = false_positive,
            index_data = [], key_count = 0, sb_pre_key = [], pre_offset_info = OffsetInfo_clear\<rparr>)"

text \<open>The positions below the shorter length at which the two keys agree, all of them counted.\<close>

fun agreeing :: "bytes \<Rightarrow> bytes \<Rightarrow> nat" where
  "agreeing (x # xs) (y # ys) = (if x = y then 1 else 0) + agreeing xs ys"
| "agreeing _ _ = 0"

text \<open>\<open>s.back() += 1\<close>; undefined on an empty string.\<close>

definition bump_back :: "bytes \<Rightarrow> bytes res" where
  "bump_back xs = (if xs = [] then Inl Undefined_Behaviour else Inr (butlast xs @ [last xs + 1]))"

definition find_shortest_key :: "bytes \<Rightarrow> bytes \<Rightarrow> bytes res" where
  "find_shortest_key key1 key2 =
     assert_res (key1 \<noteq> []) (assert_res (key2 \<noteq> []) (assert_res (key1 < key2)
       (let cnt = agreeing key1 key2
        in if length key1 = cnt then Inr (key1 @ str '' '')
           else bump_back (take (cnt + 1) key1))))"

definition sst_add :: "write_count \<Rightarrow> bytes \<Rightarrow> bytes \<Rightarrow> sst_builder \<Rightarrow> (DBStatus \<times> sst_builder) res" where
  "sst_add wr key val b =
     (if key = [] then Inr (Success, b)
      else
        (let b1 = b\<lparr>filterBlockBuilder := fb_add key (filterBlockBuilder b),
                    dataBlockBuilder := snd (db_add key val (dataBlockBuilder b)),
                    key_count := key_count b + 1\<rparr>
         in if db_size (dataBlockBuilder b1) > MAX_DATA_BLOCK_SIZE then
              (let db = snd (finish_data_block (dataBlockBuilder b1)); d = db_data db; n = to_int32 (int (length d))
               in bind_res (append_file wr d n False (fileWriter b1)) (\<lambda>(st, w).
                    let fo = (FilterBlock_offset b1)\<lparr>oi_offset := oi_offset (FilterBlock_offset b1) + n\<rparr>
                    in bind_res (find_shortest_key (sb_pre_key b1) key) (\<lambda>shortest_key.
                         let oi = \<lparr>oi_size = n, oi_offset = oi_offset fo\<rparr>;
                             ib = snd (ib_add shortest_key oi (indexBlockBuilder b1))
                         in Inr (Success,
                              b1\<lparr>dataBlockBuilder := db_clear db, fileWriter := w, FilterBlock_offset := fo,
                                 index_data := index_data b1 @ ib, indexBlockBuilder := ib_clear ib,
                                 sb_pre_key := key\<rparr>))))
            else Inr (Success, b1\<lparr>sb_pre_key := key\<rparr>)))"

text \<open>The first part of \<open>finish_sst\<close>: the last data block and its index entry.\<close>

definition finish_last_block :: "write_count \<Rightarrow> sst_builder \<Rightarrow> sst_builder res" where
  "finish_last_block wr b =
     (if db_size (dataBlockBuilder b) > 0 then
        (let db = snd (finish_data_block (dataBlockBuilder b)); d = db_data db; n = to_int32 (int (length d))
         in bind_res (append_file wr d n False (fileWriter b)) (\<lambda>(st, w).
            bind_res (bump_back (sb_pre_key b)) (\<lambda>pk.
              let oi = \<lparr>oi_size = n, oi_offset = oi_offset (FilterBlock_offset b)\<rparr>;
                  ib = snd (ib_add pk oi (indexBlockBuilder b))
              in Inr (b\<lparr>fileWriter := w, sb_pre_key := pk, index_data := index_data b @ ib,
                        indexBlockBuilder := ib_clear ib,
                        FilterBlock_offset := (FilterBlock_offset b)\<lparr>oi_offset := oi_offset (FilterBlock_offset b) + n\<rparr>,
                        dataBlockBuilder := db_clear db\<rparr>))))
      else Inr b)"

definition finish_sst :: "(int \<Rightarrow> real \<Rightarrow> int) \<Rightarrow> write_count \<Rightarrow> sst_builder \<Rightarrow> (DBStatus \<times> sst_builder) res" where
  "finish_sst logq wr b0 =
     bind_res (finish_last_block wr b0) (\<lambda>b.
     bind_res (finish_filter_block (filterBlockBuilder b)) (\<lambda>fb1.
     let meta = (FilterBlock_offset b)\<lparr>oi_size := to_int32 (int (length (fb_data fb1)))\<rparr>
     in bind_res (finish_filter_block fb1) (\<lambda>fb2.
        bind_res (append_file wr (fb_data fb2) (to_int32 (int (length (fb_data fb2)))) False (fileWriter b)) (\<lambda>(s1, w1).
        bind_res (append_file wr (index_data b) (to_int32 (int (length (index_data b)))) False w1) (\<lambda>(s2, w2).
        assert_res (to_int32 (int (length (index_data b))) > 0)
          (let idx = \<lparr>oi_size = to_int32 (int (length (index_data b))), oi_offset = oi_offset meta + oi_size meta\<rparr>;
               ft = snd (footer_add meta idx (footerBuilder b))
           in bind_res (append_file wr ft (to_int32 (int (length ft))) False w2) (\<lambda>(s3, w3).
              bind_res (flush_file wr w3) (\<lambda>(s4, w4).
              bind_res (close_file wr w4) (\<lambda>w5.
              bind_res (FilterBlockBuilder logq (keys_num b) (sb_false_positive b)) (\<lambda>fb3.
                Inr (Success,
                  b\<lparr>dataBlockBuilder := db_clear (dataBlockBuilder b), indexBlockBuilder := ib_clear (indexBlockBuilder b),
                    filterBlockBuilder := fb3, fileWriter := w5, footerBuilder := footer_clear ft,
                    FilterBlock_offset := OffsetInfo_clear, IndexBlock_offset := OffsetInfo_clear,
                    index_data := [], sb_pre_key := [], pre_offset_info := OffsetInfo_clear\<rparr>)))))))))))"

subsection \<open>The separator of a block\<close>

lemma agreeing_le: "agreeing k1 k2 \<le> length k1"
  by (induction k1 k2 rule: agreeing.induct) auto

lemma agreeing_append: "agreeing (p @ xs) (p @ ys) = length p + agreeing xs ys"
  by (induction p) auto

lemma lex_append: "(p @ xs :: bytes) < p @ ys \<longleftrightarrow> xs < ys"
  by (induction p) simp_all

lemma lex_append_le: "(p @ xs :: bytes) \<le> p @ ys \<longleftrightarrow> xs \<le> ys"
  by (induction p) simp_all

text \<open>
  When the keys agree nowhere after their first difference, the separator is the common
  prefix and the next byte of the first key plus one: it lies above the first key, and not
  above the second.
\<close>

lemma find_shortest_key_between:
  assumes "a < b" and "agreeing xs ys = 0"
  shows "\<exists>k. find_shortest_key (p @ a # xs) (p @ b # ys) = Inr k \<and> p @ a # xs < k \<and> k \<le> p @ b # ys"
proof -
  have lt: "p @ a # xs < p @ b # ys" using assms(1) by (simp add: lex_append)
  have cnt: "agreeing (p @ a # xs) (p @ b # ys) = length p"
    using assms by (auto simp: agreeing_append)
  have run: "find_shortest_key (p @ a # xs) (p @ b # ys) = Inr (p @ [a + 1])"
    using lt by (simp add: find_shortest_key_def cnt bump_back_def butlast_append)
  have "unat b < 2 ^ LENGTH(8)" by (rule unsigned_less)
  then have "unat a < unat b" "unat b < 256" using assms(1) by (simp_all add: word_less_nat_alt)
  then have "a < a + 1" "a + 1 \<le> b"
    by (simp_all add: word_less_nat_alt word_le_nat_alt unat_word_ariths)
  then have "p @ a # xs < p @ [a + 1]" "p @ [a + 1] \<le> p @ b # ys"
    by (auto simp: lex_append lex_append_le)
  with run show ?thesis by blast
qed

text \<open>
  In general the byte that is raised is the one after as many bytes as agree anywhere. The
  result is never above the second key; it is above the first unless this byte is 0xff and wraps.
\<close>

lemma byte_up: "(a :: byte) \<noteq> 255 \<Longrightarrow> a < a + 1"
proof -
  assume "a \<noteq> 255"
  then have "unat a \<noteq> 255" by (simp add: word_unat_eq_iff)
  moreover have "unat a < 2 ^ LENGTH(8)" by (rule unsigned_less)
  ultimately have "unat a + 1 < 256" by simp
  then show "a < a + 1" by (simp add: word_less_nat_alt unat_word_ariths)
qed

lemma find_shortest_key_differ:
  assumes "a < b"
  shows "\<exists>k. find_shortest_key (p @ a # xs) (p @ b # ys) = Inr k \<and> k \<le> p @ b # ys \<and>
           (agreeing xs ys = 0 \<or> xs ! (agreeing xs ys - 1) \<noteq> 255 \<longrightarrow> p @ a # xs < k)"
proof (cases "agreeing xs ys")
  case 0
  with find_shortest_key_between [OF assms 0] show ?thesis by blast
next
  case (Suc m)
  have lt: "p @ a # xs < p @ b # ys" using assms by (simp add: lex_append)
  have m: "m < length xs" using agreeing_le [of xs ys] Suc by simp
  have cnt: "agreeing (p @ a # xs) (p @ b # ys) = length p + Suc m" using assms Suc by (auto simp: agreeing_append)
  have take_xs: "take (Suc m) xs = take m xs @ [xs ! m]" using m by (simp add: take_Suc_conv_app_nth)
  have run: "find_shortest_key (p @ a # xs) (p @ b # ys) = Inr (p @ a # take m xs @ [xs ! m + 1])"
    using lt m take_xs by (simp add: find_shortest_key_def cnt bump_back_def butlast_append)
  have "p @ a # take m xs @ [xs ! m + 1] < p @ b # ys" using assms by (simp add: lex_append)
  moreover have "p @ a # xs < p @ a # take m xs @ [xs ! m + 1]" if "xs ! m \<noteq> 255"
  proof -
    have "xs = take m xs @ xs ! m # drop (Suc m) xs" using m by (simp add: id_take_nth_drop)
    moreover have "xs ! m # drop (Suc m) xs < [xs ! m + 1]" using byte_up [OF that] by simp
    ultimately have "xs < take m xs @ [xs ! m + 1]" by (metis lex_append)
    then show ?thesis by (simp add: lex_append)
  qed
  ultimately show ?thesis using run Suc by auto
qed

lemma agreeing_self: "agreeing p (p @ ys) = length p"
  by (induction p) auto

lemma find_shortest_key_prefix:
  assumes "p \<noteq> []"
  shows "find_shortest_key p (p @ c # ys) = Inr (p @ [32])" and "p @ [32] \<le> p @ c # ys \<longleftrightarrow> 32 \<le> c"
proof -
  have "p < p @ c # ys" using lex_append [of p "[]" "c # ys"] by simp
  with assms show "find_shortest_key p (p @ c # ys) = Inr (p @ [32])"
    by (simp add: find_shortest_key_def agreeing_self str_def)
  show "p @ [32] \<le> p @ c # ys \<longleftrightarrow> 32 \<le> c" by (auto simp: lex_append_le)
qed

subsection \<open>Closing a block\<close>

definition enc_index :: "bytes \<Rightarrow> OffsetInfo \<Rightarrow> bytes" where
  "enc_index k oi = EncodeFixed32 (of_nat (length k)) @ k @ EncodeFixed64 (offset_bits oi)"

lemma length_enc_index [simp]: "length (enc_index k oi) = length k + 12"
  by (simp add: enc_index_def)

lemma enc_index_nonempty [simp]: "enc_index k oi \<noteq> []"
  by (metis length_enc_index add_is_0 list.size(3) zero_neq_numeral)

lemma ib_add_enc: "snd (ib_add k oi data) = data @ enc_index k oi"
  by (simp add: ib_add_def enc_index_def codec_simps)

text \<open>The builder's own account of the file: what it has written, and where the next part goes.\<close>

definition sst_ok :: "sst_builder \<Rightarrow> bool" where
  "sst_ok b \<longleftrightarrow>
     fw_ok (fileWriter b) \<and> indexBlockBuilder b = [] \<and> footerBuilder b = [] \<and>
     usable (filterPolicy (filterBlockBuilder b)) \<and>
     FilterBlock_offset b = \<lparr>oi_size = 0, oi_offset = int (length (fw_total (fileWriter b)))\<rparr>"

lemma SSTableBuilder_ok:
  assumes "fw_ok w" and "fw_total w = []" and "FilterBlockBuilder logq num fp = Inr fb"
    and "usable (filterPolicy fb)"
  shows "\<exists>b. SSTableBuilder logq num w fp = Inr b \<and> sst_ok b \<and> fileWriter b = w \<and> index_data b = [] \<and>
           dataBlockBuilder b = DataBlockBuilder \<and> filterBlockBuilder b = fb \<and> keys_num b = num \<and>
           sb_false_positive b = fp \<and> sb_pre_key b = []"
  using assms by (simp add: SSTableBuilder_def sst_ok_def OffsetInfo_clear_def)

definition next_block :: "bytes \<Rightarrow> bytes \<Rightarrow> sst_builder \<Rightarrow> bytes" where
  "next_block key val b = db_data (snd (finish_data_block (snd (db_add key val (dataBlockBuilder b)))))"

lemma db_clear_new: "db_clear b = DataBlockBuilder"
  by (simp add: db_clear_def DataBlockBuilder_def)

lemma append_small:
  assumes "full_writes wr" and "fw_ok s" and "length xs < 2 ^ 31"
  obtains s' where "append_file wr xs (to_int32 (int (length xs))) False s = Inr (Success, s')"
    and "fw_ok s'" and "same_file s s'" and "fw_total s' = fw_total s @ xs"
  using append_file_ok [OF assms(1,2), of xs False] assms(3) by auto

lemma sst_add_full:
  assumes wr: "full_writes wr" and ok: "sst_ok b" and "key \<noteq> []"
    and big: "db_size (snd (db_add key val (dataBlockBuilder b))) > MAX_DATA_BLOCK_SIZE"
    and len: "length (next_block key val b) < 2 ^ 31" and sk: "find_shortest_key (sb_pre_key b) key = Inr sk"
  shows "\<exists>b'. sst_add wr key val b = Inr (Success, b') \<and> sst_ok b' \<and>
           fw_total (fileWriter b') = fw_total (fileWriter b) @ next_block key val b \<and>
           index_data b' = index_data b @ enc_index sk
             \<lparr>oi_size = int (length (next_block key val b)),
              oi_offset = int (length (fw_total (fileWriter b) @ next_block key val b))\<rparr> \<and>
           same_file (fileWriter b) (fileWriter b') \<and> dataBlockBuilder b' = DataBlockBuilder \<and> sb_pre_key b' = key \<and>
           filterBlockBuilder b' = fb_add key (filterBlockBuilder b) \<and> keys_num b' = keys_num b \<and>
           sb_false_positive b' = sb_false_positive b"
proof -
  let ?d = "next_block key val b"
  have fw: "fw_ok (fileWriter b)" using ok by (simp add: sst_ok_def)
  obtain w where w: "append_file wr ?d (to_int32 (int (length ?d))) False (fileWriter b) = Inr (Success, w)"
    "fw_ok w" "same_file (fileWriter b) w" "fw_total w = fw_total (fileWriter b) @ ?d"
    by (rule append_small [OF wr fw len])
  have "to_int32 (int (length ?d)) = int (length ?d)" using len by simp
  with w ok assms(3) big sk show ?thesis
    by (simp add: sst_add_def Let_def next_block_def [symmetric] sst_ok_def ib_add_enc ib_clear_def db_clear_new
        fb_add_def)
qed

lemma sst_add_room:
  assumes "sst_ok b" and "key \<noteq> []"
    and "db_size (snd (db_add key val (dataBlockBuilder b))) \<le> MAX_DATA_BLOCK_SIZE"
  shows "\<exists>b'. sst_add wr key val b = Inr (Success, b') \<and> sst_ok b' \<and> fileWriter b' = fileWriter b \<and>
           index_data b' = index_data b \<and> sb_pre_key b' = key \<and>
           dataBlockBuilder b' = snd (db_add key val (dataBlockBuilder b)) \<and>
           filterBlockBuilder b' = fb_add key (filterBlockBuilder b) \<and> keys_num b' = keys_num b \<and>
           sb_false_positive b' = sb_false_positive b"
  using assms by (simp add: sst_add_def Let_def sst_ok_def fb_add_def)

text \<open>A first record larger than a block: the separator is asked for before there is a previous key.\<close>

lemma sst_add_first_too_big:
  assumes wr: "full_writes wr" and ok: "sst_ok b" and "key \<noteq> []" and "sb_pre_key b = []"
    and big: "db_size (snd (db_add key val (dataBlockBuilder b))) > MAX_DATA_BLOCK_SIZE"
    and len: "length (next_block key val b) < 2 ^ 31"
  shows "sst_add wr key val b = Inl Assert_Failed"
proof -
  let ?d = "next_block key val b"
  have fw: "fw_ok (fileWriter b)" using ok by (simp add: sst_ok_def)
  obtain w where "append_file wr ?d (to_int32 (int (length ?d))) False (fileWriter b) = Inr (Success, w)"
    by (rule append_small [OF wr fw len])
  with assms(3,4) big show ?thesis
    by (simp add: sst_add_def Let_def next_block_def [symmetric] find_shortest_key_def)
qed

subsection \<open>The finished file\<close>

definition last_block :: "sst_builder \<Rightarrow> bytes" where
  "last_block b = db_data (snd (finish_data_block (dataBlockBuilder b)))"

lemma finish_last_block_ok:
  assumes wr: "full_writes wr" and ok: "sst_ok b" and some: "db_data (dataBlockBuilder b) \<noteq> []"
    and len: "length (last_block b) < 2 ^ 31" and pk: "bump_back (sb_pre_key b) = Inr pk"
  shows "\<exists>b'. finish_last_block wr b = Inr b' \<and> sst_ok b' \<and>
           fw_total (fileWriter b') = fw_total (fileWriter b) @ last_block b \<and>
           same_file (fileWriter b) (fileWriter b') \<and>
           index_data b' = index_data b @ enc_index pk
             \<lparr>oi_size = int (length (last_block b)), oi_offset = int (length (fw_total (fileWriter b)))\<rparr> \<and>
           filterBlockBuilder b' = filterBlockBuilder b \<and> keys_num b' = keys_num b \<and>
           sb_false_positive b' = sb_false_positive b"
proof -
  let ?d = "last_block b"
  have fw: "fw_ok (fileWriter b)" using ok by (simp add: sst_ok_def)
  obtain w where w: "append_file wr ?d (to_int32 (int (length ?d))) False (fileWriter b) = Inr (Success, w)"
    "fw_ok w" "same_file (fileWriter b) w" "fw_total w = fw_total (fileWriter b) @ ?d"
    by (rule append_small [OF wr fw len])
  have "to_int32 (int (length ?d)) = int (length ?d)" using len by simp
  with w ok some pk show ?thesis
    by (simp add: finish_last_block_def Let_def last_block_def [symmetric] db_size_def sst_ok_def ib_add_enc
        ib_clear_def)
qed

definition enc_footer :: "OffsetInfo \<Rightarrow> OffsetInfo \<Rightarrow> bytes" where
  "enc_footer meta idx = EncodeFixed64 (offset_bits meta) @ EncodeFixed64 (offset_bits idx)"

text \<open>The layout of a file from the length of its data blocks, its filter and its index.\<close>

text \<open>The writer is closed with an empty buffer, and only its own file has changed.\<close>

definition closed_after :: "writer \<Rightarrow> writer \<Rightarrow> bool" where
  "closed_after s s' \<longleftrightarrow> buffer_offset (fst s') = 0 \<and> dirs (snd s') = dirs (snd s) \<and>
     (\<forall>p. p \<noteq> fw_path (fst s) \<longrightarrow> files (snd s') p = files (snd s) p)"

definition sst_layout :: "bytes \<Rightarrow> bytes \<Rightarrow> bytes \<Rightarrow> bytes" where
  "sst_layout blocks filt idx =
     blocks @ filt @ idx
       @ enc_footer \<lparr>oi_size = int (length filt), oi_offset = int (length blocks)\<rparr>
           \<lparr>oi_size = int (length idx), oi_offset = int (length blocks + length filt)\<rparr>"

lemma finish_filter_block_twice:
  assumes "usable (filterPolicy fb)"
  obtains fb1 fb2 where "finish_filter_block fb = Inr fb1" and "finish_filter_block fb1 = Inr fb2"
    and "length (fb_data fb1) = length (fb_data fb2)"
    and "fb_data fb2 = bits_array (filterPolicy fb2) @ EncodeFixed32 (word_of_int (hash_func_num (filterPolicy fb2)))"
    and "\<forall>key \<in> set (key_data fb). holds_key (filterPolicy fb2) key" and "usable (filterPolicy fb2)"
    and "length (fb_data fb2) = length (bits_array (filterPolicy fb)) + 4"
proof -
  obtain fb1 where fb1: "finish_filter_block fb = Inr fb1" "usable (filterPolicy fb1)"
    "key_data fb1 = key_data fb" "same_shape (filterPolicy fb) (filterPolicy fb1)"
    "fb_data fb1 = bits_array (filterPolicy fb1) @ EncodeFixed32 (word_of_int (hash_func_num (filterPolicy fb1)))"
    using finish_filter_block_ok [OF assms] by blast
  obtain fb2 where fb2: "finish_filter_block fb1 = Inr fb2" "usable (filterPolicy fb2)"
    "same_shape (filterPolicy fb1) (filterPolicy fb2)"
    "fb_data fb2 = bits_array (filterPolicy fb2) @ EncodeFixed32 (word_of_int (hash_func_num (filterPolicy fb2)))"
    "\<forall>key \<in> set (key_data fb1). holds_key (filterPolicy fb2) key"
    using finish_filter_block_ok [OF fb1(2)] by blast
  show thesis
    by (rule that [OF fb1(1) fb2(1)]) (use fb1 fb2 in \<open>simp_all add: same_shape_def\<close>)
qed

lemma finish_filter_block_length:
  assumes "finish_filter_block fb = Inr fb1" and "finish_filter_block fb1 = Inr fb2" and "usable (filterPolicy fb)"
  shows "length (fb_data fb2) = length (bits_array (filterPolicy fb)) + 4"
  using finish_filter_block_twice [OF assms(3)] assms(1,2) by (metis Inr_inject)

text \<open>From the point where the last block is closed.\<close>

lemma finish_sst_rest:
  assumes wr: "full_writes wr" and fin: "finish_last_block wr b = Inr b1" and ok1: "sst_ok b1"
    and same1: "same_file (fileWriter b) (fileWriter b1)"
    and keep: "filterBlockBuilder b1 = filterBlockBuilder b" "keys_num b1 = keys_num b" "sb_false_positive b1 = sb_false_positive b"
    and fp: "FilterBlockBuilder logq (keys_num b) (sb_false_positive b) = Inr fb3"
    and blocks: "fw_total (fileWriter b1) = blocks" and idx: "index_data b1 = idx" "idx \<noteq> []"
    and len: "length blocks + length (bits_array (filterPolicy (filterBlockBuilder b))) + 4 + length idx < 2 ^ 31"
  shows "\<exists>b' fb1 fb2. finish_sst logq wr b = Inr (Success, b') \<and>
           finish_filter_block (filterBlockBuilder b) = Inr fb1 \<and> finish_filter_block fb1 = Inr fb2 \<and>
           files (snd (fileWriter b')) (fw_path (fst (fileWriter b))) = Some (sst_layout blocks (fb_data fb2) idx) \<and>
           fb_data fb2 = bits_array (filterPolicy fb2) @ EncodeFixed32 (word_of_int (hash_func_num (filterPolicy fb2))) \<and>
           usable (filterPolicy fb2) \<and> length (fb_data fb2) = length (bits_array (filterPolicy (filterBlockBuilder b))) + 4 \<and>
           (\<forall>key \<in> set (key_data (filterBlockBuilder b)). holds_key (filterPolicy fb2) key) \<and>
           closed_after (fileWriter b) (fileWriter b')"
proof -
  let ?fb = "filterBlockBuilder b"
  note b1 = fin ok1 blocks same1 idx(1) keep
  have fw1: "fw_ok (fileWriter b1)" and us: "usable (filterPolicy ?fb)"
    and off: "FilterBlock_offset b1 = \<lparr>oi_size = 0, oi_offset = int (length blocks)\<rparr>" and ft: "footerBuilder b1 = []"
    using b1(2,3,6) by (auto simp: sst_ok_def)
  obtain fb1 fb2 where fb: "finish_filter_block ?fb = Inr fb1" "finish_filter_block fb1 = Inr fb2"
    "length (fb_data fb1) = length (fb_data fb2)"
    "fb_data fb2 = bits_array (filterPolicy fb2) @ EncodeFixed32 (word_of_int (hash_func_num (filterPolicy fb2)))"
    "\<forall>key \<in> set (key_data ?fb). holds_key (filterPolicy fb2) key" "usable (filterPolicy fb2)"
    "length (fb_data fb2) = length (bits_array (filterPolicy ?fb)) + 4"
    by (rule finish_filter_block_twice [OF us])
  let ?filt = "fb_data fb2"
  have lens: "length ?filt < 2 ^ 31" "length idx < 2 ^ 31" using len fb(7) by simp_all
  obtain w1 where w1: "append_file wr ?filt (to_int32 (int (length ?filt))) False (fileWriter b1) = Inr (Success, w1)"
    "fw_ok w1" "same_file (fileWriter b1) w1" "fw_total w1 = blocks @ ?filt"
    using append_small [OF wr fw1 lens(1)] b1(3) by metis
  obtain w2 where w2: "append_file wr idx (to_int32 (int (length idx))) False w1 = Inr (Success, w2)"
    "fw_ok w2" "same_file w1 w2" "fw_total w2 = (blocks @ ?filt) @ idx"
    using append_small [OF wr w1(2) lens(2)] w1(4) by metis
  let ?meta = "\<lparr>oi_size = int (length ?filt), oi_offset = int (length blocks)\<rparr>"
  let ?ix = "\<lparr>oi_size = int (length idx), oi_offset = int (length blocks + length ?filt)\<rparr>"
  have ftl: "length (enc_footer ?meta ?ix) < 2 ^ 31" by (simp add: enc_footer_def)
  obtain w3 where w3: "append_file wr (enc_footer ?meta ?ix) (to_int32 (int (length (enc_footer ?meta ?ix)))) False w2
      = Inr (Success, w3)" "fw_ok w3" "same_file w2 w3" "fw_total w3 = fw_total w2 @ enc_footer ?meta ?ix"
    by (rule append_small [OF wr w2(2) ftl])
  have total3: "fw_total w3 = sst_layout blocks ?filt idx"
    unfolding w3(4) w2(4) sst_layout_def append_assoc ..
  obtain w4 where w4: "flush_file wr w3 = Inr (Success, w4)" "fw_ok w4" "same_file w3 w4"
    "fw_stored w4 = fw_total w3" "buffer_offset (fst w4) = 0"
    using flush_file_ok [OF wr w3(2)] by metis
  obtain x d where x: "w4 = (x, d)" by (cases w4)
  have close: "close_file wr w4 = Inr (x\<lparr>fd := - 1\<rparr>, d)"
    using w4(5) by (simp add: close_file_def flush_file_def x)
  have same: "same_file (fileWriter b) w4"
    by (rule same_file_trans [OF b1(4) same_file_trans [OF w1(3) same_file_trans [OF w2(3)
          same_file_trans [OF w3(3) w4(3)]]]])
  have stored: "files d (fw_path (fst (fileWriter b))) = Some (sst_layout blocks ?filt idx)"
    using w4(2,4) total3 same by (auto simp: x fw_stored_def fw_ok_def same_file_def)
  have pos: "to_int32 (int (length idx)) = int (length idx)" "0 < length idx"
    "to_int32 (int (length ?filt)) = int (length ?filt)"
    using lens idx(2) by simp_all
  have ftr: "snd (footer_add ?meta ?ix []) = enc_footer ?meta ?ix"
    by (simp add: footer_add_def enc_footer_def codec_simps)
  have "\<exists>b'. finish_sst logq wr b = Inr (Success, b') \<and> fileWriter b' = (x\<lparr>fd := - 1\<rparr>, d)"
    using b1(1,5,6,7,8) fb(1,2,3) w1(1) w2(1) w3(1) w4(1) close fp pos ftr
    by (simp add: finish_sst_def Let_def off ft add.commute)
  moreover have "closed_after (fileWriter b) (x\<lparr>fd := - 1\<rparr>, d)"
    using same w4(5) by (simp add: closed_after_def same_file_def x)
  ultimately show ?thesis using stored fb(1,2,4-7) by fastforce
qed

lemma finish_sst_layout:
  assumes wr: "full_writes wr" and ok: "sst_ok b" and some: "db_data (dataBlockBuilder b) \<noteq> []"
    and pk: "bump_back (sb_pre_key b) = Inr pk"
    and fp: "FilterBlockBuilder logq (keys_num b) (sb_false_positive b) = Inr fb3"
  defines "blocks \<equiv> fw_total (fileWriter b) @ last_block b"
    and "idx \<equiv> index_data b @ enc_index pk
           \<lparr>oi_size = int (length (last_block b)), oi_offset = int (length (fw_total (fileWriter b)))\<rparr>"
  assumes len: "length blocks + length (bits_array (filterPolicy (filterBlockBuilder b))) + 4 + length idx < 2 ^ 31"
  shows "\<exists>b' fb1 fb2. finish_sst logq wr b = Inr (Success, b') \<and>
           finish_filter_block (filterBlockBuilder b) = Inr fb1 \<and> finish_filter_block fb1 = Inr fb2 \<and>
           files (snd (fileWriter b')) (fw_path (fst (fileWriter b))) = Some (sst_layout blocks (fb_data fb2) idx) \<and>
           fb_data fb2 = bits_array (filterPolicy fb2) @ EncodeFixed32 (word_of_int (hash_func_num (filterPolicy fb2))) \<and>
           usable (filterPolicy fb2) \<and> length (fb_data fb2) = length (bits_array (filterPolicy (filterBlockBuilder b))) + 4 \<and>
           (\<forall>key \<in> set (key_data (filterBlockBuilder b)). holds_key (filterPolicy fb2) key)"
proof -
  have "length (last_block b) < 2 ^ 31" using len by (simp add: blocks_def)
  from finish_last_block_ok [OF wr ok some this pk] obtain b1 where b1: "finish_last_block wr b = Inr b1"
    "sst_ok b1" "fw_total (fileWriter b1) = blocks" "same_file (fileWriter b) (fileWriter b1)" "index_data b1 = idx"
    "filterBlockBuilder b1 = filterBlockBuilder b" "keys_num b1 = keys_num b" "sb_false_positive b1 = sb_false_positive b"
    unfolding blocks_def idx_def by blast
  have "idx \<noteq> []" by (simp add: idx_def)
  from finish_sst_rest [OF wr b1(1,2,4,6,7,8) fp b1(3,5) this len] show ?thesis by blast
qed

subsection \<open>A concrete builder\<close>

text \<open>A builder on an empty file, with one entry, and then one more that fills the block.\<close>

definition sample_path :: bytes where
  "sample_path = [100, 47, 102]"

definition sample_writer :: "bytes \<Rightarrow> writer" where
  "sample_writer c =
     (\<lparr>fd = 3, fw_path = sample_path, buffer_offset = 0, buffer = replicate BUFFER_SIZE 0\<rparr>,
      \<lparr>files = [sample_path \<mapsto> c], dirs = {[100]}\<rparr>)"

definition sample_filter :: filter_block where
  "sample_filter =
     \<lparr>filterPolicy = \<lparr>hash_func_num = 8, bits_per_key = 12, bits_array = [0, 0, 0]\<rparr>, key_data = [], fb_data = []\<rparr>"

definition sample_entries :: "(bytes \<times> bytes) list" where
  "sample_entries = [([107], [118]), ([109], replicate 4096 7)]"

lemma sample_writer_ok: "fw_ok (sample_writer [])" "fw_total (sample_writer []) = []"
  by (simp_all add: sample_writer_def fw_ok_def fw_total_def fw_stored_def)

lemma sample_writer_path: "fw_path (fst (sample_writer c)) = sample_path"
  by (simp add: sample_writer_def)

lemma sample_filter_block: "FilterBlockBuilder (\<lambda>n fp. - 20) 2 (1 / 100) = Inr sample_filter"
  by (simp add: FilterBlockBuilder_def BloomFilter_def sample_filter_def cdiv_def clamp_hash_num_def Let_def
      eval_nat_numeral)

lemma sample_filter_usable: "usable (filterPolicy sample_filter)"
  by (simp add: usable_def sample_filter_def)

lemma sample_one:
  obtains b b1 where "SSTableBuilder (\<lambda>n fp. - 20) 2 (sample_writer []) (1 / 100) = Inr b"
    and "sst_add all_written [107] [118] b = Inr (Success, b1)" and "sst_ok b1"
    and "fileWriter b1 = sample_writer []" and "index_data b1 = []" and "sb_pre_key b1 = [107]"
    and "dataBlockBuilder b1 = db_adds [([107], [118])] DataBlockBuilder"
    and "filterBlockBuilder b1 = fb_add [107] sample_filter" and "keys_num b1 = 2" and "sb_false_positive b1 = 1 / 100"
proof -
  obtain b where b: "SSTableBuilder (\<lambda>n fp. - 20) 2 (sample_writer []) (1 / 100) = Inr b" "sst_ok b"
    "fileWriter b = sample_writer []" "index_data b = []" "dataBlockBuilder b = DataBlockBuilder"
    "filterBlockBuilder b = sample_filter" "keys_num b = 2" "sb_false_positive b = 1 / 100"
    using SSTableBuilder_ok [OF sample_writer_ok sample_filter_block sample_filter_usable] by blast
  have "db_size (snd (db_add [107] [118] (dataBlockBuilder b))) \<le> MAX_DATA_BLOCK_SIZE"
    by (simp add: b(5) db_add_def DataBlockBuilder_def put_record_def codec_simps db_size_def MAX_DATA_BLOCK_SIZE_def)
  from sst_add_room [OF b(2) _ this, of all_written] b that show thesis by auto
qed

lemma sample_entries_small: "small sample_entries" "\<forall>(k, v) \<in> set sample_entries. k \<noteq> []"
  by (simp_all add: small_def sample_entries_def)

lemma sample_entries_length: "length (enc_records 0 [] sample_entries) = 4123"
  by (simp add: enc_record_def sample_entries_def)

lemma sample_builder:
  obtains b b1 where "SSTableBuilder (\<lambda>n fp. - 20) 2 (sample_writer []) (1 / 100) = Inr b"
    and "sst_add all_written [107] [118] b = Inr (Success, b1)" and "sst_ok b1" and "index_data b1 = []"
    and "sb_pre_key b1 = [107]" and "fw_total (fileWriter b1) = []"
    and "MAX_DATA_BLOCK_SIZE < db_size (snd (db_add [109] (replicate 4096 7) (dataBlockBuilder b1)))"
    and "length (next_block [109] (replicate 4096 7) b1) < 2 ^ 31"
proof -
  obtain b b1 where b: "SSTableBuilder (\<lambda>n fp. - 20) 2 (sample_writer []) (1 / 100) = Inr b"
    "sst_add all_written [107] [118] b = Inr (Success, b1)" "sst_ok b1" "fileWriter b1 = sample_writer []"
    "index_data b1 = []" "sb_pre_key b1 = [107]" "dataBlockBuilder b1 = db_adds [([107], [118])] DataBlockBuilder"
    by (rule sample_one)
  have data: "snd (db_add [109] (replicate 4096 7) (dataBlockBuilder b1)) = db_adds sample_entries DataBlockBuilder"
    by (simp add: b(7) sample_entries_def)
  have big: "MAX_DATA_BLOCK_SIZE < db_size (snd (db_add [109] (replicate 4096 7) (dataBlockBuilder b1)))"
    unfolding data db_size_def db_adds_data [OF sample_entries_small(2)] sample_entries_length MAX_DATA_BLOCK_SIZE_def
    by simp
  have nb: "next_block [109] (replicate 4096 7) b1 = block_of sample_entries"
    unfolding next_block_def data block_of_def ..
  obtain trailer where t: "block_of sample_entries = enc_records 0 [] sample_entries @ trailer"
    "length trailer = 12 * ((length sample_entries + 15) div 16) + 4"
    by (rule block_of_records [OF sample_entries_small(1)]) (simp add: sample_entries_def)
  have "length (next_block [109] (replicate 4096 7) b1) < 2 ^ 31"
    unfolding nb t(1) length_append sample_entries_length t(2) by (simp add: sample_entries_def)
  with big b that show thesis by (simp add: sample_writer_ok)
qed

subsection \<open>Properties\<close>

text \<open>
  For two keys with a first difference the separator is never above the second key, and above
  the first unless the raised byte is 0xff; for a key that is a proper prefix of the next the
  separator is the key and a space, which is above the next key when that goes on with a byte
  below the space.
\<close>

theorem sst_separator:
  assumes "a < b" and "p \<noteq> []"
  shows "(\<exists>k. find_shortest_key (p @ a # xs) (p @ b # ys) = Inr k \<and> k \<le> p @ b # ys \<and>
            (agreeing xs ys = 0 \<or> xs ! (agreeing xs ys - 1) \<noteq> 255 \<longrightarrow> p @ a # xs < k)) \<and>
         (\<exists>k. find_shortest_key p (p @ c # zs) = Inr k \<and> p < k \<and> (k \<le> p @ c # zs \<longleftrightarrow> 32 \<le> c))"
proof -
  have "p < p @ [32]" using lex_append [of p "[]" "[32]"] by simp
  with find_shortest_key_prefix [OF assms(2), of c zs] find_shortest_key_differ [OF assms(1), of p xs ys]
  show ?thesis by blast
qed

theorem sst_separator_witness:
  "(\<exists>k. find_shortest_key [97, 98, 120] [97, 100, 120] = Inr k \<and> k \<le> [97, 100, 120] \<and> [97, 98, 120] < k) \<and>
   (\<exists>k. find_shortest_key [97] [97, 1] = Inr k \<and> [97] < k \<and> \<not> k \<le> [97, 1])"
proof -
  have "(98 :: byte) < 100" "[97 :: byte] \<noteq> []" by simp_all
  note r = sst_separator [OF this, of "[120]" "[120]" "1" "[]"]
  have "agreeing [120] [120] = 1" "[120 :: byte] ! (1 - 1) \<noteq> 255" "\<not> (32 :: byte) \<le> 1"
    by (simp_all add: word_le_nat_alt)
  with r show ?thesis by auto
qed

text \<open>
  When a block is full, add appends it to the file and adds an index entry with the separator
  and the block's size; the offset in the entry is the end of the block, while finish_sst
  records the beginning of the last one.
\<close>

theorem sst_index_offset:
  assumes "full_writes wr" and "sst_ok b" and "key \<noteq> []" and "find_shortest_key (sb_pre_key b) key = Inr sk"
    and "MAX_DATA_BLOCK_SIZE < db_size (snd (db_add key val (dataBlockBuilder b)))"
    and "length (next_block key val b) < 2 ^ 31"
  shows "\<exists>b'. sst_add wr key val b = Inr (Success, b') \<and> sst_ok b' \<and>
           fw_total (fileWriter b') = fw_total (fileWriter b) @ next_block key val b \<and>
           index_data b' = index_data b @ enc_index sk
             \<lparr>oi_size = int (length (next_block key val b)), oi_offset = int (length (fw_total (fileWriter b')))\<rparr>"
  using sst_add_full [OF assms(1-3,5,6,4)] by auto

theorem sst_index_offset_witness:
  "\<exists>b b1 b2. SSTableBuilder (\<lambda>n fp. - 20) 2 (sample_writer []) (1 / 100) = Inr b \<and>
     sst_add all_written [107] [118] b = Inr (Success, b1) \<and>
     sst_add all_written [109] (replicate 4096 7) b1 = Inr (Success, b2) \<and>
     (\<exists>n. index_data b2 = enc_index [108] \<lparr>oi_size = n, oi_offset = n\<rparr>)"
proof -
  obtain b b1 where b: "SSTableBuilder (\<lambda>n fp. - 20) 2 (sample_writer []) (1 / 100) = Inr b"
    "sst_add all_written [107] [118] b = Inr (Success, b1)" "sst_ok b1" "index_data b1 = []" "sb_pre_key b1 = [107]"
    "fw_total (fileWriter b1) = []"
    "MAX_DATA_BLOCK_SIZE < db_size (snd (db_add [109] (replicate 4096 7) (dataBlockBuilder b1)))"
    "length (next_block [109] (replicate 4096 7) b1) < 2 ^ 31"
    by (rule sample_builder)
  have sk: "find_shortest_key (sb_pre_key b1) [109] = Inr [108]"
    by (simp add: b(5) find_shortest_key_def bump_back_def)
  obtain b2 where "sst_add all_written [109] (replicate 4096 7) b1 = Inr (Success, b2)"
    "fw_total (fileWriter b2) = fw_total (fileWriter b1) @ next_block [109] (replicate 4096 7) b1"
    "index_data b2 = index_data b1 @ enc_index [108] \<lparr>oi_size = int (length (next_block [109] (replicate 4096 7) b1)),
      oi_offset = int (length (fw_total (fileWriter b2)))\<rparr>"
    using sst_index_offset [OF full_writes_all_written b(3) _ sk b(7,8)] by blast
  with b(1,2,4,6) show ?thesis by auto
qed

end
