(* ===== verification/Sst_Parser.thy ===== *)
theory Sst_Parser
  imports Sst_Builder
begin

section \<open>Reading an SST file\<close>

text \<open>
  \<open>SSTParser\<close> (\<open>src/sstparser/sst_parser.h\<close>, \<open>sst_parser.cpp\<close>) with \<open>Header\<close>, \<open>IndexBlock\<close>
  and \<open>RestartPoint\<close>. A pointer into the file content is its offset from \<open>sst_content.data()\<close>;
  a read outside the content and its terminating NUL is undefined. \<open>Parse\<close> reads the number
  of hash functions through \<open>START + SIZE - 4\<close> taken as an address, without the content's
  base: \<open>mem\<close> is what the process has there, \<open>None\<close> where nothing is mapped.
\<close>

record Header =
  MetaBlock_OffsetInfo :: OffsetInfo
  IndexBlock_OffsetInfo :: OffsetInfo

record IndexBlock =
  shortest_key :: bytes
  ix_offsetInfo :: OffsetInfo

record RestartPoint =
  rp_record_num :: int
  rp_offset :: OffsetInfo
  rp_fullkey :: bytes

record sst_parser =
  sp_filterPolicy :: bloom
  index_blocks :: "IndexBlock list"
  sp_file :: bytes
  sst_content :: bytes
  header :: Header

definition SSTParser :: "bytes \<Rightarrow> fs \<Rightarrow> sst_parser res" where
  "SSTParser sst_filepath d =
     assert_res (access_ok d sst_filepath)
       (Inr \<lparr>sp_filterPolicy = BloomFilter0, index_blocks = [],
            sp_file = (case files d sst_filepath of None \<Rightarrow> [] | Some c \<Rightarrow> c), sst_content = [],
            header = \<lparr>MetaBlock_OffsetInfo = OffsetInfo_clear, IndexBlock_OffsetInfo = OffsetInfo_clear\<rparr>\<rparr>)"

text \<open>\<open>getline\<close> until the end: every line is appended without its newline.\<close>

definition ReadAll :: "sst_parser \<Rightarrow> sst_parser" where
  "ReadAll p = p\<lparr>sst_content := sst_content p @ filter (\<lambda>b. b \<noteq> 10) (sp_file p)\<rparr>"

definition peek :: "bytes \<Rightarrow> int \<Rightarrow> nat \<Rightarrow> bytes res" where
  "peek content i n = (if i < 0 then Inl Undefined_Behaviour else read_at (content @ [0]) (nat i) n)"

text \<open>\<open>std::string(ptr, n)\<close>: a negative \<open>n\<close> becomes a huge length and the constructor throws.\<close>

definition string_at :: "bytes \<Rightarrow> int \<Rightarrow> int \<Rightarrow> bytes res" where
  "string_at content i n = (if n < 0 then Inl Exception_Thrown else peek content i (nat n))"

definition peek_u32 :: "bytes \<Rightarrow> int \<Rightarrow> u32 res" where
  "peek_u32 content i = bind_res (peek content i 4) DecodeFixed32"

definition peek_u64 :: "bytes \<Rightarrow> int \<Rightarrow> u64 res" where
  "peek_u64 content i = bind_res (peek content i 8) DecodeFixed64"

text \<open>\<open>*reinterpret_cast<OffsetInfo *>(ptr)\<close> and \<open>*reinterpret_cast<int32_t *>(ptr)\<close>\<close>

definition peek_offset :: "bytes \<Rightarrow> int \<Rightarrow> OffsetInfo res" where
  "peek_offset content i = bind_res (peek_u64 content i) (\<lambda>x. Inr (bits_offset x))"

definition peek_int32 :: "bytes \<Rightarrow> int \<Rightarrow> int res" where
  "peek_int32 content i = bind_res (peek_u32 content i) (\<lambda>x. Inr (sint x))"

definition parse_header :: "bytes \<Rightarrow> Header res" where
  "parse_header content =
     bind_res (peek_offset content (int (length content) - 16)) (\<lambda>meta.
     bind_res (peek_offset content (int (length content) - 8)) (\<lambda>idx.
       Inr \<lparr>MetaBlock_OffsetInfo = meta, IndexBlock_OffsetInfo = idx\<rparr>))"

text \<open>The loop over the index; a negative key size throws, so \<open>start\<close> grows in every round.\<close>

function parse_index :: "bytes \<Rightarrow> int \<Rightarrow> int \<Rightarrow> IndexBlock list \<Rightarrow> (int \<times> IndexBlock list) res" where
  "parse_index content start stop acc =
     (if start < stop then
        bind_res (peek_int32 content start) (\<lambda>key_size.
          if key_size < 0 then Inl Exception_Thrown
          else
            bind_res (string_at content (start + 4) key_size) (\<lambda>key.
            bind_res (peek_offset content (start + 4 + key_size)) (\<lambda>oi.
              parse_index content (start + 4 + key_size + 8) stop
                (acc @ [\<lparr>shortest_key = key, ix_offsetInfo = oi\<rparr>]))))
      else Inr (start, acc))"
  by pat_completeness auto
termination
  by (relation "measure (\<lambda>(content, start, stop, acc). nat (stop - start))") auto

declare parse_index.simps [simp del]

definition Parse :: "(int \<Rightarrow> u32 option) \<Rightarrow> sst_parser \<Rightarrow> sst_parser res" where
  "Parse mem p0 =
     (let p = ReadAll p0; content = sst_content p
      in bind_res (parse_header content) (\<lambda>hdr.
         let start = oi_offset (IndexBlock_OffsetInfo hdr); sz = oi_size (IndexBlock_OffsetInfo hdr)
         in bind_res (parse_index content start (start + sz) (index_blocks p)) (\<lambda>(stop, blocks).
            assert_res (stop = start + sz)
              (let mstart = oi_offset (MetaBlock_OffsetInfo hdr); msz = oi_size (MetaBlock_OffsetInfo hdr)
               in bind_res (option_res Undefined_Behaviour (mem (mstart + msz - 4))) (\<lambda>hash_num.
                  bind_res (string_at content mstart (msz - 4)) (\<lambda>arr.
                    Inr (p\<lparr>header := hdr, index_blocks := blocks,
                           sp_filterPolicy := create_filter2 (sint hash_num) arr BloomFilter0\<rparr>)))))))"

definition Exists :: "sst_parser \<Rightarrow> bytes \<Rightarrow> bool res" where
  "Exists p key = filter_exists key (sp_filterPolicy p)"

fun find_index :: "bytes \<Rightarrow> int \<Rightarrow> IndexBlock list \<Rightarrow> int" where
  "find_index key i [] = - 1"
| "find_index key i (b # bs) = (if key < shortest_key b then i else find_index key (i + 1) bs)"

definition FindKeyDBIndex :: "sst_parser \<Rightarrow> bytes \<Rightarrow> int" where
  "FindKeyDBIndex p key = find_index key 0 (index_blocks p)"

definition FindFullKeyByRP :: "bytes \<Rightarrow> int \<Rightarrow> int \<Rightarrow> OffsetInfo \<Rightarrow> bytes res" where
  "FindFullKeyByRP content START num rg_offset =
     assert_res (num > 0)
       (let first = START + oi_offset rg_offset
        in bind_res (peek_int32 content first) (\<lambda>shared.
           assert_res (shared = 0)
             (bind_res (peek_int32 content (first + 4)) (\<lambda>unshared.
              assert_res (unshared > 0) (string_at content (first + 12) unshared)))))"

definition parse_rp :: "bytes \<Rightarrow> int \<Rightarrow> (int \<times> OffsetInfo) res" where
  "parse_rp content ptr =
     bind_res (peek_int32 content ptr) (\<lambda>num.
     bind_res (peek_offset content (ptr + 4)) (\<lambda>oi. Inr (num, oi)))"

text \<open>All three lengths are decoded at the same place.\<close>

definition parse_record :: "bytes \<Rightarrow> int \<Rightarrow> (int \<times> int \<times> bytes \<times> bytes) res" where
  "parse_record content ptr =
     bind_res (peek_int32 content ptr) (\<lambda>shared_key_len.
     bind_res (peek_int32 content ptr) (\<lambda>unshared_key_len.
     bind_res (peek_int32 content ptr) (\<lambda>value_len.
     bind_res (string_at content (ptr + 12) unshared_key_len) (\<lambda>unshared_key_content.
     bind_res (string_at content (ptr + 12 + unshared_key_len) value_len) (\<lambda>value_content.
       Inr (12 + unshared_key_len + value_len, shared_key_len, unshared_key_content, value_content))))))"

text \<open>The restart points up to the first whose key is above the one looked for; \<open>n\<close> are left.\<close>

fun collect_rps ::
  "bytes \<Rightarrow> bytes \<Rightarrow> int \<Rightarrow> int \<Rightarrow> int \<Rightarrow> nat \<Rightarrow> RestartPoint list \<Rightarrow> RestartPoint list res" where
  "collect_rps content key START base i 0 acc = Inr acc"
| "collect_rps content key START base i (Suc n) acc =
     bind_res (parse_rp content (base + i * 12)) (\<lambda>(num, oi).
     bind_res (FindFullKeyByRP content START num oi) (\<lambda>fullkey.
       if key < fullkey then Inr acc
       else collect_rps content key START base (i + 1) n
              (acc @ [\<lparr>rp_record_num = num, rp_offset = oi, rp_fullkey = fullkey\<rparr>])))"

text \<open>
  The records of a group. \<open>FULLKEY.substr(0, n).data()\<close> is a pointer to the whole key, which
  is then read up to its first NUL.
\<close>

fun scan_records :: "bytes \<Rightarrow> bytes \<Rightarrow> bytes \<Rightarrow> int \<Rightarrow> nat \<Rightarrow> (int \<times> bytes) res" where
  "scan_records content key FULLKEY ptr 0 = Inr (ptr, [])"
| "scan_records content key FULLKEY ptr (Suc n) =
     bind_res (parse_record content ptr) (\<lambda>(record_size, shared_key_len, unshared, val).
       let repaired_key = c_str FULLKEY @ unshared
       in if repaired_key = key then Inr (ptr + record_size, val)
          else scan_records content key FULLKEY (ptr + record_size) n)"

definition FindKeyInDB :: "bytes \<Rightarrow> bytes \<Rightarrow> int \<Rightarrow> int \<Rightarrow> bytes option res" where
  "FindKeyInDB content key START END_ptr =
     bind_res (peek_int32 content (END_ptr - 12)) (\<lambda>Restart_Num.
     bind_res (peek_offset content (END_ptr - 8)) (\<lambda>Restart_Offset.
     bind_res (collect_rps content key START (START + oi_offset Restart_Offset) 0 (nat Restart_Num) []) (\<lambda>rps.
       if rps = [] then Inr None
       else
         (let RP = last rps
          in assert_res (rp_fullkey RP \<le> key)
               (bind_res (scan_records content key (rp_fullkey RP) (START + oi_offset (rp_offset RP))
                            (nat (rp_record_num RP))) (\<lambda>(ptr, val).
                assert_res (ptr \<le> START + oi_offset (rp_offset RP) + oi_size (rp_offset RP))
                  (if val = [] then Inr None else Inr (Some val))))))))"

definition Seek :: "sst_parser \<Rightarrow> bytes \<Rightarrow> bytes option res" where
  "Seek p key =
     bind_res (Exists p key) (\<lambda>ex.
       if \<not> ex then Inr None
       else
         (let i = FindKeyDBIndex p key
          in if i = - 1 then Inr None
             else
               (let oi = ix_offsetInfo (index_blocks p ! nat i)
                in FindKeyInDB (sst_content p) key (oi_offset oi) (oi_offset oi + oi_size oi))))"

subsection \<open>Reading what the builder wrote\<close>

lemma ReadAll_content:
  "sst_content p = [] \<Longrightarrow> sst_content (ReadAll p) = sp_file p \<longleftrightarrow> 10 \<notin> set (sp_file p)"
  by (auto simp: ReadAll_def filter_id_conv)

lemma peek_middle:
  assumes "content = xs @ ys @ zs" and "i = int (length xs)" and "n = length ys"
  shows "peek content i n = Inr ys"
  using assms by (simp add: peek_def read_at_def)

lemma peek_u32_at:
  assumes "content = xs @ EncodeFixed32 v @ zs" and "i = int (length xs)"
  shows "peek_u32 content i = Inr v"
  using peek_middle [OF assms, of 4] DecodeFixed32_Encode [of v "[]"] by (simp add: peek_u32_def)

lemma peek_int32_at:
  assumes "content = xs @ EncodeFixed32 v @ zs" and "i = int (length xs)"
  shows "peek_int32 content i = Inr (sint v)"
  using peek_u32_at [OF assms] by (simp add: peek_int32_def)

lemma peek_offset_at:
  assumes "content = xs @ EncodeFixed64 (offset_bits oi) @ zs" and "i = int (length xs)"
    and "int32_range (oi_size oi)" and "int32_range (oi_offset oi)"
  shows "peek_offset content i = Inr oi"
  using peek_middle [OF assms(1,2), of 8] DecodeFixed64_Encode [of "offset_bits oi" "[]"] assms(3,4)
  by (simp add: peek_offset_def peek_u64_def bits_offset_bits)

lemma sint_of_nat_32: "n < 2 ^ 31 \<Longrightarrow> sint (of_nat n :: u32) = int n"
  using sint_word_of_int32 [of "int n"] by (simp add: int32_range_def)

text \<open>The header of a finished file gives the places of the filter and of the index.\<close>

lemma parse_header_layout:
  assumes "length blocks + length filt + length idx < 2 ^ 31"
  shows "parse_header (sst_layout blocks filt idx) = Inr
           \<lparr>MetaBlock_OffsetInfo = \<lparr>oi_size = int (length filt), oi_offset = int (length blocks)\<rparr>,
            IndexBlock_OffsetInfo = \<lparr>oi_size = int (length idx), oi_offset = int (length blocks + length filt)\<rparr>\<rparr>"
proof -
  let ?m = "\<lparr>oi_size = int (length filt), oi_offset = int (length blocks)\<rparr>"
  let ?x = "\<lparr>oi_size = int (length idx), oi_offset = int (length blocks + length filt)\<rparr>"
  let ?c = "sst_layout blocks filt idx"
  have r: "int32_range (oi_size ?m)" "int32_range (oi_offset ?m)" "int32_range (oi_size ?x)"
    "int32_range (oi_offset ?x)" using assms by (simp_all add: int32_range_def)
  have n: "int (length ?c) - 16 = int (length (blocks @ filt @ idx))"
    "int (length ?c) - 8 = int (length ((blocks @ filt @ idx) @ EncodeFixed64 (offset_bits ?m)))"
    by (simp_all add: sst_layout_def enc_footer_def)
  have "?c = (blocks @ filt @ idx) @ EncodeFixed64 (offset_bits ?m) @ EncodeFixed64 (offset_bits ?x)"
    by (simp add: sst_layout_def enc_footer_def)
  from peek_offset_at [OF this n(1) r(1,2)] have m: "peek_offset ?c (int (length ?c) - 16) = Inr ?m" .
  have "?c = ((blocks @ filt @ idx) @ EncodeFixed64 (offset_bits ?m)) @ EncodeFixed64 (offset_bits ?x) @ []"
    by (simp add: sst_layout_def enc_footer_def)
  from peek_offset_at [OF this n(2) r(3,4)] have x: "peek_offset ?c (int (length ?c) - 8) = Inr ?x" .
  show ?thesis by (simp add: parse_header_def m x)
qed

text \<open>The index loop gives back the entries the index builder was given.\<close>

definition index_entry :: "bytes \<times> OffsetInfo \<Rightarrow> IndexBlock" where
  "index_entry e = \<lparr>shortest_key = fst e, ix_offsetInfo = snd e\<rparr>"

definition small_entry :: "bytes \<times> OffsetInfo \<Rightarrow> bool" where
  "small_entry e \<longleftrightarrow> length (fst e) < 2 ^ 31 \<and> int32_range (oi_size (snd e)) \<and> int32_range (oi_offset (snd e))"

definition enc_entries :: "(bytes \<times> OffsetInfo) list \<Rightarrow> bytes" where
  "enc_entries es = concat (map (\<lambda>(k, oi). enc_index k oi) es)"

lemma parse_index_entry:
  assumes c: "content = xs @ enc_index k oi @ zs" and s: "start = int (length xs)" and "start < stop"
    and small: "small_entry (k, oi)"
  shows "parse_index content start stop acc =
           parse_index content (start + int (length (enc_index k oi))) stop (acc @ [index_entry (k, oi)])"
proof -
  have len: "length k < 2 ^ 31" and r: "int32_range (oi_size oi)" "int32_range (oi_offset oi)"
    using small by (simp_all add: small_entry_def)
  have "content = xs @ EncodeFixed32 (of_nat (length k)) @ (k @ EncodeFixed64 (offset_bits oi) @ zs)"
    by (simp add: c enc_index_def)
  from peek_int32_at [OF this s] have a: "peek_int32 content start = Inr (int (length k))"
    using sint_of_nat_32 [OF len] by simp
  have "content = (xs @ EncodeFixed32 (of_nat (length k))) @ k @ (EncodeFixed64 (offset_bits oi) @ zs)"
    by (simp add: c enc_index_def)
  from peek_middle [OF this, of "start + 4" "length k"] have b: "string_at content (start + 4) (int (length k)) = Inr k"
    by (simp add: string_at_def s)
  have "content = (xs @ EncodeFixed32 (of_nat (length k)) @ k) @ EncodeFixed64 (offset_bits oi) @ zs"
    by (simp add: c enc_index_def)
  from peek_offset_at [OF this _ r, of "start + 4 + int (length k)"]
  have d: "peek_offset content (start + 4 + int (length k)) = Inr oi" by (simp add: s)
  have e: "start + 4 + int (length k) + 8 = start + int (length (enc_index k oi))" by simp
  have "0 \<le> int (length k)" by simp
  then show ?thesis
    unfolding parse_index.simps [of content start] a b d e bind_res_simps index_entry_def fst_conv snd_conv
    using assms(3) by simp
qed

lemma parse_index_entries:
  assumes "content = xs @ enc_entries es @ zs" and "start = int (length xs)"
    and "stop = start + int (length (enc_entries es))" and "\<forall>e \<in> set es. small_entry e"
  shows "parse_index content start stop acc = Inr (stop, acc @ map index_entry es)"
  using assms
proof (induction es arbitrary: xs start acc)
  case Nil
  then show ?case by (subst parse_index.simps) (simp add: enc_entries_def)
next
  case (Cons e es)
  obtain k oi where e: "e = (k, oi)" by (cases e)
  have c: "content = xs @ enc_index k oi @ (enc_entries es @ zs)"
    using Cons.prems(1) by (simp add: e enc_entries_def)
  have lt: "start < stop" using Cons.prems(3) by (simp add: e enc_entries_def)
  have "parse_index content start stop acc =
      parse_index content (start + int (length (enc_index k oi))) stop (acc @ [index_entry (k, oi)])"
    using parse_index_entry [OF c Cons.prems(2) lt] Cons.prems(4) e by simp
  also have "\<dots> = Inr (stop, (acc @ [index_entry (k, oi)]) @ map index_entry es)"
  proof (rule Cons.IH)
    show "content = (xs @ enc_index k oi) @ enc_entries es @ zs" using c by simp
    show "start + int (length (enc_index k oi)) = int (length (xs @ enc_index k oi))" using Cons.prems(2) by simp
    show "stop = start + int (length (enc_index k oi)) + int (length (enc_entries es))"
      using Cons.prems(3) by (simp add: e enc_entries_def)
    show "\<forall>e \<in> set es. small_entry e" using Cons.prems(4) by simp
  qed
  finally show ?case by (simp add: e)
qed

text \<open>Parsing a finished file, as far as the hash number: what happens there depends on the address.\<close>

lemma Parse_layout:
  assumes content: "filter (\<lambda>b. b \<noteq> 10) (sp_file p) = sst_layout blocks filt (enc_entries es)"
    and new: "sst_content p = []" "index_blocks p = []"
    and len: "length blocks + length filt + length (enc_entries es) < 2 ^ 31"
    and small: "\<forall>e \<in> set es. small_entry e" and filt: "4 \<le> length filt"
  shows "Parse mem p =
           (case mem (int (length blocks + length filt) - 4) of
              None \<Rightarrow> Inl Undefined_Behaviour
            | Some n \<Rightarrow>
                Inr (p\<lparr>sst_content := sst_layout blocks filt (enc_entries es),
                       header := \<lparr>MetaBlock_OffsetInfo = \<lparr>oi_size = int (length filt), oi_offset = int (length blocks)\<rparr>,
                                   IndexBlock_OffsetInfo = \<lparr>oi_size = int (length (enc_entries es)),
                                                            oi_offset = int (length blocks + length filt)\<rparr>\<rparr>,
                       index_blocks := map index_entry es,
                       sp_filterPolicy := create_filter2 (sint n) (take (length filt - 4) filt) BloomFilter0\<rparr>))"
proof -
  let ?c = "sst_layout blocks filt (enc_entries es)"
  let ?start = "int (length blocks + length filt)"
  have c: "sst_content (ReadAll p) = ?c" "index_blocks (ReadAll p) = []"
    using content new by (simp_all add: ReadAll_def)
  obtain footer where "?c = (blocks @ filt) @ enc_entries es @ footer" by (simp add: sst_layout_def)
  then have idx: "parse_index ?c ?start (?start + int (length (enc_entries es))) [] =
      Inr (?start + int (length (enc_entries es)), map index_entry es)"
    using parse_index_entries [OF _ _ refl small, of ?c "blocks @ filt" footer ?start "[]"] by simp
  have "?c = blocks @ take (length filt - 4) filt @ (drop (length filt - 4) filt @ enc_entries es @ footer)"
    using \<open>?c = (blocks @ filt) @ enc_entries es @ footer\<close>
    by (metis append.assoc append_take_drop_id)
  then have "peek ?c (int (length blocks)) (length filt - 4) = Inr (take (length filt - 4) filt)"
    by (rule peek_middle) simp_all
  then have arr: "string_at ?c (int (length blocks)) (int (length filt) - 4) = Inr (take (length filt - 4) filt)"
    using filt by (simp add: string_at_def nat_diff_distrib)
  show ?thesis
    unfolding Parse_def Let_def c parse_header_layout [OF len]
    by (simp add: idx [simplified] arr ReadAll_def new content split: option.split)
qed

text \<open>Opening and parsing a finished file: the index entries in order, and a filter that finds its keys.\<close>

lemma Parse_finished:
  assumes stored: "files d path = Some (sst_layout blocks (fb_data fb) (enc_entries es))"
    and data: "fb_data fb = bits_array (filterPolicy fb) @ EncodeFixed32 (word_of_int (hash_func_num (filterPolicy fb)))"
    and us: "usable (filterPolicy fb)" and num: "hash_func_num (filterPolicy fb) = sint n"
    and small: "\<forall>e \<in> set es. small_entry e"
    and len: "length blocks + length (fb_data fb) + length (enc_entries es) < 2 ^ 31"
    and nl: "10 \<notin> set (sst_layout blocks (fb_data fb) (enc_entries es))"
    and mem: "mem (int (length blocks + length (fb_data fb)) - 4) = Some n"
  shows "\<exists>p0 p. SSTParser path d = Inr p0 \<and> Parse mem p0 = Inr p \<and> index_blocks p = map index_entry es \<and>
           sst_content p = sst_layout blocks (fb_data fb) (enc_entries es) \<and>
           (\<forall>key. key \<noteq> [] \<longrightarrow> holds_key (filterPolicy fb) key \<longrightarrow> Exists p key = Inr True)"
proof -
  obtain p0 where p0: "SSTParser path d = Inr p0"
    "sp_file p0 = sst_layout blocks (fb_data fb) (enc_entries es)" "sst_content p0 = []" "index_blocks p0 = []"
    by (simp add: SSTParser_def access_ok_def stored)
  have c: "filter (\<lambda>b. b \<noteq> 10) (sp_file p0) = sst_layout blocks (fb_data fb) (enc_entries es)"
    unfolding p0(2) using nl by (auto simp: filter_id_conv)
  have l4: "4 \<le> length (fb_data fb)" by (simp add: data)
  obtain p where p: "Parse mem p0 = Inr p" "index_blocks p = map index_entry es"
    "sst_content p = sst_layout blocks (fb_data fb) (enc_entries es)"
    "sp_filterPolicy p = create_filter2 (sint n) (take (length (fb_data fb) - 4) (fb_data fb)) BloomFilter0"
    using Parse_layout [OF c p0(3,4) len small l4, of mem] mem by auto
  have "filter_exists key (sp_filterPolicy p) = filter_exists key (filterPolicy fb)" for key
    unfolding p(4) num [symmetric] by (simp add: data filter_exists_def create_filter2_def)
  then have "\<forall>key. key \<noteq> [] \<longrightarrow> holds_key (filterPolicy fb) key \<longrightarrow> Exists p key = Inr True"
    by (simp add: Exists_def filter_exists_usable [OF us])
  with p0(1) p(1,2,3) show ?thesis by blast
qed

subsection \<open>Choosing the block\<close>

lemma find_index_spec:
  "find_index key i bs =
     (if \<exists>b \<in> set bs. key < shortest_key b
      then i + int (length (takeWhile (\<lambda>b. \<not> key < shortest_key b) bs)) else - 1)"
  by (induction bs arbitrary: i) auto

lemma FindKeyDBIndex_first:
  assumes "FindKeyDBIndex p key \<noteq> - 1"
  shows "0 \<le> FindKeyDBIndex p key" and "nat (FindKeyDBIndex p key) < length (index_blocks p)"
    and "key < shortest_key (index_blocks p ! nat (FindKeyDBIndex p key))"
    and "\<forall>j < nat (FindKeyDBIndex p key). shortest_key (index_blocks p ! j) \<le> key"
proof -
  let ?P = "\<lambda>b. \<not> key < shortest_key b"
  let ?t = "takeWhile ?P (index_blocks p)"
  have ex: "\<exists>b \<in> set (index_blocks p). key < shortest_key b" and i: "FindKeyDBIndex p key = int (length ?t)"
    using assms by (auto simp: FindKeyDBIndex_def find_index_spec split: if_splits)
  then show "0 \<le> FindKeyDBIndex p key" by simp
  have "length ?t \<noteq> length (index_blocks p)"
    using ex by (metis length_takeWhile_le takeWhile_eq_all_conv takeWhile_eq_take take_all_iff order_refl)
  then have lt: "length ?t < length (index_blocks p)"
    using length_takeWhile_le [of ?P "index_blocks p"] by simp
  with i show "nat (FindKeyDBIndex p key) < length (index_blocks p)" by simp
  from nth_length_takeWhile [OF lt] i show "key < shortest_key (index_blocks p ! nat (FindKeyDBIndex p key))" by simp
  show "\<forall>j < nat (FindKeyDBIndex p key). shortest_key (index_blocks p ! j) \<le> key"
    using i takeWhile_nth [of _ ?P "index_blocks p"] nth_mem set_takeWhileD
    by (metis nat_int not_less)
qed

subsection \<open>The trailer the parser expects\<close>

text \<open>
  The parser reads the number of restart points twelve bytes before the end of a block and
  their place eight bytes before it; the builder ends a block with the last restart point and
  the number. The two meet at the wrong places.
\<close>

lemma FindKeyInDB_trailer:
  assumes "content = xs @ block_of kvs @ ys" and "small kvs" and "kvs \<noteq> []"
    and len: "length (enc_records 0 [] kvs) < 2 ^ 31"
    and x: "x = last (group_offsets 0 0 [] kvs)" and xr: "0 \<le> x" "x < 2 ^ 31"
  defines "e \<equiv> int (length xs + length (block_of kvs))"
  shows "peek_int32 content (e - 12) = Inr (int (length (enc_records 0 [] kvs)) - x)"
    and "peek_offset content (e - 8) = Inr \<lparr>oi_size = x, oi_offset = sint (of_nat ((length kvs + 15) div 16) :: u32)\<rparr>"
proof -
  let ?n = "length (enc_records 0 [] kvs)"
  let ?k = "(of_nat ((length kvs + 15) div 16) :: u32)"
  obtain front x' where b0: "block_of kvs = front
      @ enc_restart (int (length kvs) mod RESTART_INTERVAL) (to_int32 (int ?n) - x') x' @ EncodeFixed32 ?k"
    and x': "x' = last (group_offsets 0 0 [] kvs)"
    by (rule block_of_trailer [OF assms(2,3)])
  have xx: "x' = x" using x x' by simp
  have n: "to_int32 (int ?n) = int ?n" using len by simp
  let ?r = "EncodeFixed32 (word_of_int (int (length kvs) mod RESTART_INTERVAL))"
  have b: "block_of kvs = front @ ?r @ EncodeFixed32 (word_of_int (int ?n - x)) @ EncodeFixed32 (word_of_int x) @ EncodeFixed32 ?k"
    unfolding b0 xx n enc_restart_def offset_bits_encode by simp
  have e: "e - 12 = int (length (xs @ front @ ?r))" "e - 8 = int (length (xs @ front @ ?r @ EncodeFixed32 (word_of_int (int ?n - x))))"
    unfolding e_def b by simp_all
  have c1: "content = (xs @ front @ ?r) @ EncodeFixed32 (word_of_int (int ?n - x)) @ (EncodeFixed32 (word_of_int x) @ EncodeFixed32 ?k @ ys)"
    unfolding assms(1) b by simp
  have "sint (word_of_int (int ?n - x) :: u32) = int ?n - x"
    using len xr by (intro sint_word_of_int32) (auto simp: int32_range_def)
  with peek_int32_at [OF c1 e(1)] show "peek_int32 content (e - 12) = Inr (int ?n - x)" by simp
  let ?oi = "\<lparr>oi_size = x, oi_offset = sint ?k\<rparr>"
  have enc: "EncodeFixed64 (offset_bits ?oi) = EncodeFixed32 (word_of_int x) @ EncodeFixed32 ?k"
    unfolding offset_bits_encode by simp
  have c2: "content = (xs @ front @ ?r @ EncodeFixed32 (word_of_int (int ?n - x))) @ EncodeFixed64 (offset_bits ?oi) @ ys"
    unfolding assms(1) b enc by simp
  have r: "int32_range (oi_size ?oi)" "int32_range (oi_offset ?oi)"
    using xr sint_greater_eq [of ?k] sint_less [of ?k] by (simp_all add: int32_range_def)
  show "peek_offset content (e - 8) = Inr ?oi" by (rule peek_offset_at [OF c2 e(2) r])
qed

subsection \<open>A concrete file\<close>

text \<open>What the concrete builder writes for one entry, evaluated.\<close>

definition sample_block :: bytes where
  "sample_block =
     [0, 0, 0, 0, 1, 0, 0, 0, 1, 0, 0, 0, 107, 118,
      1, 0, 0, 0, 14, 0, 0, 0, 0, 0, 0, 0, 1, 0, 0, 0]"

lemma sample_block: "block_of [([107], [118])] = sample_block"
  by code_simp

definition sample_finished :: filter_block where
  "sample_finished =
     \<lparr>filterPolicy = \<lparr>hash_func_num = 8, bits_per_key = 12, bits_array = [99, 140, 16]\<rparr>, key_data = [[107]],
      fb_data = [99, 140, 16, 8, 0, 0, 0]\<rparr>"

lemma sample_filter_finished:
  "finish_filter_block (fb_add [107] sample_filter) = Inr sample_finished"
  "finish_filter_block sample_finished = Inr sample_finished"
  by code_simp+

lemma sample_layout:
  "10 \<notin> set (sst_layout sample_block (fb_data sample_finished)
     (enc_entries [([108], \<lparr>oi_size = int (length sample_block), oi_offset = 0\<rparr>)]))"
  by code_simp

definition sample_parser :: sst_parser where
  "sample_parser =
     \<lparr>sp_filterPolicy = BloomFilter0, index_blocks = [], sp_file = [], sst_content = [],
      header = \<lparr>MetaBlock_OffsetInfo = OffsetInfo_clear, IndexBlock_OffsetInfo = OffsetInfo_clear\<rparr>\<rparr>"

subsection \<open>The first record of a group\<close>

lemma collect_rps_full:
  assumes "collect_rps content key START base i n [] = Inr rps" and "rp \<in> set rps"
  shows "FindFullKeyByRP content START (rp_record_num rp) (rp_offset rp) = Inr (rp_fullkey rp)"
proof -
  have "collect_rps content key START base i n acc = Inr rps \<Longrightarrow> rp \<in> set rps \<Longrightarrow>
      \<forall>a \<in> set acc. FindFullKeyByRP content START (rp_record_num a) (rp_offset a) = Inr (rp_fullkey a) \<Longrightarrow>
      FindFullKeyByRP content START (rp_record_num rp) (rp_offset rp) = Inr (rp_fullkey rp)" for acc
    by (induction content key START base i n acc rule: collect_rps.induct)
      (auto simp: bind_res_Inr_iff split: if_splits)
  with assms show ?thesis by simp
qed

text \<open>The record's first length is zero, and the other two are read at the same place.\<close>

lemma scan_first_empty:
  assumes full: "FindFullKeyByRP content START num oi = Inr key" and "no_nul key"
  shows "\<exists>p. scan_records content key key (START + oi_offset oi) n = Inr (p, [])"
proof (cases n)
  case 0
  then show ?thesis by simp
next
  case (Suc m)
  let ?p = "START + oi_offset oi"
  from full obtain u where u: "peek_int32 content ?p = Inr 0" "0 < u" "string_at content (?p + 12) u = Inr key"
    by (auto simp: FindFullKeyByRP_def Let_def assert_res_Inr_iff bind_res_Inr_iff)
  have "string_at content (?p + 12) 0 = Inr []"
    using u(2,3) by (auto simp: string_at_def peek_def read_at_def split: if_splits)
  then have "parse_record content ?p = Inr (12, 0, [], [])" using u(1) by (simp add: parse_record_def)
  with assms(2) show ?thesis by (simp add: Suc)
qed

text \<open>A block with one record, built by hand.\<close>

definition one_record_block :: bytes where
  "one_record_block =
     EncodeFixed32 0 @ EncodeFixed32 1 @ EncodeFixed32 1 @ [107, 118] @
     EncodeFixed32 1 @ EncodeFixed64 (offset_bits \<lparr>oi_size = 14, oi_offset = 0\<rparr>) @
     EncodeFixed32 1 @ EncodeFixed64 (offset_bits \<lparr>oi_size = 12, oi_offset = 14\<rparr>)"

lemma one_record_eval:
  "peek_int32 one_record_block (38 - 12) = Inr 1"
  "peek_offset one_record_block (38 - 8) = Inr \<lparr>oi_size = 12, oi_offset = 14\<rparr>"
  "collect_rps one_record_block [107] 0 (0 + oi_offset \<lparr>oi_size = 12, oi_offset = 14\<rparr>) 0 (nat 1) [] =
     Inr [\<lparr>rp_record_num = 1, rp_offset = \<lparr>oi_size = 14, oi_offset = 0\<rparr>, rp_fullkey = [107]\<rparr>]"
  "FindKeyInDB one_record_block [107] 0 38 = Inr None"
  by code_simp+

subsection \<open>Properties\<close>

text \<open>
  A builder with an unfinished block finishes its file; opening the file (which holds no
  newline byte) and parsing it, in a process that happens to have the number of hash functions
  at the address read, gives the index entries in order, the last with its place, and a filter
  that finds every key that was added.
\<close>

theorem sst_write_then_parse:
  assumes wr: "full_writes wr" and ok: "sst_ok b" and some: "db_data (dataBlockBuilder b) \<noteq> []"
    and pk: "bump_back (sb_pre_key b) = Inr pk" and "length pk < 2 ^ 31"
    and fp: "FilterBlockBuilder logq (keys_num b) (sb_false_positive b) = Inr fb0"
    and fb: "finish_filter_block (filterBlockBuilder b) = Inr fb1" "finish_filter_block fb1 = Inr fb2"
    and num: "hash_func_num (filterPolicy fb2) = sint n"
    and es: "index_data b = enc_entries es" "\<forall>e \<in> set es. small_entry e"
  defines "blocks \<equiv> fw_total (fileWriter b) @ last_block b"
    and "es' \<equiv> es @ [(pk, \<lparr>oi_size = int (length (last_block b)), oi_offset = int (length (fw_total (fileWriter b)))\<rparr>)]"
  assumes len: "length blocks + length (fb_data fb2) + length (enc_entries es') < 2 ^ 31"
    and nl: "10 \<notin> set (sst_layout blocks (fb_data fb2) (enc_entries es'))"
    and mem: "mem (int (length blocks + length (fb_data fb2)) - 4) = Some n"
  shows "\<exists>b' p0 p. finish_sst logq wr b = Inr (Success, b') \<and>
           SSTParser (fw_path (fst (fileWriter b))) (snd (fileWriter b')) = Inr p0 \<and> Parse mem p0 = Inr p \<and>
           index_blocks p = map index_entry es' \<and>
           (\<forall>key \<in> set (key_data (filterBlockBuilder b)). key \<noteq> [] \<longrightarrow> Exists p key = Inr True)"
proof -
  let ?oi = "\<lparr>oi_size = int (length (last_block b)), oi_offset = int (length (fw_total (fileWriter b)))\<rparr>"
  have idx: "index_data b @ enc_index pk ?oi = enc_entries es'" by (simp add: es'_def es(1) enc_entries_def)
  have us: "usable (filterPolicy (filterBlockBuilder b))" using ok by (simp add: sst_ok_def)
  have "length (fb_data fb2) = length (bits_array (filterPolicy (filterBlockBuilder b))) + 4"
    by (rule finish_filter_block_length [OF fb us])
  with len have "length (fw_total (fileWriter b) @ last_block b)
      + length (bits_array (filterPolicy (filterBlockBuilder b))) + 4 + length (index_data b @ enc_index pk ?oi) < 2 ^ 31"
    unfolding idx blocks_def by simp
  from finish_sst_layout [OF wr ok some pk fp this] fb obtain b' where
    b': "finish_sst logq wr b = Inr (Success, b')"
    and stored: "files (snd (fileWriter b')) (fw_path (fst (fileWriter b))) = Some (sst_layout blocks (fb_data fb2) (enc_entries es'))"
    and data: "fb_data fb2 = bits_array (filterPolicy fb2) @ EncodeFixed32 (word_of_int (hash_func_num (filterPolicy fb2)))"
    and f: "usable (filterPolicy fb2)" "\<forall>key \<in> set (key_data (filterBlockBuilder b)). holds_key (filterPolicy fb2) key"
    unfolding idx blocks_def [symmetric] by auto
  have "small_entry (pk, ?oi)"
    using assms(5) len by (simp add: small_entry_def int32_range_def blocks_def)
  then have small: "\<forall>e \<in> set es'. small_entry e" using es(2) by (simp add: es'_def)
  from Parse_finished [OF stored data f(1) num small len nl, of mem] mem f(2) b' show ?thesis by blast
qed

theorem sst_write_then_parse_witness:
  "\<exists>b b1 b' p0 p. SSTableBuilder (\<lambda>n fp. - 20) 2 (sample_writer []) (1 / 100) = Inr b \<and>
     sst_add all_written [107] [118] b = Inr (Success, b1) \<and> finish_sst (\<lambda>n fp. - 20) all_written b1 = Inr (Success, b') \<and>
     SSTParser sample_path (snd (fileWriter b')) = Inr p0 \<and> Parse (\<lambda>a. Some 8) p0 = Inr p \<and>
     index_blocks p = [index_entry ([108], \<lparr>oi_size = 30, oi_offset = 0\<rparr>)] \<and> Exists p [107] = Inr True"
proof -
  obtain b b1 where b1: "SSTableBuilder (\<lambda>n fp. - 20) 2 (sample_writer []) (1 / 100) = Inr b"
    "sst_add all_written [107] [118] b = Inr (Success, b1)" "sst_ok b1"
    "fileWriter b1 = sample_writer []" "index_data b1 = []" "sb_pre_key b1 = [107]"
    "dataBlockBuilder b1 = db_adds [([107], [118])] DataBlockBuilder"
    "filterBlockBuilder b1 = fb_add [107] sample_filter" "keys_num b1 = 2" "sb_false_positive b1 = 1 / 100"
    by (rule sample_one)
  have key: "key_data (filterBlockBuilder b1) = [[107]]" by (simp add: b1(8) sample_filter_def fb_add_def)
  have blk: "last_block b1 = sample_block" unfolding last_block_def b1(7) block_of_def [symmetric] by (rule sample_block)
  have pk: "bump_back (sb_pre_key b1) = Inr [108]" by (simp add: b1(6) bump_back_def)
  have some: "db_data (dataBlockBuilder b1) \<noteq> []" unfolding b1(7) by (subst db_adds_data(1)) (simp_all add: enc_record_def)
  have fp: "FilterBlockBuilder (\<lambda>n fp. - 20) (keys_num b1) (sb_false_positive b1) = Inr sample_filter"
    unfolding b1(9,10) by (rule sample_filter_block)
  have fin: "finish_filter_block (filterBlockBuilder b1) = Inr sample_finished"
    unfolding b1(8) by (rule sample_filter_finished(1))
  have idx: "index_data b1 = enc_entries []" by (simp add: b1(5) enc_entries_def)
  have n: "hash_func_num (filterPolicy sample_finished) = sint (8 :: u32)" by (simp add: sample_finished_def)
  have place: "fw_total (fileWriter b1) = []" "fw_path (fst (fileWriter b1)) = sample_path"
    by (simp_all add: b1(4) sample_writer_ok sample_writer_path)
  have zero: "int (length ([] :: bytes)) = 0" by simp
  note result = sst_write_then_parse [OF full_writes_all_written b1(3) some pk _ fp fin sample_filter_finished(2) n idx,
      unfolded blk place zero, simplified append_Nil, OF _ _ _ sample_layout, where mem = "\<lambda>a. Some 8"]
  from result b1(1,2) show ?thesis
    by (simp add: key sample_block_def sample_finished_def enc_entries_def)
qed

text \<open>
  The key whose add closes a block is the last one in it, but the separator of the block's
  index entry is not above it: when no earlier separator is either, the parser's index search
  does not find a block for this key.
\<close>

theorem sst_index_misses_last_key:
  assumes "full_writes wr" and "sst_ok b" and "sb_pre_key b = p @ x # xs" and "x < y" and "agreeing xs ys = 0"
    and "MAX_DATA_BLOCK_SIZE < db_size (snd (db_add (p @ y # ys) val (dataBlockBuilder b)))"
    and "length (next_block (p @ y # ys) val b) < 2 ^ 31"
    and "index_data b = enc_entries es" and "\<forall>(k, oi) \<in> set es. k \<le> p @ y # ys"
  shows "\<exists>b' sk oi. sst_add wr (p @ y # ys) val b = Inr (Success, b') \<and>
           index_data b' = enc_entries (es @ [(sk, oi)]) \<and>
           FindKeyDBIndex (ps\<lparr>index_blocks := map index_entry (es @ [(sk, oi)])\<rparr>) (p @ y # ys) = - 1"
proof -
  obtain sk where sk: "find_shortest_key (sb_pre_key b) (p @ y # ys) = Inr sk" "sk \<le> p @ y # ys"
    using find_shortest_key_between [OF assms(4,5)] unfolding assms(3) by blast
  obtain b' oi where b': "sst_add wr (p @ y # ys) val b = Inr (Success, b')"
    "index_data b' = index_data b @ enc_index sk oi"
    using sst_add_full [OF assms(1,2) _ assms(6,7) sk(1)] by blast
  have "index_data b' = enc_entries (es @ [(sk, oi)])" by (simp add: b'(2) assms(8) enc_entries_def)
  moreover have "FindKeyDBIndex (ps\<lparr>index_blocks := map index_entry (es @ [(sk, oi)])\<rparr>) (p @ y # ys) = - 1"
    using sk(2) assms(9) by (auto simp: FindKeyDBIndex_def find_index_spec index_entry_def not_less)
  ultimately show ?thesis using b'(1) by blast
qed

theorem sst_index_misses_last_key_witness:
  "\<exists>b b1 b2 sk oi. SSTableBuilder (\<lambda>n fp. - 20) 2 (sample_writer []) (1 / 100) = Inr b \<and>
     sst_add all_written [107] [118] b = Inr (Success, b1) \<and>
     sst_add all_written [109] (replicate 4096 7) b1 = Inr (Success, b2) \<and> index_data b2 = enc_entries [(sk, oi)] \<and>
     FindKeyDBIndex (sample_parser\<lparr>index_blocks := [index_entry (sk, oi)]\<rparr>) [109] = - 1"
proof -
  obtain b b1 where b: "SSTableBuilder (\<lambda>n fp. - 20) 2 (sample_writer []) (1 / 100) = Inr b"
    "sst_add all_written [107] [118] b = Inr (Success, b1)" "sst_ok b1" "index_data b1 = []" "sb_pre_key b1 = [107]"
    "MAX_DATA_BLOCK_SIZE < db_size (snd (db_add [109] (replicate 4096 7) (dataBlockBuilder b1)))"
    "length (next_block [109] (replicate 4096 7) b1) < 2 ^ 31"
    by (rule sample_builder)
  have pre: "sb_pre_key b1 = [] @ 107 # []" and ord: "(107 :: byte) < 109" and none: "agreeing [] [] = 0"
    using b(5) by simp_all
  from sst_index_misses_last_key [OF full_writes_all_written b(3) pre ord none, of "replicate 4096 7" "[]" sample_parser]
    b(1,2,4,6,7) show ?thesis by (simp add: enc_entries_def)
qed

text \<open>
  C36: A key that is the first of its group is never found: the parser takes the zero length
  of its shared prefix for the lengths of key and value too, so it reads an empty value, which
  counts as not found.
\<close>

theorem sst_restart_key_lost:
  assumes "peek_int32 content (stop - 12) = Inr n" and "peek_offset content (stop - 8) = Inr oi"
    and "collect_rps content key START (START + oi_offset oi) 0 (nat n) [] = Inr rps" and "rps \<noteq> []"
    and "rp_fullkey (last rps) = key" and "no_nul key"
  shows "FindKeyInDB content key START stop \<in> {Inr None, Inl Assert_Failed}"
proof -
  let ?rp = "last rps"
  have "FindFullKeyByRP content START (rp_record_num ?rp) (rp_offset ?rp) = Inr key"
    using collect_rps_full [OF assms(3)] assms(4,5) by simp
  from scan_first_empty [OF this assms(6), of "nat (rp_record_num ?rp)"] obtain p where
    "scan_records content key key (START + oi_offset (rp_offset ?rp)) (nat (rp_record_num ?rp)) = Inr (p, [])" by blast
  then show ?thesis using assms(1-5) by (auto simp: FindKeyInDB_def Let_def assert_res_def)
qed

theorem sst_restart_key_lost_witness:
  "FindKeyInDB one_record_block [107] 0 38 \<in> {Inr None, Inl Assert_Failed} \<and>
     FindKeyInDB one_record_block [107] 0 38 = Inr None"
  using sst_restart_key_lost [OF one_record_eval(1-3)] one_record_eval(4) by (simp add: no_nul_def)



end
