(* ===== verification/Db_Impl.thy ===== *)
theory Db_Impl
  imports Mem_Table Sharded_Cache Wal Sst_Parser
begin

section \<open>The database\<close>

text \<open>
  \<open>Options\<close> (\<open>src/db/options.h\<close>), \<open>DBImpl\<close> (\<open>db_impl.h\<close>, \<open>db_impl.cpp\<close>) and the facade \<open>DB\<close>
  (\<open>db.h\<close>, \<open>db.cpp\<close>). Every operation holds \<open>rwlock_\<close> for its whole body and is one step.
  The environment collects what the code takes from elsewhere: \<open>std::hash\<close>, the checksum,
  \<open>write(2)\<close>, the floating-point expression of the Bloom filter, the memory at an absolute
  address, and \<open>ConvertToL1SST\<close>, which no file of the repository defines. The tosses of the
  skip list and the time are arguments of the operations. The value a node of the cache
  points to is never written through the pointer, so the cache holds values.
\<close>

record Options =
  STORAGE_DIR :: bytes
  WAL_DIR :: bytes
  MEM_TABLE_MAX_SIZE :: u64
  CACHE_SIZE :: u32
  wal_sync :: bool
  LISST_NUM :: u32

definition MakeOptionsForDebugging :: Options where
  "MakeOptionsForDebugging =
     \<lparr>STORAGE_DIR = str ''./output/db_storage'', WAL_DIR = str ''./output/wal_log.txt'',
      MEM_TABLE_MAX_SIZE = 4 * 1024 * 1024, CACHE_SIZE = 4096, wal_sync = True, LISST_NUM = 0\<rparr>"

definition MakeOptionsForProduction :: Options where
  "MakeOptionsForProduction = MakeOptionsForDebugging"

record env =
  env_hash :: "bytes \<Rightarrow> u64"
  env_crc :: "bytes \<Rightarrow> u32"
  env_wr :: write_count
  env_logq :: "int \<Rightarrow> real \<Rightarrow> int"
  env_mem :: "int \<Rightarrow> u32 option"
  env_convert :: "memtable \<Rightarrow> bytes \<Rightarrow> sst_builder \<Rightarrow> sst_builder res"

record db_impl =
  mem_table :: memtable
  wal_writer :: file_writer
  db_cache :: "(bytes, bytes) cache"
  options :: Options
  disk :: fs

definition DBImpl :: "Options \<Rightarrow> fs \<Rightarrow> db_impl res" where
  "DBImpl opts d =
     bind_res (FileWriter (WAL_DIR opts) True d) (\<lambda>(w, d').
       Inr \<lparr>mem_table = MemTable, wal_writer = w,
            db_cache = cache_register_clean_handle (Cache (unat (CACHE_SIZE opts))),
            options = opts, disk = d'\<rparr>)"

definition EncodeKV :: "bytes \<Rightarrow> bytes \<Rightarrow> bytes res" where
  "EncodeKV key value =
     assert_res (length value < 2 ^ 32 - 1)
       (Inr (EncodeFixed32 (of_nat (length key)) @ key @ EncodeFixed32 (of_nat (length value)) @ value))"

text \<open>A \<open>char\<close> array becomes a \<open>string_view\<close> that ends before its first NUL.\<close>

definition view_of_chars :: "bytes \<Rightarrow> bytes res" where
  "view_of_chars buf = (if 0 \<in> set buf then Inr (c_str buf) else Inl Undefined_Behaviour)"

definition write_wal :: "env \<Rightarrow> bytes \<Rightarrow> bytes \<Rightarrow> db_impl \<Rightarrow> db_impl res" where
  "write_wal e key value s =
     bind_res (EncodeKV key value) (\<lambda>buf.
     bind_res (view_of_chars buf) (\<lambda>log.
     bind_res (AddLog (env_crc e) (env_wr e) log (wal_writer s, disk s)) (\<lambda>(st, (w, d)).
       Inr (s\<lparr>wal_writer := w, disk := d\<rparr>))))"

definition MemTableToSST :: "env \<Rightarrow> db_impl \<Rightarrow> db_impl res" where
  "MemTableToSST e s =
     (let path = STORAGE_DIR (options s) @ str ''/'' @ BuildSSTPath 0 (LISST_NUM (options s))
      in bind_res (FileWriter path True (disk s)) (\<lambda>fw.
         bind_res (SSTableBuilder (env_logq e) (to_int32 (MemTable_GetSize (mem_table s))) fw (1 / 100)) (\<lambda>builder.
         bind_res (env_convert e (mem_table s) path builder) (\<lambda>builder'.
         bind_res (destroy_file (env_wr e) (fileWriter builder')) (\<lambda>(w, d).
           Inr (s\<lparr>options := (options s)\<lparr>LISST_NUM := LISST_NUM (options s) + 1\<rparr>, disk := d\<rparr>))))))"

text \<open>\<open>GetMemUsage()\<close> is signed and the limit is not: both are compared as \<open>uint64_t\<close>.\<close>

definition mem_usage_bits :: "db_impl \<Rightarrow> u64" where
  "mem_usage_bits s = word_of_int (MemTable_GetMemUsage (mem_table s))"

definition renew_table :: "env \<Rightarrow> db_impl \<Rightarrow> db_impl res" where
  "renew_table e s = bind_res (MemTableToSST e s) (\<lambda>s'. Inr (s'\<lparr>mem_table := MemTable\<rparr>))"

definition DBImpl_Put ::
  "env \<Rightarrow> coins \<Rightarrow> u64 \<Rightarrow> bytes \<Rightarrow> bytes \<Rightarrow> db_impl \<Rightarrow> (DBStatus \<times> db_impl) res" where
  "DBImpl_Put e coin now key value s =
     bind_res (write_wal e key value s) (\<lambda>s1.
     bind_res (option_res Undefined_Behaviour (MemTable_Contains (mem_table s1) key)) (\<lambda>present.
     bind_res (option_res Undefined_Behaviour
        (if present then MemTable_Update coin key value (mem_table s1)
         else MemTable_Add coin key value (mem_table s1))) (\<lambda>m.
     let s2 = s1\<lparr>mem_table := m\<rparr>
     in if key = [] \<or> value = [] then Inr (InvalidArgs, s2)
        else
          bind_res (cache_insert (env_hash e) now key value (db_cache s2)) (\<lambda>cs.
            let s3 = s2\<lparr>db_cache := cs\<rparr>
            in if mem_usage_bits s3 > MEM_TABLE_MAX_SIZE (options s3)
               then bind_res (renew_table e s3) (\<lambda>s4. Inr (Success, s4))
               else Inr (Success, s3)))))"

definition DBImpl_Delete ::
  "env \<Rightarrow> coins \<Rightarrow> bytes \<Rightarrow> db_impl \<Rightarrow> (DBStatus \<times> db_impl) res" where
  "DBImpl_Delete e coin key s =
     (if key = [] then Inr (InvalidArgs, s)
      else
        bind_res (write_wal e key [] s) (\<lambda>s1.
        bind_res (option_res Undefined_Behaviour (MemTable_Contains (mem_table s1) key)) (\<lambda>present.
        bind_res (option_res Undefined_Behaviour
           (if present then MemTable_Delete coin key (mem_table s1)
            else MemTable_Add coin key [] (mem_table s1))) (\<lambda>m.
        let s2 = s1\<lparr>mem_table := m\<rparr>
        in bind_res (cache_erase (env_hash e) (c_str key) (db_cache s2)) (\<lambda>cs.
             let s3 = s2\<lparr>db_cache := cs\<rparr>
             in if mem_usage_bits s3 \<ge> MEM_TABLE_MAX_SIZE (options s3)
                then bind_res (renew_table e s3) (\<lambda>s4. Inr (Success, s4))
                else Inr (Success, s3))))))"

text \<open>The result string is \<open>None\<close> for a null pointer.\<close>

definition DBImpl_Get ::
  "env \<Rightarrow> u64 \<Rightarrow> bytes \<Rightarrow> bytes option \<Rightarrow> db_impl \<Rightarrow> (DBStatus \<times> bytes option \<times> db_impl) res" where
  "DBImpl_Get e now key ret s =
     (case ret of None \<Rightarrow> Inr (InvalidArgs, ret, s)
      | Some out \<Rightarrow>
          if key = [] then Inr (InvalidArgs, ret, s)
          else if cache_contains (env_hash e) (c_str key) (db_cache s) then
            bind_res (cache_get (env_hash e) (c_str key) (db_cache s)) (\<lambda>(node, cs).
            bind_res (option_res Undefined_Behaviour node) (\<lambda>a.
            bind_res (cache_node_val (env_hash e) (c_str key) cs a) (\<lambda>v.
              Inr (Success, Some v, s\<lparr>db_cache := cs\<rparr>))))
          else
            bind_res (option_res Undefined_Behaviour (MemTable_Contains (mem_table s) key)) (\<lambda>present.
              if present then
                bind_res (option_res Undefined_Behaviour (MemTable_Get (mem_table s) (c_str key))) (\<lambda>v.
                bind_res (option_res Exception_Thrown v) (\<lambda>w. Inr (Success, Some w, s)))
              else
                bind_res (SSTParser (STORAGE_DIR (options s) @ str ''level_0_sst_0.sst'') (disk s)) (\<lambda>p0.
                bind_res (Parse (env_mem e) p0) (\<lambda>p.
                bind_res (Seek p key) (\<lambda>found.
                  case found of None \<Rightarrow> Inr (NotFound, ret, s)
                  | Some v \<Rightarrow>
                      bind_res (cache_insert (env_hash e) now (c_str key) v (db_cache s)) (\<lambda>cs.
                        Inr (Success, Some (out @ v), s\<lparr>db_cache := cs\<rparr>)))))))"

definition DBImpl_BatchPut :: "db_impl \<Rightarrow> DBStatus \<times> db_impl" where
  "DBImpl_BatchPut s = (NotImpl, s)"

definition DBImpl_BatchDelete :: "db_impl \<Rightarrow> DBStatus \<times> db_impl" where
  "DBImpl_BatchDelete s = (NotImpl, s)"

definition DBImpl_Close :: "db_impl \<Rightarrow> DBStatus \<times> db_impl" where
  "DBImpl_Close s = (Success, s)"

text \<open>\<open>~DBImpl\<close>: the log writer closes its file.\<close>

definition DBImpl_destroy :: "env \<Rightarrow> db_impl \<Rightarrow> fs res" where
  "DBImpl_destroy e s =
     bind_res (WALWriter_destroy (env_wr e) (wal_writer s, disk s)) (\<lambda>w.
     bind_res (destroy_file (env_wr e) w) (\<lambda>(w', d). Inr d))"

subsection \<open>The facade\<close>

record DB =
  impl :: db_impl

definition DB_open :: "Options \<Rightarrow> fs \<Rightarrow> DB res" where
  "DB_open opts d = bind_res (DBImpl opts d) (\<lambda>i. Inr \<lparr>impl = i\<rparr>)"

definition DB_Put :: "env \<Rightarrow> coins \<Rightarrow> u64 \<Rightarrow> bytes \<Rightarrow> bytes \<Rightarrow> DB \<Rightarrow> (DBStatus \<times> DB) res" where
  "DB_Put e coin now key value db =
     bind_res (DBImpl_Put e coin now key value (impl db)) (\<lambda>(st, i). Inr (st, db\<lparr>impl := i\<rparr>))"

definition DB_Delete :: "env \<Rightarrow> coins \<Rightarrow> bytes \<Rightarrow> DB \<Rightarrow> (DBStatus \<times> DB) res" where
  "DB_Delete e coin key db =
     bind_res (DBImpl_Delete e coin key (impl db)) (\<lambda>(st, i). Inr (st, db\<lparr>impl := i\<rparr>))"

definition DB_Get :: "env \<Rightarrow> u64 \<Rightarrow> bytes \<Rightarrow> bytes option \<Rightarrow> DB \<Rightarrow> (DBStatus \<times> bytes option \<times> DB) res" where
  "DB_Get e now key value db =
     bind_res (DBImpl_Get e now key value (impl db)) (\<lambda>(st, out, i). Inr (st, out, db\<lparr>impl := i\<rparr>))"

definition DB_BatchPut :: "DB \<Rightarrow> DBStatus \<times> DB" where
  "DB_BatchPut db = (let (st, i) = DBImpl_BatchPut (impl db) in (st, db\<lparr>impl := i\<rparr>))"

definition DB_BatchDelete :: "DB \<Rightarrow> DBStatus \<times> DB" where
  "DB_BatchDelete db = (let (st, i) = DBImpl_BatchDelete (impl db) in (st, db\<lparr>impl := i\<rparr>))"

definition DB_Close :: "DB \<Rightarrow> DBStatus \<times> DB" where
  "DB_Close db = (let (st, i) = DBImpl_Close (impl db) in (st, db\<lparr>impl := i\<rparr>))"

end
