(* ===== verification/Db_Correct.thy ===== *)
theory Db_Correct
  imports Db_Impl
begin

section \<open>What the database promises\<close>

text \<open>
  The abstract state is the map \<open>M\<close> of the active table and the entry lists \<open>ls\<close> of the cache
  shards; \<open>db_ok\<close> relates a database to them. The lemmas give the effect of \<open>Put\<close>, \<open>Delete\<close>
  and \<open>Get\<close> on this state and what a \<open>Get\<close> sees afterwards, for tables below the limit.
\<close>

definition db_ok :: "env \<Rightarrow> db_impl \<Rightarrow> (bytes \<Rightarrow> bytes option) \<Rightarrow> (bytes \<times> bytes) list list \<Rightarrow> bool" where
  "db_ok e s M ls \<longleftrightarrow>
     full_writes (env_wr e) \<and> mt_abs (mem_table s) M \<and> fw_ok (wal_writer s, disk s) \<and>
     cache_rep (unat (CACHE_SIZE (options s))) (db_cache s) ls"

definition db_view :: "env \<Rightarrow> (bytes \<Rightarrow> bytes option) \<Rightarrow> (bytes \<times> bytes) list list \<Rightarrow> bytes \<Rightarrow> bytes option" where
  "db_view e M ls k =
     (case cache_map (env_hash e) ls k of Some v \<Rightarrow> Some v | None \<Rightarrow> M k)"

subsection \<open>The size of a table\<close>

definition table_bytes :: "(bytes \<Rightarrow> bytes option) \<Rightarrow> nat" where
  "table_bytes M = (\<Sum>k \<in> dom M. length k + length (the (M k)))"

lemma mem_usage_table:
  assumes "mt_abs m M"
  shows "MemTable_GetMemUsage m = int (table_bytes M)"
proof -
  from assms obtain kvs where rep: "mt_rep m kvs" and M: "M = map_of kvs" by (auto simp: mt_abs_def)
  have d: "distinct (map fst kvs)" using mt_rep_sorted [OF rep] by (simp add: strict_sorted_iff)
  have "(\<Sum>(k, v) \<leftarrow> kvs. int (length k) + int (length v)) = (\<Sum>kv \<leftarrow> kvs. int (length (fst kv) + length (the (M (fst kv)))))"
    using d by (intro arg_cong [where f = sum_list] map_cong refl) (auto simp: M)
  also have "\<dots> = (\<Sum>k \<leftarrow> map fst kvs. int (length k + length (the (M k))))" by (simp add: comp_def)
  also have "\<dots> = (\<Sum>k \<in> set (map fst kvs). int (length k + length (the (M k))))"
    using d by (rule sum_list_distinct_conv_sum_set)
  also have "\<dots> = int (table_bytes M)" by (simp add: table_bytes_def M dom_map_of_conv_image_fst)
  finally show ?thesis using mt_rep_counts(2) [OF rep] by simp
qed

definition has_room :: "db_impl \<Rightarrow> (bytes \<Rightarrow> bytes option) \<Rightarrow> bool" where
  "has_room s M \<longleftrightarrow> (of_nat (table_bytes M) :: u64) < MEM_TABLE_MAX_SIZE (options s)"

lemma mem_usage_bits_room:
  "mt_abs (mem_table s) M \<Longrightarrow> mem_usage_bits s = of_nat (table_bytes M)"
  by (simp add: mem_usage_bits_def mem_usage_table)

subsection \<open>The log\<close>

lemma byte_3_zero:
  assumes "n < 2 ^ 24"
  shows "EncodeFixed32 (of_nat n) ! 3 = 0"
proof -
  have "drop_bit 24 (of_nat n :: u32) = 0"
    unfolding word_unat_eq_iff unat_drop_bit_eq unat_of_nat using assms by (simp add: drop_bit_eq_div)
  then show ?thesis by (simp add: EncodeFixed32_def)
qed

text \<open>What is left of the encoded pair: the bytes of the key's length before the first zero byte.\<close>

definition wal_log :: "bytes \<Rightarrow> bytes" where
  "wal_log key = c_str (EncodeFixed32 (of_nat (length key)))"

lemma takeWhile_stops: "\<exists>x \<in> set xs. \<not> P x \<Longrightarrow> takeWhile P (xs @ ys) = takeWhile P xs"
  by (induction xs) auto

lemma wal_payload:
  assumes "length key < 2 ^ 24" and "length vl < 2 ^ 32 - 1"
  shows "\<exists>buf. EncodeKV key vl = Inr buf \<and> view_of_chars buf = Inr (c_str buf) \<and> length (c_str buf) \<le> 3 \<and>
           c_str buf = wal_log key"
proof -
  let ?h = "EncodeFixed32 (of_nat (length key))"
  let ?buf = "?h @ key @ EncodeFixed32 (of_nat (length vl)) @ vl"
  have z: "?buf ! 3 = 0" using byte_3_zero [OF assms(1)] by (simp add: nth_append)
  have l: "3 < length ?buf" by simp
  have "0 \<in> set ?buf" using z l by (metis nth_mem)
  moreover have "length (c_str ?buf) \<le> 3"
  proof (rule ccontr)
    assume "\<not> length (c_str ?buf) \<le> 3"
    then have "3 < length (takeWhile (\<lambda>b. b \<noteq> 0) ?buf)" by (simp add: c_str_def)
    then have "?buf ! 3 \<noteq> 0" using nth_mem set_takeWhileD takeWhile_nth by (metis (mono_tags, lifting))
    with z show False by simp
  qed
  moreover have "c_str ?buf = wal_log key"
  proof -
    have "?h ! 3 \<in> set ?h" by (rule nth_mem) simp
    then have "0 \<in> set ?h" using byte_3_zero [OF assms(1)] by simp
    then show ?thesis unfolding c_str_def wal_log_def by (intro takeWhile_stops) blast
  qed
  ultimately show ?thesis using assms(2) by (simp add: EncodeKV_def view_of_chars_def)
qed

text \<open>One write adds one record to the log file, all of it on disk, and touches no other file.\<close>

definition wrote_log :: "env \<Rightarrow> bytes \<Rightarrow> db_impl \<Rightarrow> db_impl \<Rightarrow> bool" where
  "wrote_log e key s s' \<longleftrightarrow>
     same_file (wal_writer s, disk s) (wal_writer s', disk s') \<and>
     fw_total (wal_writer s', disk s') = fw_total (wal_writer s, disk s) @ wal_record (env_crc e) (wal_log key) \<and>
     fw_stored (wal_writer s', disk s') = fw_total (wal_writer s', disk s')"

lemma write_wal_ok:
  assumes ok: "db_ok e s M ls" and "length key < 2 ^ 24" and "length vl < 2 ^ 32 - 1"
  obtains s' log where "write_wal e key vl s = Inr s'" and "db_ok e s' M ls"
    and "s' = s\<lparr>wal_writer := wal_writer s', disk := disk s'\<rparr>"
    and "same_file (wal_writer s, disk s) (wal_writer s', disk s')"
    and "fw_stored (wal_writer s', disk s') = fw_total (wal_writer s, disk s) @ wal_record (env_crc e) log"
    and "EncodeKV key vl = Inr (log @ drop (length log) (projr (EncodeKV key vl)))" and "length log \<le> 3"
    and "wrote_log e key s s'"
proof -
  obtain buf where buf: "EncodeKV key vl = Inr buf" "view_of_chars buf = Inr (c_str buf)" "length (c_str buf) \<le> 3"
    "c_str buf = wal_log key"
    using wal_payload [OF assms(2,3)] by blast
  have wr: "full_writes (env_wr e)" and fw: "fw_ok (wal_writer s, disk s)" using ok by (simp_all add: db_ok_def)
  have "length (c_str buf) < 2 ^ 31" using buf(3) by simp
  from AddLog_ok [OF wr fw this, of "env_crc e"] obtain w d where
    wd: "AddLog (env_crc e) (env_wr e) (c_str buf) (wal_writer s, disk s) = Inr (Success, (w, d))" "fw_ok (w, d)"
    "same_file (wal_writer s, disk s) (w, d)"
    "fw_stored (w, d) = fw_total (wal_writer s, disk s) @ wal_record (env_crc e) (c_str buf)"
    "fw_stored (w, d) = fw_total (w, d)"
    by auto
  let ?s = "s\<lparr>wal_writer := w, disk := d\<rparr>"
  have "c_str buf @ drop (length (c_str buf)) buf = buf"
    unfolding c_str_def by (metis append_take_drop_id takeWhile_eq_take)
  moreover have "write_wal e key vl s = Inr ?s" using buf(1,2) wd(1) by (simp add: write_wal_def)
  moreover have "db_ok e ?s M ls" using ok wd(2) by (simp add: db_ok_def)
  ultimately show thesis using that [of ?s "c_str buf"] wd(3-5) buf(1,3,4) by (simp add: wrote_log_def)
qed

subsection \<open>Put\<close>

definition shard :: "env \<Rightarrow> bytes \<Rightarrow> nat" where
  "shard e k = sharding_index (env_hash e) k"

definition put_shards :: "env \<Rightarrow> db_impl \<Rightarrow> bytes \<Rightarrow> bytes \<Rightarrow> (bytes \<times> bytes) list list \<Rightarrow> (bytes \<times> bytes) list list" where
  "put_shards e s k v ls = ls[shard e k := remember (unat (CACHE_SIZE (options s))) k v (ls ! shard e k)]"

lemma put_table:
  assumes "db_ok e s M ls"
  obtains b m where "MemTable_Contains (mem_table s) key = Some b"
    and "(if b then MemTable_Update coin key vl (mem_table s) else MemTable_Add coin key vl (mem_table s)) = Some m"
    and "mt_abs m (M(c_str key \<mapsto> c_str vl))"
  using mt.store [of "mem_table s" M key coin vl] assms by (auto simp: db_ok_def)

lemma Put_invalid_logs:
  assumes ok: "db_ok e s M ls" and len: "length key < 2 ^ 24" "length vl < 2 ^ 32 - 1"
    and "key = [] \<or> vl = []"
  shows "\<exists>s'. DBImpl_Put e coin now key vl s = Inr (InvalidArgs, s') \<and>
           db_ok e s' (M(c_str key \<mapsto> c_str vl)) ls \<and> options s' = options s \<and> wrote_log e key s s'"
proof -
  obtain s1 where s1: "write_wal e key vl s = Inr s1" "db_ok e s1 M ls"
    "s1 = s\<lparr>wal_writer := wal_writer s1, disk := disk s1\<rparr>" "wrote_log e key s s1"
    by (rule write_wal_ok [OF ok len])
  obtain b m where m: "MemTable_Contains (mem_table s1) key = Some b"
    "(if b then MemTable_Update coin key vl (mem_table s1) else MemTable_Add coin key vl (mem_table s1)) = Some m"
    "mt_abs m (M(c_str key \<mapsto> c_str vl))"
    by (rule put_table [OF s1(2)])
  let ?s = "s1\<lparr>mem_table := m\<rparr>"
  have "DBImpl_Put e coin now key vl s = Inr (InvalidArgs, ?s)"
    unfolding DBImpl_Put_def s1(1) bind_res_simps m(1) option_res_simps m(2) Let_def using assms(4) by simp
  moreover have "db_ok e ?s (M(c_str key \<mapsto> c_str vl)) ls" using s1(2) m(3) by (simp add: db_ok_def)
  moreover have "options ?s = options s" by (subst s1(3)) simp
  moreover have "wrote_log e key s ?s" using s1(4) by (simp add: wrote_log_def)
  ultimately show ?thesis by blast
qed

lemma Put_invalid:
  assumes "db_ok e s M ls" and "length key < 2 ^ 24" and "length vl < 2 ^ 32 - 1" and "key = [] \<or> vl = []"
  shows "\<exists>s'. DBImpl_Put e coin now key vl s = Inr (InvalidArgs, s') \<and>
           db_ok e s' (M(c_str key \<mapsto> c_str vl)) ls \<and> options s' = options s"
  using Put_invalid_logs [OF assms] by blast

text \<open>What \<open>Put\<close> does before it looks at the size of the table.\<close>

lemma Put_up_to_limit:
  assumes ok: "db_ok e s M ls" and len: "length key < 2 ^ 24" "length vl < 2 ^ 32 - 1"
    and "key \<noteq> []" and "vl \<noteq> []"
  obtains s3 where "DBImpl_Put e coin now key vl s =
      (if mem_usage_bits s3 > MEM_TABLE_MAX_SIZE (options s)
       then bind_res (renew_table e s3) (\<lambda>s4. Inr (Success, s4)) else Inr (Success, s3))"
    and "db_ok e s3 (M(c_str key \<mapsto> c_str vl)) (put_shards e s key vl ls)" and "options s3 = options s"
    and "same_file (wal_writer s, disk s) (wal_writer s3, disk s3)"
    and "wrote_log e key s s3"
proof -
  obtain s1 where s1: "write_wal e key vl s = Inr s1" "db_ok e s1 M ls"
    "s1 = s\<lparr>wal_writer := wal_writer s1, disk := disk s1\<rparr>"
    "same_file (wal_writer s, disk s) (wal_writer s1, disk s1)"
    "wrote_log e key s s1"
    by (rule write_wal_ok [OF ok len])
  have opt: "options s1 = options s" by (subst s1(3)) simp
  obtain b m where m: "MemTable_Contains (mem_table s1) key = Some b"
    "(if b then MemTable_Update coin key vl (mem_table s1) else MemTable_Add coin key vl (mem_table s1)) = Some m"
    "mt_abs m (M(c_str key \<mapsto> c_str vl))"
    by (rule put_table [OF s1(2)])
  have "cache_rep (unat (CACHE_SIZE (options s1))) (db_cache s1) ls" using s1(2) by (simp add: db_ok_def)
  from cache_insert_rep [OF this, of "env_hash e" now key vl] obtain cs where
    cs: "cache_insert (env_hash e) now key vl (db_cache s1) = Inr cs"
    "cache_rep (unat (CACHE_SIZE (options s1))) cs (put_shards e s key vl ls)"
    by (auto simp: put_shards_def shard_def opt)
  let ?s = "s1\<lparr>mem_table := m, db_cache := cs\<rparr>"
  have "DBImpl_Put e coin now key vl s =
      (if mem_usage_bits ?s > MEM_TABLE_MAX_SIZE (options s)
       then bind_res (renew_table e ?s) (\<lambda>s4. Inr (Success, s4)) else Inr (Success, ?s))"
    unfolding DBImpl_Put_def s1(1) bind_res_simps m(1) option_res_simps m(2) Let_def
    using assms(4,5) cs(1) opt by simp
  moreover have "db_ok e ?s (M(c_str key \<mapsto> c_str vl)) (put_shards e s key vl ls)"
    using s1(2) m(3) cs(2) by (simp add: db_ok_def)
  ultimately show thesis using that [of ?s] opt s1(4,5) by (simp add: wrote_log_def)
qed

lemma Put_stores_logs:
  assumes ok: "db_ok e s M ls" and len: "length key < 2 ^ 24" "length vl < 2 ^ 32 - 1"
    and "key \<noteq> []" and "vl \<noteq> []" and room: "has_room s (M(c_str key \<mapsto> c_str vl))"
  shows "\<exists>s'. DBImpl_Put e coin now key vl s = Inr (Success, s') \<and>
           db_ok e s' (M(c_str key \<mapsto> c_str vl)) (put_shards e s key vl ls) \<and> options s' = options s \<and>
           wrote_log e key s s'"
proof -
  obtain s3 where s3: "DBImpl_Put e coin now key vl s =
      (if mem_usage_bits s3 > MEM_TABLE_MAX_SIZE (options s)
       then bind_res (renew_table e s3) (\<lambda>s4. Inr (Success, s4)) else Inr (Success, s3))"
    "db_ok e s3 (M(c_str key \<mapsto> c_str vl)) (put_shards e s key vl ls)" "options s3 = options s"
    "wrote_log e key s s3"
    by (rule Put_up_to_limit [OF ok len assms(4,5)])
  have "mem_usage_bits s3 = of_nat (table_bytes (M(c_str key \<mapsto> c_str vl)))"
    using s3(2) by (intro mem_usage_bits_room) (simp add: db_ok_def)
  with room have "\<not> mem_usage_bits s3 > MEM_TABLE_MAX_SIZE (options s)" by (simp add: has_room_def)
  with s3 show ?thesis by auto
qed

lemma Put_stores:
  assumes ok: "db_ok e s M ls" and len: "length key < 2 ^ 24" "length vl < 2 ^ 32 - 1"
    and "key \<noteq> []" and "vl \<noteq> []" and room: "has_room s (M(c_str key \<mapsto> c_str vl))"
  shows "\<exists>s'. DBImpl_Put e coin now key vl s = Inr (Success, s') \<and>
           db_ok e s' (M(c_str key \<mapsto> c_str vl)) (put_shards e s key vl ls) \<and> options s' = options s"
  using Put_stores_logs [OF assms] by blast

subsection \<open>Delete\<close>

definition erase_shards :: "env \<Rightarrow> bytes \<Rightarrow> (bytes \<times> bytes) list list \<Rightarrow> (bytes \<times> bytes) list list" where
  "erase_shards e k ls = ls[shard e k := alist_delete k (ls ! shard e k)]"

lemma Delete_up_to_limit:
  assumes ok: "db_ok e s M ls" and len: "length key < 2 ^ 24" and "key \<noteq> []"
  obtains s3 where "DBImpl_Delete e coin key s =
      (if mem_usage_bits s3 \<ge> MEM_TABLE_MAX_SIZE (options s)
       then bind_res (renew_table e s3) (\<lambda>s4. Inr (Success, s4)) else Inr (Success, s3))"
    and "db_ok e s3 (M(c_str key \<mapsto> [])) (erase_shards e (c_str key) ls)" and "options s3 = options s"
    and "same_file (wal_writer s, disk s) (wal_writer s3, disk s3)"
    and "wrote_log e key s s3"
proof -
  have l0: "length ([] :: bytes) < 2 ^ 32 - 1" by simp
  obtain s1 where s1: "write_wal e key [] s = Inr s1" "db_ok e s1 M ls"
    "s1 = s\<lparr>wal_writer := wal_writer s1, disk := disk s1\<rparr>"
    "same_file (wal_writer s, disk s) (wal_writer s1, disk s1)"
    "wrote_log e key s s1"
    by (rule write_wal_ok [OF ok len l0])
  have opt: "options s1 = options s" by (subst s1(3)) simp
  have abs: "mt_abs (mem_table s1) M" using s1(2) by (simp add: db_ok_def)
  obtain b m where m: "MemTable_Contains (mem_table s1) key = Some b"
    "(if b then MemTable_Delete coin key (mem_table s1) else MemTable_Add coin key [] (mem_table s1)) = Some m"
    "mt_abs m (M(c_str key \<mapsto> []))"
    by (rule mt.bury [OF abs c_str_Nil])
  have "cache_rep (unat (CACHE_SIZE (options s1))) (db_cache s1) ls" using s1(2) by (simp add: db_ok_def)
  from cache_erase_rep [OF this, of "env_hash e" "c_str key"] obtain cs where
    cs: "cache_erase (env_hash e) (c_str key) (db_cache s1) = Inr cs"
    "cache_rep (unat (CACHE_SIZE (options s1))) cs (erase_shards e (c_str key) ls)"
    by (auto simp: erase_shards_def shard_def)
  let ?s = "s1\<lparr>mem_table := m, db_cache := cs\<rparr>"
  have "DBImpl_Delete e coin key s =
      (if mem_usage_bits ?s \<ge> MEM_TABLE_MAX_SIZE (options s)
       then bind_res (renew_table e ?s) (\<lambda>s4. Inr (Success, s4)) else Inr (Success, ?s))"
    unfolding DBImpl_Delete_def s1(1) bind_res_simps m(1) option_res_simps m(2) Let_def
    using assms(3) cs(1) opt by simp
  moreover have "db_ok e ?s (M(c_str key \<mapsto> [])) (erase_shards e (c_str key) ls)"
    using s1(2) m(3) cs(2) by (simp add: db_ok_def)
  ultimately show thesis using that [of ?s] opt s1(4,5) by (simp add: wrote_log_def)
qed

lemma Delete_buries_logs:
  assumes ok: "db_ok e s M ls" and len: "length key < 2 ^ 24" and "key \<noteq> []"
    and room: "has_room s (M(c_str key \<mapsto> []))"
  shows "\<exists>s'. DBImpl_Delete e coin key s = Inr (Success, s') \<and>
           db_ok e s' (M(c_str key \<mapsto> [])) (erase_shards e (c_str key) ls) \<and> options s' = options s \<and>
           wrote_log e key s s'"
proof -
  obtain s3 where s3: "DBImpl_Delete e coin key s =
      (if mem_usage_bits s3 \<ge> MEM_TABLE_MAX_SIZE (options s)
       then bind_res (renew_table e s3) (\<lambda>s4. Inr (Success, s4)) else Inr (Success, s3))"
    "db_ok e s3 (M(c_str key \<mapsto> [])) (erase_shards e (c_str key) ls)" "options s3 = options s"
    "wrote_log e key s s3"
    by (rule Delete_up_to_limit [OF ok len assms(3)])
  have "mem_usage_bits s3 = of_nat (table_bytes (M(c_str key \<mapsto> [])))"
    using s3(2) by (intro mem_usage_bits_room) (simp add: db_ok_def)
  with room have "\<not> mem_usage_bits s3 \<ge> MEM_TABLE_MAX_SIZE (options s)" by (simp add: has_room_def not_le)
  with s3 show ?thesis by auto
qed

lemma Delete_buries:
  assumes ok: "db_ok e s M ls" and len: "length key < 2 ^ 24" and "key \<noteq> []"
    and room: "has_room s (M(c_str key \<mapsto> []))"
  shows "\<exists>s'. DBImpl_Delete e coin key s = Inr (Success, s') \<and>
           db_ok e s' (M(c_str key \<mapsto> [])) (erase_shards e (c_str key) ls) \<and> options s' = options s"
  using Delete_buries_logs [OF assms] by blast

subsection \<open>Get\<close>

lemma Get_sees:
  assumes ok: "db_ok e s M ls" and "key \<noteq> []" and v: "db_view e M ls (c_str key) = Some v"
  shows "\<exists>s' ls'. DBImpl_Get e now key (Some out) s = Inr (Success, Some v, s') \<and> db_ok e s' M ls' \<and>
           cache_map (env_hash e) ls' = cache_map (env_hash e) ls \<and> options s' = options s"
proof -
  let ?k = "c_str key"
  have cr: "cache_rep (unat (CACHE_SIZE (options s))) (db_cache s) ls" and abs: "mt_abs (mem_table s) M"
    using ok by (simp_all add: db_ok_def)
  note con = cache_contains_rep [OF cr, of "env_hash e" ?k]
  show ?thesis
  proof (cases "cache_map (env_hash e) ls ?k")
    case None
    with v have M: "M ?k = Some v" by (simp add: db_view_def)
    with mt.has_abs [OF abs, of key] mt.get_abs [OF abs, of ?k]
    have "MemTable_Contains (mem_table s) key = Some True" "MemTable_Get (mem_table s) ?k = Some (Some v)"
      by simp_all
    with None con assms(2) have "DBImpl_Get e now key (Some out) s = Inr (Success, Some v, s)"
      by (simp add: DBImpl_Get_def)
    with ok show ?thesis by blast
  next
    case (Some w)
    with v have w: "w = v" by (simp add: db_view_def)
    obtain a cs ls' where c: "cache_get (env_hash e) ?k (db_cache s) = Inr (Some a, cs)"
      "cache_node_val (env_hash e) ?k cs a = Inr w" "cache_rep (unat (CACHE_SIZE (options s))) cs ls'"
      "cache_map (env_hash e) ls' = cache_map (env_hash e) ls"
      using cache_get_hit [OF cr Some] by blast
    let ?s = "s\<lparr>db_cache := cs\<rparr>"
    have "DBImpl_Get e now key (Some out) s = Inr (Success, Some v, ?s)"
      using Some con c(1,2) w assms(2) by (simp add: DBImpl_Get_def)
    moreover have "db_ok e ?s M ls'" using ok c(3) by (simp add: db_ok_def)
    ultimately show ?thesis using c(4) by (intro exI [of _ ?s] exI [of _ ls']) simp
  qed
qed

text \<open>A key that neither the cache nor the active table knows is looked up in one fixed file.\<close>

definition sst_path :: "db_impl \<Rightarrow> bytes" where
  "sst_path s = STORAGE_DIR (options s) @ str ''level_0_sst_0.sst''"

lemma Get_unknown:
  assumes ok: "db_ok e s M ls" and "key \<noteq> []" and v: "db_view e M ls (c_str key) = None"
  shows "DBImpl_Get e now key (Some out) s =
           bind_res (SSTParser (sst_path s) (disk s)) (\<lambda>p0.
           bind_res (Parse (env_mem e) p0) (\<lambda>p.
           bind_res (Seek p key) (\<lambda>found.
             case found of None \<Rightarrow> Inr (NotFound, Some out, s)
             | Some v \<Rightarrow>
                 bind_res (cache_insert (env_hash e) now (c_str key) v (db_cache s)) (\<lambda>cs.
                   Inr (Success, Some (out @ v), s\<lparr>db_cache := cs\<rparr>)))))"
proof -
  have cr: "cache_rep (unat (CACHE_SIZE (options s))) (db_cache s) ls" and abs: "mt_abs (mem_table s) M"
    using ok by (simp_all add: db_ok_def)
  from v have "cache_map (env_hash e) ls (c_str key) = None" "M (c_str key) = None"
    by (auto simp: db_view_def split: option.splits)
  with cache_contains_rep [OF cr, of "env_hash e" "c_str key"] mt.has_abs [OF abs, of key] assms(2)
  show ?thesis by (simp add: DBImpl_Get_def sst_path_def)
qed

subsection \<open>Reading one's own writes\<close>

lemma db_view_put_fresh:
  assumes ok: "db_ok e s M ls" and "cache_map (env_hash e) ls key = None" and "0 < CACHE_SIZE (options s)"
  shows "db_view e M' (put_shards e s key vl ls) key = Some vl"
proof -
  have cr: "cache_rep (unat (CACHE_SIZE (options s))) (db_cache s) ls" using ok by (simp add: db_ok_def)
  have "0 < unat (CACHE_SIZE (options s))" using assms(3) by (simp add: word_less_nat_alt)
  from cache_map_insert_new(1) [OF cr assms(2) this, of vl] show ?thesis
    by (simp add: db_view_def put_shards_def shard_def)
qed

lemma db_view_put_stale:
  assumes ok: "db_ok e s M ls" and "cache_map (env_hash e) ls key = Some w"
  shows "db_view e M' (put_shards e s key vl ls) key = Some w"
proof -
  have cr: "cache_rep (unat (CACHE_SIZE (options s))) (db_cache s) ls" using ok by (simp add: db_ok_def)
  from cache_map_insert_present [OF cr assms(2), of vl] assms(2) show ?thesis
    by (simp add: db_view_def put_shards_def shard_def)
qed

lemma db_view_erase:
  assumes ok: "db_ok e s M ls"
  shows "db_view e (M(k \<mapsto> [])) (erase_shards e k ls) k = Some []"
proof -
  have cr: "cache_rep (unat (CACHE_SIZE (options s))) (db_cache s) ls" using ok by (simp add: db_ok_def)
  show ?thesis using cache_map_erase [OF cr, of "env_hash e" k]
    by (simp add: db_view_def erase_shards_def shard_def)
qed

text \<open>The cache agrees with the active table.\<close>

definition coherent :: "env \<Rightarrow> (bytes \<Rightarrow> bytes option) \<Rightarrow> (bytes \<times> bytes) list list \<Rightarrow> bool" where
  "coherent e M ls \<longleftrightarrow> (\<forall>k v. cache_map (env_hash e) ls k = Some v \<longrightarrow> M k = Some v)"

lemma coherent_view: "coherent e M ls \<Longrightarrow> db_view e M ls = M"
  by (auto simp: coherent_def db_view_def fun_eq_iff split: option.split)

lemma coherent_put:
  assumes ok: "db_ok e s M ls" and coh: "coherent e M ls" and new: "cache_map (env_hash e) ls key = None"
    and "0 < CACHE_SIZE (options s)"
  shows "coherent e (M(key \<mapsto> vl)) (put_shards e s key vl ls)"
proof -
  have cr: "cache_rep (unat (CACHE_SIZE (options s))) (db_cache s) ls" using ok by (simp add: db_ok_def)
  have "0 < unat (CACHE_SIZE (options s))" using assms(4) by (simp add: word_less_nat_alt)
  note ins = cache_map_insert_new [OF cr new this, where v = vl, folded shard_def put_shards_def]
  show ?thesis
    unfolding coherent_def
  proof (intro allI impI)
    fix k v assume k: "cache_map (env_hash e) (put_shards e s key vl ls) k = Some v"
    show "(M(key \<mapsto> vl)) k = Some v"
    proof (cases "k = key")
      case True
      with k ins(1) show ?thesis by (simp add: put_shards_def shard_def)
    next
      case False
      with k ins(2) [OF False] coh show ?thesis by (simp add: coherent_def put_shards_def shard_def)
    qed
  qed
qed

lemma coherent_erase:
  assumes ok: "db_ok e s M ls" and coh: "coherent e M ls"
  shows "coherent e (M(k \<mapsto> [])) (erase_shards e k ls)"
proof -
  have cr: "cache_rep (unat (CACHE_SIZE (options s))) (db_cache s) ls" using ok by (simp add: db_ok_def)
  show ?thesis using cache_map_erase [OF cr, of "env_hash e" k] coh
    by (auto simp: coherent_def erase_shards_def shard_def)
qed

subsection \<open>Opening\<close>

lemma DBImpl_opens:
  assumes wr: "full_writes (env_wr e)" and d: "WAL_DIR opts \<notin> dirs d" "47 \<in> set (WAL_DIR opts)"
    and free: "parent_free (WAL_DIR opts) d"
  shows "\<exists>s. DBImpl opts d = Inr s \<and> db_ok e s Map.empty (replicate (unat SHARDING_NUM) []) \<and>
           options s = opts \<and> coherent e Map.empty (replicate (unat SHARDING_NUM) [])"
proof -
  let ?p = "WAL_DIR opts"
  obtain w d' where w: "FileWriter ?p True d = Inr (w, d')" and fw: "fw_ok (w, d')"
    by (rule FileWriter_opens [OF d(1,2) free, of True]) blast
  let ?s = "\<lparr>mem_table = MemTable, wal_writer = w,
      db_cache = cache_register_clean_handle (Cache (unat (CACHE_SIZE opts))), options = opts, disk = d'\<rparr>"
  have "DBImpl opts d = Inr ?s" by (simp add: DBImpl_def w)
  moreover have "db_ok e ?s Map.empty (replicate (unat SHARDING_NUM) [])"
    using wr fw mt_abs_MemTable Cache_rep by (simp add: db_ok_def)
  moreover have "coherent e Map.empty (replicate (unat SHARDING_NUM) [])"
    by (simp add: coherent_def cache_map_def shard_list_def nth_replicate [OF sharding_index_less])
  ultimately show ?thesis by simp
qed

subsection \<open>A concrete environment\<close>

text \<open>
  An environment in which every hypothesis of the environment holds, an empty file system
  and the database opened on it: the concrete inputs at which the properties are applied.
\<close>

definition sample_env :: env where
  "sample_env =
     \<lparr>env_hash = (\<lambda>k. of_nat (length k)), env_crc = (\<lambda>xs. of_nat (length xs)), env_wr = all_written,
      env_logq = (\<lambda>n fp. - 10 * n), env_mem = (\<lambda>a. None), env_convert = (\<lambda>m p b. Inr b)\<rparr>"

definition sample_fs :: fs where
  "sample_fs = \<lparr>files = Map.empty, dirs = {}\<rparr>"

definition sample_shards :: "(bytes \<times> bytes) list list" where
  "sample_shards = replicate (unat SHARDING_NUM) []"

lemma sample_uncached: "cache_map h sample_shards k = None"
  by (simp add: sample_shards_def cache_map_def shard_list_def nth_replicate [OF sharding_index_less])

lemma sample_limits:
  "MEM_TABLE_MAX_SIZE MakeOptionsForDebugging = 4194304" "CACHE_SIZE MakeOptionsForDebugging = 4096"
  by (simp_all add: MakeOptionsForDebugging_def)

lemma sample_open:
  obtains s where "DBImpl MakeOptionsForDebugging sample_fs = Inr s"
    and "db_ok sample_env s Map.empty sample_shards" and "options s = MakeOptionsForDebugging"
    and "coherent sample_env Map.empty sample_shards" and "\<not> access_ok (disk s) (sst_path s)"
proof -
  have p: "WAL_DIR MakeOptionsForDebugging \<notin> dirs sample_fs" "47 \<in> set (WAL_DIR MakeOptionsForDebugging)"
    "parent_free (WAL_DIR MakeOptionsForDebugging) sample_fs"
    by (simp_all add: MakeOptionsForDebugging_def sample_fs_def str_def parent_free_def parent_dir_def)
  have "full_writes (env_wr sample_env)" by (simp add: sample_env_def full_writes_all_written)
  from DBImpl_opens [OF this p] obtain s where s: "DBImpl MakeOptionsForDebugging sample_fs = Inr s"
    "db_ok sample_env s Map.empty sample_shards" "options s = MakeOptionsForDebugging"
    "coherent sample_env Map.empty sample_shards"
    unfolding sample_shards_def by blast
  have "\<not> access_ok (disk s) (sst_path s)"
    using s(1) p(1)
    by (auto simp: DBImpl_def FileWriter_def open_write_def sample_fs_def MakeOptionsForDebugging_def str_def
        sst_path_def access_ok_def parent_dir_def create_directories_def ancestors_def bind_res_Inr_iff
        assert_res_Inr_iff split: if_splits)
  with s that show thesis by blast
qed

lemma sample_put:
  obtains s s1 ls1 where "DBImpl MakeOptionsForDebugging sample_fs = Inr s"
    and "DBImpl_Put sample_env (\<lambda>_. False) 0 [107] [118] s = Inr (Success, s1)"
    and "db_ok sample_env s1 [[107] \<mapsto> [118]] ls1" and "coherent sample_env [[107] \<mapsto> [118]] ls1"
    and "options s1 = MakeOptionsForDebugging" and "cache_map (env_hash sample_env) ls1 [107] = Some [118]"
proof -
  obtain s where s: "DBImpl MakeOptionsForDebugging sample_fs = Inr s"
    "db_ok sample_env s Map.empty sample_shards" "options s = MakeOptionsForDebugging"
    "coherent sample_env Map.empty sample_shards" by (rule sample_open)
  let ?ls = "put_shards sample_env s [107] [118] sample_shards"
  have c: "c_str [107] = [107]" "c_str [118] = [118]" by (simp_all add: c_str_def)
  have "has_room s (Map.empty(c_str [107] \<mapsto> c_str [118]))"
    by (simp add: has_room_def s(3) sample_limits table_bytes_def c)
  from Put_stores [OF s(2) _ _ _ _ this, of "\<lambda>_. False" 0] obtain s1 where
    s1: "DBImpl_Put sample_env (\<lambda>_. False) 0 [107] [118] s = Inr (Success, s1)"
    "db_ok sample_env s1 [[107] \<mapsto> [118]] ?ls" "options s1 = options s"
    by (auto simp: c)
  have size: "0 < CACHE_SIZE (options s)" by (simp add: s(3) sample_limits)
  have coh: "coherent sample_env [[107] \<mapsto> [118]] ?ls"
    by (rule coherent_put [OF s(2,4) sample_uncached size])
  have "cache_map (env_hash sample_env) ?ls [107] = Some [118]"
  proof -
    have cr: "cache_rep (unat (CACHE_SIZE (options s))) (db_cache s) sample_shards"
      using s(2) by (simp add: db_ok_def)
    have "0 < unat (CACHE_SIZE (options s))" using size by (simp add: word_less_nat_alt)
    from cache_map_insert_new(1) [OF cr sample_uncached this, of "env_hash sample_env"] show ?thesis
      by (simp add: put_shards_def shard_def)
  qed
  with s s1 coh that show thesis by simp
qed

subsection \<open>Properties\<close>

text \<open>
  As long as the cache agrees with the active table, a Put of a key that is not cached stores
  the pair in the table and keeps the cache in agreement.
\<close>

theorem db_put_coherent:
  assumes "db_ok e s M ls" and "coherent e M ls" and "no_nul key" and "no_nul v" and "key \<noteq> []" and "v \<noteq> []"
    and "length key < 2 ^ 24" and "length v < 2 ^ 32 - 1"
    and "cache_map (env_hash e) ls key = None" and "0 < CACHE_SIZE (options s)" and "has_room s (M(key \<mapsto> v))"
  shows "\<exists>s' ls'. DBImpl_Put e coin now key v s = Inr (Success, s') \<and> options s' = options s \<and>
           db_ok e s' (M(key \<mapsto> v)) ls' \<and> coherent e (M(key \<mapsto> v)) ls'"
proof -
  have k: "c_str key = key" "c_str v = v" using assms(3,4) by simp_all
  from Put_stores [OF assms(1,7,8,5,6), of coin now] assms(11) obtain s' where
    "DBImpl_Put e coin now key v s = Inr (Success, s')" "options s' = options s"
    "db_ok e s' (M(key \<mapsto> v)) (put_shards e s key v ls)" unfolding k by blast
  with coherent_put [OF assms(1,2,9,10)] show ?thesis by blast
qed

theorem db_put_coherent_witness:
  "\<exists>s s' ls'. DBImpl MakeOptionsForDebugging sample_fs = Inr s \<and>
     DBImpl_Put sample_env (\<lambda>_. False) 0 [107] [118] s = Inr (Success, s') \<and>
     db_ok sample_env s' [[107] \<mapsto> [118]] ls' \<and> coherent sample_env [[107] \<mapsto> [118]] ls'"
proof -
  obtain s where s: "DBImpl MakeOptionsForDebugging sample_fs = Inr s"
    "db_ok sample_env s Map.empty sample_shards" "options s = MakeOptionsForDebugging"
    "coherent sample_env Map.empty sample_shards"
    by (rule sample_open)
  have "\<exists>s' ls'. DBImpl_Put sample_env (\<lambda>_. False) 0 [107] [118] s = Inr (Success, s') \<and> options s' = options s \<and>
      db_ok sample_env s' [[107] \<mapsto> [118]] ls' \<and> coherent sample_env [[107] \<mapsto> [118]] ls'"
    by (rule db_put_coherent [OF s(2,4)])
      (simp_all add: no_nul_def sample_uncached s(3) sample_limits has_room_def table_bytes_def)
  with s(1) show ?thesis by blast
qed

text \<open>
  When the cache agrees with the active table, a Get of a key of the table succeeds with the
  table's value and changes neither the table nor the agreement.
\<close>

theorem db_get_coherent:
  assumes "db_ok e s M ls" and "coherent e M ls" and "key \<noteq> []" and "M (c_str key) = Some v"
  shows "\<exists>s' ls'. DBImpl_Get e now key (Some out) s = Inr (Success, Some v, s') \<and>
           db_ok e s' M ls' \<and> coherent e M ls'"
proof -
  have "db_view e M ls (c_str key) = Some v" using assms(4) by (simp add: coherent_view [OF assms(2)])
  from Get_sees [OF assms(1,3) this, of now out] obtain s' ls' where
    "DBImpl_Get e now key (Some out) s = Inr (Success, Some v, s')" "db_ok e s' M ls'"
    "cache_map (env_hash e) ls' = cache_map (env_hash e) ls" by blast
  with assms(2) show ?thesis by (auto simp: coherent_def)
qed

theorem db_get_coherent_witness:
  "\<exists>s s1 s2. DBImpl MakeOptionsForDebugging sample_fs = Inr s \<and>
     DBImpl_Put sample_env (\<lambda>_. False) 0 [107] [118] s = Inr (Success, s1) \<and>
     DBImpl_Get sample_env 0 [107] (Some [1]) s1 = Inr (Success, Some [118], s2)"
proof -
  obtain s s1 ls1 where s: "DBImpl MakeOptionsForDebugging sample_fs = Inr s"
    "DBImpl_Put sample_env (\<lambda>_. False) 0 [107] [118] s = Inr (Success, s1)"
    "db_ok sample_env s1 [[107] \<mapsto> [118]] ls1" "coherent sample_env [[107] \<mapsto> [118]] ls1"
    by (rule sample_put)
  have "\<exists>s2 ls2. DBImpl_Get sample_env 0 [107] (Some [1]) s1 = Inr (Success, Some [118], s2) \<and>
      db_ok sample_env s2 [[107] \<mapsto> [118]] ls2 \<and> coherent sample_env [[107] \<mapsto> [118]] ls2"
    by (rule db_get_coherent [OF s(3,4)]) (simp_all add: c_str_def)
  with s(1,2) show ?thesis by blast
qed

text \<open>
  A Put with an empty key or value returns InvalidArgs, yet the pair has been written to the
  table already (and the cache has not been told).
\<close>

theorem db_put_invalid_stores:
  assumes "db_ok e s M ls" and "length key < 2 ^ 24" and "length v < 2 ^ 32 - 1" and "key = [] \<or> v = []"
  shows "\<exists>s'. DBImpl_Put e coin now key v s = Inr (InvalidArgs, s') \<and>
           db_ok e s' (M(c_str key \<mapsto> c_str v)) ls"
  using Put_invalid [OF assms] by blast

theorem db_put_invalid_stores_witness:
  "\<exists>s s'. DBImpl MakeOptionsForDebugging sample_fs = Inr s \<and>
     DBImpl_Put sample_env (\<lambda>_. False) 0 [107] [] s = Inr (InvalidArgs, s') \<and>
     db_ok sample_env s' [[107] \<mapsto> []] sample_shards"
proof -
  obtain s where s: "DBImpl MakeOptionsForDebugging sample_fs = Inr s"
    "db_ok sample_env s Map.empty sample_shards"
    by (rule sample_open)
  have "\<exists>s'. DBImpl_Put sample_env (\<lambda>_. False) 0 [107] [] s = Inr (InvalidArgs, s') \<and>
      db_ok sample_env s' (Map.empty(c_str [107] \<mapsto> c_str [])) sample_shards"
    by (rule db_put_invalid_stores [OF s(2)]) simp_all
  moreover have "c_str [107] = [107]" by (simp add: c_str_def)
  ultimately show ?thesis using s(1) by simp
qed

text \<open>
  The log record that Put and Delete write for a key below 16 MB is durable when the call
  returns, but its payload is a prefix of the encoded pair of three bytes at most: the pair
  cannot be recovered from it.
\<close>

theorem db_wal_payload:
  assumes "db_ok e s M ls" and "length key < 2 ^ 24" and "length v < 2 ^ 32 - 1"
  shows "\<exists>s' log rest. write_wal e key v s = Inr s' \<and> EncodeKV key v = Inr (log @ rest) \<and> length log \<le> 3 \<and>
           files (disk s') (fw_path (wal_writer s)) =
             Some (fw_total (wal_writer s, disk s) @ wal_record (env_crc e) log)"
proof -
  obtain s' log where s': "write_wal e key v s = Inr s'" "db_ok e s' M ls"
    "same_file (wal_writer s, disk s) (wal_writer s', disk s')"
    "fw_stored (wal_writer s', disk s') = fw_total (wal_writer s, disk s) @ wal_record (env_crc e) log"
    "EncodeKV key v = Inr (log @ drop (length log) (projr (EncodeKV key v)))" "length log \<le> 3"
    by (rule write_wal_ok [OF assms])
  from s'(2) have "fw_ok (wal_writer s', disk s')" by (simp add: db_ok_def)
  with s'(3,4) have "files (disk s') (fw_path (wal_writer s)) =
      Some (fw_total (wal_writer s, disk s) @ wal_record (env_crc e) log)"
    by (auto simp: fw_ok_def fw_stored_def same_file_def)
  with s'(1,5,6) show ?thesis by blast
qed

theorem db_wal_payload_witness:
  "\<exists>s s' log rest. DBImpl MakeOptionsForDebugging sample_fs = Inr s \<and>
     write_wal sample_env [107] [118] s = Inr s' \<and> EncodeKV [107] [118] = Inr (log @ rest) \<and> length log \<le> 3"
proof -
  obtain s where s: "DBImpl MakeOptionsForDebugging sample_fs = Inr s"
    "db_ok sample_env s Map.empty sample_shards"
    by (rule sample_open)
  have "\<exists>s' log rest. write_wal sample_env [107] [118] s = Inr s' \<and> EncodeKV [107] [118] = Inr (log @ rest) \<and>
      length log \<le> 3 \<and> files (disk s') (fw_path (wal_writer s)) =
        Some (fw_total (wal_writer s, disk s) @ wal_record (env_crc sample_env) log)"
    by (rule db_wal_payload [OF s(2)]) simp_all
  with s(1) show ?thesis by blast
qed

text \<open>
  A Get of a key that neither the cache nor the active table holds looks into one fixed file
  under a name that MemTableToSST never writes, and aborts in the parser's assertion when it
  does not exist.
\<close>

theorem db_get_without_file:
  assumes "db_ok e s M ls" and "key \<noteq> []" and "db_view e M ls (c_str key) = None"
    and "\<not> access_ok (disk s) (sst_path s)"
  shows "DBImpl_Get e now key (Some out) s = Inl Assert_Failed"
  using Get_unknown [OF assms(1-3)] assms(4) by (simp add: SSTParser_def)

theorem db_get_without_file_witness:
  "\<exists>s. DBImpl MakeOptionsForDebugging sample_fs = Inr s \<and>
     DBImpl_Get sample_env 0 [107] (Some []) s = Inl Assert_Failed"
proof -
  obtain s where s: "DBImpl MakeOptionsForDebugging sample_fs = Inr s"
    "db_ok sample_env s Map.empty sample_shards" "\<not> access_ok (disk s) (sst_path s)"
    by (rule sample_open)
  have "DBImpl_Get sample_env 0 [107] (Some []) s = Inl Assert_Failed"
    by (rule db_get_without_file [OF s(2) _ _ s(3)]) (simp_all add: db_view_def sample_uncached)
  with s(1) show ?thesis by blast
qed

text \<open>
  When the file that Get looks into exists and is a finished table, a Get of a key that
  neither the cache nor the active table holds reads the number of hash functions through an
  address computed without the base of the content, and is undefined when nothing is mapped
  there.
\<close>

theorem db_get_unmapped_filter:
  assumes "db_ok e s M ls" and "key \<noteq> []" and "db_view e M ls (c_str key) = None"
    and "files (disk s) (sst_path s) = Some (sst_layout blocks filt (enc_entries es))"
    and "10 \<notin> set (sst_layout blocks filt (enc_entries es))"
    and "length blocks + length filt + length (enc_entries es) < 2 ^ 31" and "\<forall>x \<in> set es. small_entry x"
    and "4 \<le> length filt" and "env_mem e (int (length blocks + length filt) - 4) = None"
  shows "DBImpl_Get e now key (Some out) s = Inl Undefined_Behaviour"
proof -
  obtain p0 where p0: "SSTParser (sst_path s) (disk s) = Inr p0"
    "sp_file p0 = sst_layout blocks filt (enc_entries es)" "sst_content p0 = []" "index_blocks p0 = []"
    by (simp add: SSTParser_def access_ok_def assms(4))
  have "filter (\<lambda>b. b \<noteq> 10) (sp_file p0) = sst_layout blocks filt (enc_entries es)"
    unfolding p0(2) using assms(5) by (auto simp: filter_id_conv)
  from Parse_layout [OF this p0(3,4) assms(6-8), of "env_mem e"] assms(9)
  have "Parse (env_mem e) p0 = Inl Undefined_Behaviour" by simp
  with Get_unknown [OF assms(1-3), of now out] p0(1) show ?thesis by simp
qed

theorem db_get_unmapped_filter_witness:
  "\<exists>s d. DBImpl MakeOptionsForDebugging sample_fs = Inr s \<and>
     DBImpl_Get sample_env 0 [107] (Some []) (s\<lparr>disk := d\<rparr>) = Inl Undefined_Behaviour"
proof -
  obtain s where s: "DBImpl MakeOptionsForDebugging sample_fs = Inr s"
    "db_ok sample_env s Map.empty sample_shards" by (rule sample_open)
  let ?c = "sst_layout [] [0, 0, 0, 0] (enc_entries [])"
  let ?s = "s\<lparr>disk := (disk s)\<lparr>files := (files (disk s))(sst_path s \<mapsto> ?c)\<rparr>\<rparr>"
  have ok: "db_ok sample_env ?s Map.empty sample_shards"
    using s(2) by (simp add: db_ok_def fw_ok_def)
  have unknown: "db_view sample_env Map.empty sample_shards (c_str [107]) = None"
    by (simp add: db_view_def sample_uncached)
  have stored: "files (disk ?s) (sst_path ?s) = Some ?c" by (simp add: sst_path_def)
  have nl: "10 \<notin> set ?c"
    by (simp add: sst_layout_def enc_entries_def enc_footer_def offset_bits_encode EncodeFixed32_def)
  have mem: "env_mem sample_env a = None" for a by (simp add: sample_env_def)
  have "DBImpl_Get sample_env 0 [107] (Some []) ?s = Inl Undefined_Behaviour"
    by (rule db_get_unmapped_filter [OF ok _ unknown stored nl _ _ _ mem]) (simp_all add: enc_entries_def)
  with s(1) show ?thesis by blast
qed

text \<open>
  C2: A Put of a key that is not in the cache, without NUL bytes and below the limits,
  succeeds, and a Get of the key afterwards returns the value.
\<close>

theorem db_put_then_get:
  assumes "db_ok e s M ls" and "no_nul key" and "key \<noteq> []" and "v \<noteq> []"
    and "length key < 2 ^ 24" and "length v < 2 ^ 32 - 1"
    and "cache_map (env_hash e) ls key = None" and "0 < CACHE_SIZE (options s)"
    and "has_room s (M(key \<mapsto> c_str v))"
  shows "\<exists>s1 s2. DBImpl_Put e coin now key v s = Inr (Success, s1) \<and>
           DBImpl_Get e now' key (Some out) s1 = Inr (Success, Some v, s2)"
proof -
  have k: "c_str key = key" using assms(2) by simp
  obtain s1 where s1: "DBImpl_Put e coin now key v s = Inr (Success, s1)"
    "db_ok e s1 (M(key \<mapsto> c_str v)) (put_shards e s key v ls)"
    using Put_stores [OF assms(1,5,6,3,4), of coin now] assms(9) unfolding k by blast
  have "db_view e (M(key \<mapsto> c_str v)) (put_shards e s key v ls) (c_str key) = Some v"
    unfolding k by (rule db_view_put_fresh [OF assms(1,7,8)])
  from Get_sees [OF s1(2) assms(3) this] s1(1) show ?thesis by blast
qed

theorem db_put_then_get_witness:
  "\<exists>s s1 s2. DBImpl MakeOptionsForDebugging sample_fs = Inr s \<and>
     DBImpl_Put sample_env (\<lambda>_. True) 0 [107] [118] s = Inr (Success, s1) \<and>
     DBImpl_Get sample_env 0 [107] (Some []) s1 = Inr (Success, Some [118], s2)"
proof -
  obtain s where s: "DBImpl MakeOptionsForDebugging sample_fs = Inr s"
    "db_ok sample_env s Map.empty sample_shards" "options s = MakeOptionsForDebugging"
    by (rule sample_open)
  have "\<exists>s1 s2. DBImpl_Put sample_env (\<lambda>_. True) 0 [107] [118] s = Inr (Success, s1) \<and>
      DBImpl_Get sample_env 0 [107] (Some []) s1 = Inr (Success, Some [118], s2)"
    by (rule db_put_then_get [OF s(2)])
      (simp_all add: no_nul_def sample_uncached s(3) sample_limits has_room_def c_str_def table_bytes_def)
  with s(1) show ?thesis by blast
qed



text \<open>
  C13: A Put of a key that is in the cache reports Success, but the cache keeps the value it
  has, and a Get afterwards returns the old value.
\<close>

theorem db_put_stale:
  assumes "db_ok e s M ls" and "no_nul key" and "key \<noteq> []" and "v \<noteq> []"
    and "length key < 2 ^ 24" and "length v < 2 ^ 32 - 1"
    and "cache_map (env_hash e) ls key = Some w" and "has_room s (M(key \<mapsto> c_str v))"
  shows "\<exists>s1 s2. DBImpl_Put e coin now key v s = Inr (Success, s1) \<and>
           DBImpl_Get e now' key (Some out) s1 = Inr (Success, Some w, s2)"
proof -
  have k: "c_str key = key" using assms(2) by simp
  obtain s1 where s1: "DBImpl_Put e coin now key v s = Inr (Success, s1)"
    "db_ok e s1 (M(key \<mapsto> c_str v)) (put_shards e s key v ls)"
    using Put_stores [OF assms(1,5,6,3,4), of coin now] assms(8) unfolding k by blast
  have "db_view e (M(key \<mapsto> c_str v)) (put_shards e s key v ls) (c_str key) = Some w"
    unfolding k by (rule db_view_put_stale [OF assms(1,7)])
  from Get_sees [OF s1(2) assms(3) this] s1(1) show ?thesis by blast
qed

theorem db_put_stale_witness:
  "\<exists>s s1 s2 s3. DBImpl MakeOptionsForDebugging sample_fs = Inr s \<and>
     DBImpl_Put sample_env (\<lambda>_. False) 0 [107] [118] s = Inr (Success, s1) \<and>
     DBImpl_Put sample_env (\<lambda>_. False) 0 [107] [119] s1 = Inr (Success, s2) \<and>
     DBImpl_Get sample_env 0 [107] (Some []) s2 = Inr (Success, Some [118], s3)"
proof -
  obtain s s1 ls1 where s: "DBImpl MakeOptionsForDebugging sample_fs = Inr s"
    "DBImpl_Put sample_env (\<lambda>_. False) 0 [107] [118] s = Inr (Success, s1)"
    "db_ok sample_env s1 [[107] \<mapsto> [118]] ls1" "coherent sample_env [[107] \<mapsto> [118]] ls1"
    "options s1 = MakeOptionsForDebugging" "cache_map (env_hash sample_env) ls1 [107] = Some [118]"
    by (rule sample_put)
  have "\<exists>s2 s3. DBImpl_Put sample_env (\<lambda>_. False) 0 [107] [119] s1 = Inr (Success, s2) \<and>
      DBImpl_Get sample_env 0 [107] (Some []) s2 = Inr (Success, Some [118], s3)"
    by (rule db_put_stale [OF s(3)])
      (simp_all add: no_nul_def c_str_def s(5,6) sample_limits has_room_def table_bytes_def)
  with s(1,2) show ?thesis by blast
qed

end
