(* ===== verification/Comparator.thy ===== *)
theory Comparator
  imports Mem_Table
begin

section \<open>Comparing keys\<close>

text \<open>
  \<open>Comparator\<close> and \<open>ByteComparator\<close> of \<open>src/utils/comparator.h\<close>. \<open>std::string::compare\<close>
  compares the bytes as unsigned up to the shorter length and then the lengths; of its result
  the standard fixes the sign only, which is what the model returns. The locale states what
  the interface promises; its interpretation shows that \<open>ByteComparator\<close> keeps the promise,
  and the lemmas below that its order is the order in which the memory table keeps its keys.
\<close>

definition comparator_name :: bytes where
  "comparator_name = str ''ByteComparator''"

fun string_compare :: "bytes \<Rightarrow> bytes \<Rightarrow> int" where
  "string_compare [] [] = 0"
| "string_compare [] (b # bs) = - 1"
| "string_compare (a # as) [] = 1"
| "string_compare (a # as) (b # bs) =
     (if a < b then - 1 else if b < a then 1 else string_compare as bs)"

definition comparator_call :: "bytes \<Rightarrow> bytes \<Rightarrow> int" where
  "comparator_call key_a key_b = string_compare key_a key_b"

definition comparator_compare :: "bytes \<Rightarrow> bytes \<Rightarrow> int" where
  "comparator_compare key_a key_b = string_compare key_a key_b"

subsection \<open>What the interface promises\<close>

text \<open>
  A three-way comparison of keys: the sign flips when the arguments are swapped, only equal
  keys compare as equal, and "below" is transitive. The lemmas are what a sorted container
  needs of it: the relation is a strict total order, and a strictly sorted list of keys is
  determined by its set.
\<close>

locale comparator =
  fixes cmp :: "'k \<Rightarrow> 'k \<Rightarrow> int"
  assumes cmp_swap: "sgn (cmp b a) = - sgn (cmp a b)"
    and cmp_zero: "cmp a b = 0 \<Longrightarrow> a = b"
    and cmp_trans: "cmp a b < 0 \<Longrightarrow> cmp b c < 0 \<Longrightarrow> cmp a c < 0"
begin

lemma cmp_same [simp]: "cmp a a = 0"
  using cmp_swap [of a a] by (simp add: sgn_if split: if_splits)

lemma cmp_flip: "0 < cmp a b \<longleftrightarrow> cmp b a < 0"
  using cmp_swap [of b a] by (auto simp: sgn_if split: if_splits)

lemma cmp_cases:
  obtains "cmp a b < 0" | "a = b" | "cmp b a < 0"
  using cmp_flip [of a b] cmp_zero [of a b] by (metis linorder_neqE)

lemma below_head:
  "sorted_wrt (\<lambda>a b. cmp a b < 0) (x # xs) \<Longrightarrow> y \<in> set (x # xs) \<Longrightarrow> y = x \<or> cmp x y < 0"
  by auto

lemma sorted_distinct: "sorted_wrt (\<lambda>a b. cmp a b < 0) xs \<Longrightarrow> distinct xs"
  by (induction xs) (use cmp_same less_irrefl in auto)

lemma sorted_unique:
  assumes "sorted_wrt (\<lambda>a b. cmp a b < 0) xs" and "sorted_wrt (\<lambda>a b. cmp a b < 0) ys" and "set xs = set ys"
  shows "xs = ys"
  using assms
proof (induction xs arbitrary: ys)
  case Nil
  then show ?case by simp
next
  case (Cons x xs)
  then obtain y ys' where ys: "ys = y # ys'" by (cases ys) auto
  have "\<not> (cmp x y < 0 \<and> cmp y x < 0)" using cmp_trans [of x y x] by auto
  moreover have "y = x \<or> cmp x y < 0" using below_head [OF Cons.prems(1), of y] Cons.prems(3) ys by auto
  moreover have "x = y \<or> cmp y x < 0"
    using below_head [OF Cons.prems(2) [unfolded ys], of x] Cons.prems(3) ys by auto
  ultimately have xy: "x = y" by blast
  have "set xs = set ys'"
    using Cons.prems sorted_distinct [OF Cons.prems(1)] sorted_distinct [OF Cons.prems(2)]
    by (auto simp: ys xy)
  with Cons.IH [of ys'] Cons.prems(1,2) show ?case by (simp add: ys xy)
qed

end

subsection \<open>The order of bytes\<close>

lemma string_compare_less: "string_compare a b < 0 \<longleftrightarrow> a < b"
  by (induction a b rule: string_compare.induct) auto

lemma string_compare_zero: "string_compare a b = 0 \<longleftrightarrow> a = b"
  by (induction a b rule: string_compare.induct) auto

lemma string_compare_swap: "string_compare b a = - string_compare a b"
  by (induction a b rule: string_compare.induct) auto

lemma string_compare_range: "string_compare a b \<in> {- 1, 0, 1}"
  by (induction a b rule: string_compare.induct) auto

interpretation bc: comparator comparator_compare
proof unfold_locales
  fix a b c
  show "sgn (comparator_compare b a) = - sgn (comparator_compare a b)"
    by (simp add: comparator_compare_def string_compare_swap [of b a])
  show "comparator_compare a b = 0 \<Longrightarrow> a = b"
    by (simp add: comparator_compare_def string_compare_zero)
  show "comparator_compare a b < 0 \<Longrightarrow> comparator_compare b c < 0 \<Longrightarrow> comparator_compare a c < 0"
    by (simp add: comparator_compare_def string_compare_less)
qed

lemma table_in_comparator_order:
  "mt_rep m kvs \<Longrightarrow> sorted_wrt (\<lambda>a b. comparator_compare a b < 0) (map fst kvs)"
  using mt_rep_sorted by (simp add: comparator_compare_def string_compare_less)

subsection \<open>Properties\<close>

text \<open>
  ByteComparator orders keys as the memory table does: compare and operator() are negative,
  zero and positive as the byte strings are below, equal and above; a list of the table's keys
  that ascends for the comparator is the list of the keys in the order of the table.
\<close>

theorem comparator_is_table_order:
  assumes "mt_rep m kvs" and "sorted_wrt (\<lambda>a b. comparator_compare a b < 0) ks" and "set ks = set (map fst kvs)"
  shows "ks = map fst kvs \<and> comparator_call a b = comparator_compare a b \<and>
    (comparator_compare a b < 0 \<longleftrightarrow> a < b) \<and> (comparator_compare a b = 0 \<longleftrightarrow> a = b) \<and>
    (0 < comparator_compare a b \<longleftrightarrow> b < a)"
proof -
  have "ks = map fst kvs"
    by (rule bc.sorted_unique [OF assms(2) table_in_comparator_order [OF assms(1)] assms(3)])
  moreover have "0 < comparator_compare a b \<longleftrightarrow> b < a"
    using bc.cmp_flip [of a b] by (simp add: comparator_compare_def string_compare_less)
  ultimately show ?thesis
    by (simp add: comparator_call_def comparator_compare_def string_compare_less string_compare_zero)
qed

theorem comparator_is_table_order_witness:
  "\<exists>m kvs. MemTable_Add (\<lambda>_. False) [107] [118] MemTable = Some m \<and> mt_rep m kvs \<and>
     [[107]] = map fst kvs \<and> comparator_compare [200] [107, 1] > 0"
proof -
  obtain m where m: "MemTable_Add (\<lambda>_. False) [107] [118] MemTable = Some m" "mt_rep m [([107], [118])]"
    using mt_rep_Add [OF mt_rep_MemTable, of "\<lambda>_. False" "[107]" "[118]"] by (auto simp: c_str_def alist_insert_def)
  from comparator_is_table_order [OF m(2), of "[[107]]" "[200]" "[107, 1]"] m
  show ?thesis by (intro exI [of _ m] exI [of _ "[([107], [118])]"]) simp
qed

end
