(* ===== verification/Db_Threads.thy ===== *)
theory Db_Threads
  imports Db_Correct Comparator
begin

section \<open>Threads that share a database\<close>

text \<open>
  \<open>Put\<close> and \<open>Delete\<close> of \<open>db_impl.cpp\<close> hold \<open>rwlock_\<close> exclusively from the first to the last
  statement, \<open>Get\<close> holds it shared. So a write is one step, taken when no reader is inside,
  and readers interleave with each other. What readers change is the cache, whose shards have
  a lock of their own: a \<open>Get\<close> is a sequence of sections, each with at most one call of the
  cache, and between two sections other readers run. The table, the options and the files are
  only read, so reading them belongs to the section in which their result is used.

  The abstract machine is a map from keys to values; the lemmas at the end relate every run of
  threads that never overwrite a live value and never ask for an unknown key to a run of it.
\<close>

subsection \<open>The sections of a lookup\<close>

datatype lookup = In_table bytes | In_file bytes | Nowhere

text \<open>\<open>cache->get(key.data())\<close>: a null pointer when the key is not cached (any more).\<close>

definition Get_node :: "env \<Rightarrow> bytes \<Rightarrow> db_impl \<Rightarrow> (naddr option \<times> db_impl) res" where
  "Get_node e key s =
     bind_res (cache_get (env_hash e) (c_str key) (db_cache s)) (\<lambda>(node, cs).
       Inr (node, s\<lparr>db_cache := cs\<rparr>))"

text \<open>\<open>*(node->val)\<close>\<close>

definition Get_value :: "env \<Rightarrow> bytes \<Rightarrow> naddr option \<Rightarrow> db_impl \<Rightarrow> bytes res" where
  "Get_value e key node s =
     bind_res (option_res Undefined_Behaviour node) (\<lambda>a.
       cache_node_val (env_hash e) (c_str key) (db_cache s) a)"

definition Get_lookup :: "env \<Rightarrow> bytes \<Rightarrow> db_impl \<Rightarrow> lookup res" where
  "Get_lookup e key s =
     bind_res (option_res Undefined_Behaviour (MemTable_Contains (mem_table s) key)) (\<lambda>present.
       if present then
         bind_res (option_res Undefined_Behaviour (MemTable_Get (mem_table s) (c_str key))) (\<lambda>v.
         bind_res (option_res Exception_Thrown v) (\<lambda>w. Inr (In_table w)))
       else
         bind_res (SSTParser (STORAGE_DIR (options s) @ str ''level_0_sst_0.sst'') (disk s)) (\<lambda>p0.
         bind_res (Parse (env_mem e) p0) (\<lambda>p.
         bind_res (Seek p key) (\<lambda>found.
           Inr (case found of None \<Rightarrow> Nowhere | Some v \<Rightarrow> In_file v)))))"

definition Get_store :: "env \<Rightarrow> u64 \<Rightarrow> bytes \<Rightarrow> bytes \<Rightarrow> db_impl \<Rightarrow> db_impl res" where
  "Get_store e now key v s =
     bind_res (cache_insert (env_hash e) now (c_str key) v (db_cache s)) (\<lambda>cs. Inr (s\<lparr>db_cache := cs\<rparr>))"

subsection \<open>Threads\<close>

datatype pc =
    Idle
  | Checking bytes bytes
  | Hit bytes bytes
  | Pinned bytes bytes "naddr option"
  | Missed bytes bytes
  | Found bytes bytes bytes

record sys =
  shared :: db_impl
  pcs :: "nat \<Rightarrow> pc"

datatype event =
    Wrote nat bytes bytes DBStatus
  | Deleted nat bytes DBStatus
  | Began nat bytes bytes
  | Inner nat
  | Got nat bytes DBStatus bytes

definition set_pc :: "nat \<Rightarrow> pc \<Rightarrow> sys \<Rightarrow> sys" where
  "set_pc t p s = s\<lparr>pcs := (pcs s)(t := p)\<rparr>"

definition quiet :: "sys \<Rightarrow> bool" where
  "quiet s \<longleftrightarrow> (\<forall>t. pcs s t = Idle)"

text \<open>The next section of thread \<open>t\<close>, which is inside \<open>Get\<close>.\<close>

definition get_section :: "env \<Rightarrow> u64 \<Rightarrow> nat \<Rightarrow> sys \<Rightarrow> (event \<times> sys) res" where
  "get_section e now t s =
     (case pcs s t of
        Idle \<Rightarrow> Inr (Inner t, s)
      | Checking key out \<Rightarrow>
          (if cache_contains (env_hash e) (c_str key) (db_cache (shared s))
           then Inr (Inner t, set_pc t (Hit key out) s)
           else Inr (Inner t, set_pc t (Missed key out) s))
      | Hit key out \<Rightarrow>
          bind_res (Get_node e key (shared s)) (\<lambda>(node, d).
            Inr (Inner t, set_pc t (Pinned key out node) (s\<lparr>shared := d\<rparr>)))
      | Pinned key out node \<Rightarrow>
          bind_res (Get_value e key node (shared s)) (\<lambda>v.
            Inr (Got t key Success v, set_pc t Idle s))
      | Missed key out \<Rightarrow>
          bind_res (Get_lookup e key (shared s)) (\<lambda>l.
            case l of
              In_table w \<Rightarrow> Inr (Got t key Success w, set_pc t Idle s)
            | Nowhere \<Rightarrow> Inr (Got t key NotFound out, set_pc t Idle s)
            | In_file v \<Rightarrow> Inr (Inner t, set_pc t (Found key out v) s))
      | Found key out v \<Rightarrow>
          bind_res (Get_store e now key v (shared s)) (\<lambda>d.
            Inr (Got t key Success (out @ v), set_pc t Idle (s\<lparr>shared := d\<rparr>))))"

inductive db_step :: "env \<Rightarrow> sys \<Rightarrow> event \<Rightarrow> sys \<Rightarrow> bool" for e where
  put: "quiet s \<Longrightarrow> DBImpl_Put e coin now key v (shared s) = Inr (st, d) \<Longrightarrow>
          db_step e s (Wrote t key v st) (s\<lparr>shared := d\<rparr>)"
| delete: "quiet s \<Longrightarrow> DBImpl_Delete e coin key (shared s) = Inr (st, d) \<Longrightarrow>
          db_step e s (Deleted t key st) (s\<lparr>shared := d\<rparr>)"
| refuse: "pcs s t = Idle \<Longrightarrow> key = [] \<Longrightarrow> db_step e s (Got t key InvalidArgs out) s"
| enter: "pcs s t = Idle \<Longrightarrow> key \<noteq> [] \<Longrightarrow> db_step e s (Began t key out) (set_pc t (Checking key out) s)"
| inside: "pcs s t \<noteq> Idle \<Longrightarrow> get_section e now t s = Inr (ev, s') \<Longrightarrow> db_step e s ev s'"

inductive_cases put_stepE: "db_step e s (Wrote t key v st) s'"
inductive_cases enter_stepE: "db_step e s (Began t key out) s'"

inductive db_run :: "env \<Rightarrow> sys \<Rightarrow> event list \<Rightarrow> sys \<Rightarrow> bool" for e where
  stop: "db_run e s [] s"
| step: "db_step e s ev s' \<Longrightarrow> db_run e s' evs s'' \<Longrightarrow> db_run e s (ev # evs) s''"

text \<open>A section of thread \<open>t\<close> that does not return normally.\<close>

definition db_crash :: "env \<Rightarrow> sys \<Rightarrow> nat \<Rightarrow> fault \<Rightarrow> bool" where
  "db_crash e s t f \<longleftrightarrow> pcs s t \<noteq> Idle \<and> (\<exists>now. get_section e now t s = Inl f)"

subsection \<open>The sections make up the operation\<close>

text \<open>Thread \<open>t\<close> alone, for at most \<open>n\<close> sections, until it is back.\<close>

fun run_alone :: "env \<Rightarrow> u64 \<Rightarrow> nat \<Rightarrow> nat \<Rightarrow> sys \<Rightarrow> (event \<times> sys) res" where
  "run_alone e now t 0 s = Inl No_Return"
| "run_alone e now t (Suc n) s =
     bind_res (get_section e now t s) (\<lambda>(ev, s').
       if pcs s' t = Idle then Inr (ev, s') else run_alone e now t n s')"

lemma set_pc_simps [simp]:
  "pcs (set_pc t p s) t = p"
  "u \<noteq> t \<Longrightarrow> pcs (set_pc t p s) u = pcs s u"
  "shared (set_pc t p s) = shared s"
  "set_pc t p (set_pc t q s) = set_pc t p s"
  "set_pc t p (s\<lparr>shared := d\<rparr>) = (set_pc t p s)\<lparr>shared := d\<rparr>"
  by (simp_all add: set_pc_def)

lemma set_pc_back: "pcs s t = p \<Longrightarrow> set_pc t p s = s"
  by (auto simp: set_pc_def)

text \<open>What is left of \<open>Get\<close> when the cache has been asked.\<close>

lemma DBImpl_Get_sections:
  assumes "key \<noteq> []"
  shows "DBImpl_Get e now key (Some out) s =
    (if cache_contains (env_hash e) (c_str key) (db_cache s) then
       bind_res (Get_node e key s) (\<lambda>(node, d).
       bind_res (Get_value e key node d) (\<lambda>v. Inr (Success, Some v, d)))
     else
       bind_res (Get_lookup e key s) (\<lambda>l.
         case l of In_table w \<Rightarrow> Inr (Success, Some w, s)
         | Nowhere \<Rightarrow> Inr (NotFound, Some out, s)
         | In_file v \<Rightarrow> bind_res (Get_store e now key v s) (\<lambda>d. Inr (Success, Some (out @ v), d))))"
  using assms
  unfolding DBImpl_Get_def Get_node_def Get_value_def Get_lookup_def Get_store_def
  by (auto simp: bind_res_assoc bind_res_def split: sum.splits option.splits lookup.splits)

lemma run_alone_Get:
  assumes "pcs s t = Idle" and "key \<noteq> []"
  shows "run_alone e now t 3 (set_pc t (Checking key out) s) =
    bind_res (DBImpl_Get e now key (Some out) (shared s)) (\<lambda>(st, r, d).
      Inr (Got t key st (the r), s\<lparr>shared := d\<rparr>))"
  unfolding DBImpl_Get_sections [OF assms(2)] numeral_3_eq_3
  using assms(1)
  by (auto simp: get_section_def bind_res_assoc set_pc_back bind_res_def split: sum.splits option.splits lookup.splits)

subsection \<open>Nodes that readers hold\<close>

lemma lru_get_keeps_val:
  assumes "lru_get k s = Inr (p, s')"
  shows "node_val s' a = node_val s a"
proof (cases "index s k")
  case None
  with assms show ?thesis by (simp add: lru_get_def)
next
  case (Some it)
  with assms obtain n xs where "lheap s it = Some n"
    "s' = s\<lparr>nodes := xs, index := (index s)(k \<mapsto> hd xs), lheap := (lheap s)(it \<mapsto> n\<lparr>ref_cnt := ref_cnt n + 1\<rparr>)\<rparr>"
    by (auto simp: lru_get_def ref_def node_at_def option_res_def bind_res_Inr_iff split: option.splits)
  then show ?thesis by (simp add: node_val_def node_at_def)
qed

lemma cache_get_keeps_val:
  assumes "cache_get h k cs = Inr (p, cs')"
  shows "cache_node_val h j cs' a = cache_node_val h j cs a"
proof -
  let ?i = "sharding_index h k"
  from assms obtain s' where s': "lru_get k (cs ! ?i) = Inr (p, s')" "cs' = cs[?i := s']"
    by (auto simp: cache_get_def bind_res_Inr_iff Let_def)
  show ?thesis
  proof (cases "sharding_index h j = ?i \<and> ?i < length cs")
    case True
    then show ?thesis using lru_get_keeps_val [OF s'(1)] by (simp add: cache_node_val_def s'(2))
  next
    case False
    then have "cs' ! sharding_index h j = cs ! sharding_index h j"
      by (metis list_update_beyond not_less nth_list_update_neq s'(2))
    then show ?thesis by (simp add: cache_node_val_def)
  qed
qed

subsection \<open>The map that the threads share\<close>

text \<open>Keys and values that \<open>Put\<close> and \<open>Get\<close> treat as they are.\<close>

definition plain_key :: "bytes \<Rightarrow> bool" where
  "plain_key k \<longleftrightarrow> k \<noteq> [] \<and> no_nul k \<and> length k < 2 ^ 24"

definition plain_value :: "bytes \<Rightarrow> bool" where
  "plain_value v \<longleftrightarrow> v \<noteq> [] \<and> no_nul v \<and> length v < 2 ^ 32 - 1"

definition live :: "(bytes \<Rightarrow> bytes option) \<Rightarrow> bytes \<Rightarrow> bool" where
  "live M k \<longleftrightarrow> M k \<noteq> None \<and> M k \<noteq> Some []"

definition fits :: "Options \<Rightarrow> (bytes \<Rightarrow> bytes option) \<Rightarrow> bool" where
  "fits opts M \<longleftrightarrow> (of_nat (table_bytes M) :: u64) < MEM_TABLE_MAX_SIZE opts"

text \<open>
  What the clients may do in a state of the map, the state that follows, and the answers of
  the map: a value is not overwritten while it is live, and only known keys are asked for.
\<close>

fun allowed :: "Options \<Rightarrow> (bytes \<Rightarrow> bytes option) \<Rightarrow> event \<Rightarrow> bool" where
  "allowed opts M (Wrote t k v st) \<longleftrightarrow> plain_key k \<and> plain_value v \<and> \<not> live M k \<and> fits opts (M(k \<mapsto> v))"
| "allowed opts M (Deleted t k st) \<longleftrightarrow> plain_key k \<and> fits opts (M(k \<mapsto> []))"
| "allowed opts M (Began t k out) \<longleftrightarrow> plain_key k \<and> M k \<noteq> None"
| "allowed opts M _ \<longleftrightarrow> True"

fun map_next :: "(bytes \<Rightarrow> bytes option) \<Rightarrow> event \<Rightarrow> bytes \<Rightarrow> bytes option" where
  "map_next M (Wrote t k v st) = M(k \<mapsto> v)"
| "map_next M (Deleted t k st) = M(k \<mapsto> [])"
| "map_next M _ = M"

fun map_answer :: "(bytes \<Rightarrow> bytes option) \<Rightarrow> event \<Rightarrow> bool" where
  "map_answer M (Wrote t k v st) \<longleftrightarrow> st = Success"
| "map_answer M (Deleted t k st) \<longleftrightarrow> st = Success"
| "map_answer M (Got t k st v) \<longleftrightarrow> (if k = [] then st = InvalidArgs else st = Success \<and> M k = Some v)"
| "map_answer M _ \<longleftrightarrow> True"

fun allowed_all :: "Options \<Rightarrow> (bytes \<Rightarrow> bytes option) \<Rightarrow> event list \<Rightarrow> bool" where
  "allowed_all opts M [] \<longleftrightarrow> True"
| "allowed_all opts M (ev # evs) \<longleftrightarrow> allowed opts M ev \<and> allowed_all opts (map_next M ev) evs"

fun map_history :: "(bytes \<Rightarrow> bytes option) \<Rightarrow> event list \<Rightarrow> bool" where
  "map_history M [] \<longleftrightarrow> True"
| "map_history M (ev # evs) \<longleftrightarrow> map_answer M ev \<and> map_history (map_next M ev) evs"

definition map_after :: "(bytes \<Rightarrow> bytes option) \<Rightarrow> event list \<Rightarrow> bytes \<Rightarrow> bytes option" where
  "map_after M evs = foldl map_next M evs"

subsection \<open>The relation between the threads and the map\<close>

fun pc_ok :: "env \<Rightarrow> (bytes \<Rightarrow> bytes option) \<Rightarrow> (bytes \<times> bytes) list list \<Rightarrow> (bytes, bytes) cache \<Rightarrow> pc \<Rightarrow> bool" where
  "pc_ok e M ls cs Idle \<longleftrightarrow> True"
| "pc_ok e M ls cs (Checking k out) \<longleftrightarrow> plain_key k \<and> M k \<noteq> None"
| "pc_ok e M ls cs (Hit k out) \<longleftrightarrow> plain_key k \<and> cache_map (env_hash e) ls k \<noteq> None"
| "pc_ok e M ls cs (Pinned k out node) \<longleftrightarrow> plain_key k \<and>
     (\<exists>a v. node = Some a \<and> cache_node_val (env_hash e) k cs a = Inr v \<and> M k = Some v)"
| "pc_ok e M ls cs (Missed k out) \<longleftrightarrow> plain_key k \<and> M k \<noteq> None"
| "pc_ok e M ls cs (Found k out v) \<longleftrightarrow> False"

definition db_holds :: "env \<Rightarrow> db_impl \<Rightarrow> (bytes \<Rightarrow> bytes option) \<Rightarrow> (bytes \<times> bytes) list list \<Rightarrow> bool" where
  "db_holds e s M ls \<longleftrightarrow> db_ok e s M ls \<and> coherent e M ls \<and>
     (\<forall>k. cache_map (env_hash e) ls k \<noteq> Some []) \<and> 0 < CACHE_SIZE (options s)"

definition threads_ok :: "env \<Rightarrow> sys \<Rightarrow> (bytes \<Rightarrow> bytes option) \<Rightarrow> bool" where
  "threads_ok e s M \<longleftrightarrow>
     (\<exists>ls. db_holds e (shared s) M ls \<and> (\<forall>t. pc_ok e M ls (db_cache (shared s)) (pcs s t)))"

lemma plain_key_c_str [simp]: "plain_key k \<Longrightarrow> c_str k = k"
  by (simp add: plain_key_def)

lemma fits_room: "options s = opts \<Longrightarrow> has_room s M \<longleftrightarrow> fits opts M"
  by (auto simp: has_room_def fits_def)

lemma dead_uncached:
  "db_holds e s M ls \<Longrightarrow> \<not> live M k \<Longrightarrow> cache_map (env_hash e) ls k = None"
  by (cases "cache_map (env_hash e) ls k") (auto simp: db_holds_def coherent_def live_def)

lemma put_holds:
  assumes h: "db_holds e s M ls" and a: "plain_key k" "plain_value v" "\<not> live M k" "fits (options s) (M(k \<mapsto> v))"
  shows "\<exists>s' ls'. DBImpl_Put e coin now k v s = Inr (Success, s') \<and> db_holds e s' (M(k \<mapsto> v)) ls' \<and>
           options s' = options s"
proof -
  have ok: "db_ok e s M ls" "coherent e M ls" "0 < CACHE_SIZE (options s)" using h by (simp_all add: db_holds_def)
  have c: "c_str k = k" "c_str v = v" using a(1,2) by (simp_all add: plain_key_def plain_value_def)
  have new: "cache_map (env_hash e) ls k = None" using h a(3) by (rule dead_uncached)
  have room: "has_room s (M(c_str k \<mapsto> c_str v))" using a(4) by (simp add: fits_room c)
  obtain s' where s': "DBImpl_Put e coin now k v s = Inr (Success, s')" "options s' = options s"
    "db_ok e s' (M(k \<mapsto> v)) (put_shards e s k v ls)"
    using Put_stores [OF ok(1) _ _ _ _ room, of coin now] a(1,2) c by (auto simp: plain_key_def plain_value_def)
  have coh: "coherent e (M(k \<mapsto> v)) (put_shards e s k v ls)" by (rule coherent_put [OF ok(1,2) new ok(3)])
  have "cache_map (env_hash e) (put_shards e s k v ls) j \<noteq> Some []" for j
  proof (cases "j = k")
    case True
    have other: "cache_map (env_hash e) (put_shards e s k v ls) j \<noteq> Some w" if "w \<noteq> v" for w
      using coh that unfolding coherent_def True by (metis fun_upd_same option.inject)
    show ?thesis using other [of "[]"] a(2) by (auto simp: plain_value_def)
  next
    case False
    have cr: "cache_rep (unat (CACHE_SIZE (options s))) (db_cache s) ls" using ok(1) by (simp add: db_ok_def)
    have "0 < unat (CACHE_SIZE (options s))" using ok(3) by (simp add: word_less_nat_alt)
    from cache_map_insert_new(2) [OF cr new this False, of v "[]"] h show ?thesis
      by (auto simp: db_holds_def put_shards_def shard_def)
  qed
  with s' coh ok(3) show ?thesis by (auto simp: db_holds_def)
qed

lemma delete_holds:
  assumes h: "db_holds e s M ls" and a: "plain_key k" "fits (options s) (M(k \<mapsto> []))"
  shows "\<exists>s' ls'. DBImpl_Delete e coin k s = Inr (Success, s') \<and> db_holds e s' (M(k \<mapsto> [])) ls' \<and>
           options s' = options s"
proof -
  have ok: "db_ok e s M ls" "coherent e M ls" "0 < CACHE_SIZE (options s)" using h by (simp_all add: db_holds_def)
  have room: "has_room s (M(c_str k \<mapsto> []))" using a by (simp add: fits_room)
  obtain s' where s': "DBImpl_Delete e coin k s = Inr (Success, s')" "options s' = options s"
    "db_ok e s' (M(k \<mapsto> [])) (erase_shards e k ls)"
    using Delete_buries [OF ok(1) _ _ room, of coin] a(1) by (auto simp: plain_key_def)
  have cr: "cache_rep (unat (CACHE_SIZE (options s))) (db_cache s) ls" using ok(1) by (simp add: db_ok_def)
  have "cache_map (env_hash e) (erase_shards e k ls) j \<noteq> Some []" for j
    using cache_map_erase [OF cr, of "env_hash e" k] h
    by (auto simp: db_holds_def erase_shards_def shard_def)
  with s' coherent_erase [OF ok(1,2)] ok(3) show ?thesis by (auto simp: db_holds_def)
qed

subsection \<open>Every step keeps the relation\<close>

lemma threads_okI:
  assumes "db_holds e (shared s) M ls" and "\<And>u. u \<noteq> t \<Longrightarrow> pc_ok e M ls (db_cache (shared s)) (pcs s u)"
    and "pc_ok e M ls (db_cache (shared s)) p"
  shows "threads_ok e (set_pc t p s) M"
  unfolding threads_ok_def
proof (intro exI [of _ ls] conjI allI)
  fix u
  show "pc_ok e M ls (db_cache (shared (set_pc t p s))) (pcs (set_pc t p s) u)"
    using assms(2,3) by (cases "u = t") simp_all
qed (use assms(1) in simp)

lemma get_node_holds:
  assumes h: "db_holds e d M ls" and k: "plain_key k" and c: "cache_map (env_hash e) ls k \<noteq> None"
  shows "\<exists>a d' ls' v. Get_node e k d = Inr (Some a, d') \<and> db_holds e d' M ls' \<and> options d' = options d \<and>
           cache_map (env_hash e) ls' = cache_map (env_hash e) ls \<and>
           cache_node_val (env_hash e) k (db_cache d') a = Inr v \<and> M k = Some v \<and>
           (\<forall>j b. cache_node_val (env_hash e) j (db_cache d') b = cache_node_val (env_hash e) j (db_cache d) b)"
proof -
  from c obtain v where v: "cache_map (env_hash e) ls k = Some v" by blast
  have cr: "cache_rep (unat (CACHE_SIZE (options d))) (db_cache d) ls" using h by (simp add: db_holds_def db_ok_def)
  obtain a cs ls' where g: "cache_get (env_hash e) k (db_cache d) = Inr (Some a, cs)"
    "cache_node_val (env_hash e) k cs a = Inr v" "cache_rep (unat (CACHE_SIZE (options d))) cs ls'"
    "cache_map (env_hash e) ls' = cache_map (env_hash e) ls"
    using cache_get_hit [OF cr v] by blast
  let ?d = "d\<lparr>db_cache := cs\<rparr>"
  have "Get_node e k d = Inr (Some a, ?d)" using g(1) k by (simp add: Get_node_def)
  moreover have "db_holds e ?d M ls'" using h g(3,4) by (simp add: db_holds_def db_ok_def coherent_def)
  moreover have "M k = Some v" using h v by (simp add: db_holds_def coherent_def)
  ultimately show ?thesis using g(2,4) cache_get_keeps_val [OF g(1)]
    by (intro exI [of _ a] exI [of _ ?d] exI [of _ ls'] exI [of _ v]) simp
qed

lemma get_lookup_holds:
  assumes h: "db_holds e d M ls" and k: "plain_key k" and m: "M k \<noteq> None"
  shows "Get_lookup e k d = Inr (In_table (the (M k)))"
proof -
  have abs: "mt_abs (mem_table d) M" using h by (simp add: db_holds_def db_ok_def)
  from m obtain v where v: "M k = Some v" by blast
  from mt.has_abs [OF abs, of k] mt.get_abs [OF abs, of k] k
  have "MemTable_Contains (mem_table d) k = Some True" "MemTable_Get (mem_table d) k = Some (Some v)"
    by (simp_all add: v)
  with k show ?thesis by (simp add: Get_lookup_def v)
qed

lemma pc_ok_touched:
  assumes "\<And>j b. cache_node_val (env_hash e) j cs' b = cache_node_val (env_hash e) j cs b"
    and "cache_map (env_hash e) ls' = cache_map (env_hash e) ls"
  shows "pc_ok e M ls' cs' p = pc_ok e M ls cs p"
  by (cases p) (simp_all add: assms)

definition pc_rank :: "pc \<Rightarrow> nat" where
  "pc_rank p = (case p of Idle \<Rightarrow> 0 | Checking _ _ \<Rightarrow> 3 | Hit _ _ \<Rightarrow> 2 | Missed _ _ \<Rightarrow> 2
     | Pinned _ _ _ \<Rightarrow> 1 | Found _ _ _ \<Rightarrow> 1)"

fun pc_key :: "pc \<Rightarrow> bytes" where
  "pc_key Idle = []"
| "pc_key (Checking k out) = k"
| "pc_key (Hit k out) = k"
| "pc_key (Missed k out) = k"
| "pc_key (Pinned k out node) = k"
| "pc_key (Found k out v) = k"

text \<open>
  A section of a thread that is inside \<open>Get\<close> returns normally; it keeps the relation, and it
  either is an inner one or answers with the value of the map.
\<close>

lemma section_ok:
  assumes ok: "threads_ok e s M" and p: "pcs s t \<noteq> Idle"
  obtains ev s' where "get_section e now t s = Inr (ev, s')" and "threads_ok e s' M"
    and "options (shared s') = options (shared s)" and "\<And>u. u \<noteq> t \<Longrightarrow> pcs s' u = pcs s u"
    and "(ev = Inner t \<and> pcs s' t \<noteq> Idle \<and> pc_key (pcs s' t) = pc_key (pcs s t)) \<or>
         (pcs s' t = Idle \<and> ev = Got t (pc_key (pcs s t)) Success (the (M (pc_key (pcs s t)))))"
    and "plain_key (pc_key (pcs s t))" and "M (pc_key (pcs s t)) \<noteq> None"
proof -
  from ok obtain ls where h: "db_holds e (shared s) M ls"
    and pcs: "\<And>u. pc_ok e M ls (db_cache (shared s)) (pcs s u)" by (auto simp: threads_ok_def)
  have cr: "cache_rep (unat (CACHE_SIZE (options (shared s)))) (db_cache (shared s)) ls"
    using h by (simp add: db_holds_def db_ok_def)
  note con = cache_contains_rep [OF cr, of "env_hash e"]
  have coh: "M k \<noteq> None" if "cache_map (env_hash e) ls k \<noteq> None" for k
    using that h by (auto simp: db_holds_def coherent_def)
  note res = that
  note okI = threads_okI [OF h pcs]
  show ?thesis
  proof (cases "pcs s t")
    case Idle
    with p show ?thesis by simp
  next
    case (Checking k out)
    then have k: "plain_key k" "M k \<noteq> None" using pcs [of t] by simp_all
    show ?thesis
    proof (cases "cache_map (env_hash e) ls k = None")
      case True
      show ?thesis
        by (rule res [of "Inner t" "set_pc t (Missed k out) s"])
          (use k con True in \<open>simp_all add: get_section_def Checking okI\<close>)
    next
      case False
      show ?thesis
        by (rule res [of "Inner t" "set_pc t (Hit k out) s"])
          (use k con False in \<open>simp_all add: get_section_def Checking okI\<close>)
    qed
  next
    case (Hit k out)
    then have k: "plain_key k" "cache_map (env_hash e) ls k \<noteq> None" using pcs [of t] by simp_all
    from get_node_holds [OF h this] obtain a d' ls' v where
      g: "Get_node e k (shared s) = Inr (Some a, d')" "db_holds e d' M ls'" "options d' = options (shared s)"
      "cache_map (env_hash e) ls' = cache_map (env_hash e) ls"
      "cache_node_val (env_hash e) k (db_cache d') a = Inr v" "M k = Some v"
      "\<And>j b. cache_node_val (env_hash e) j (db_cache d') b = cache_node_val (env_hash e) j (db_cache (shared s)) b"
      by blast
    have "threads_ok e (set_pc t (Pinned k out (Some a)) (s\<lparr>shared := d'\<rparr>)) M"
      by (rule threads_okI [of _ _ _ ls']) (use g k pcs pc_ok_touched [OF g(7,4)] in auto)
    then show ?thesis
      by (intro res [of "Inner t" "set_pc t (Pinned k out (Some a)) (s\<lparr>shared := d'\<rparr>)"])
        (use k g in \<open>simp_all add: get_section_def Hit\<close>)
  next
    case (Pinned k out node)
    with pcs [of t] obtain a v where k: "plain_key k" "node = Some a"
      "cache_node_val (env_hash e) k (db_cache (shared s)) a = Inr v" "M k = Some v" by auto
    show ?thesis
      by (rule res [of "Got t k Success v" "set_pc t Idle s"])
        (use k in \<open>simp_all add: get_section_def Pinned Get_value_def okI\<close>)
  next
    case (Missed k out)
    then have k: "plain_key k" "M k \<noteq> None" using pcs [of t] by simp_all
    show ?thesis
      by (rule res [of "Got t k Success (the (M k))" "set_pc t Idle s"])
        (use k get_lookup_holds [OF h k] in \<open>simp_all add: get_section_def Missed okI\<close>)
  next
    case (Found k out v)
    then show ?thesis using pcs [of t] by simp
  qed
qed

lemma step_ok:
  assumes ok: "threads_ok e s M" and "db_step e s ev s'" and "allowed (options (shared s)) M ev"
  shows "threads_ok e s' (map_next M ev) \<and> map_answer M ev \<and> options (shared s') = options (shared s)"
  using assms(2,3)
proof (cases rule: db_step.cases)
  case (put coin now key v st d t)
  from ok obtain ls where h: "db_holds e (shared s) M ls" by (auto simp: threads_ok_def)
  obtain d' ls' where d': "DBImpl_Put e coin now key v (shared s) = Inr (Success, d')"
    "db_holds e d' (M(key \<mapsto> v)) ls'" "options d' = options (shared s)"
    using put_holds [OF h, of key v coin now] assms(3) put(1) by auto
  have "threads_ok e (s\<lparr>shared := d'\<rparr>) (M(key \<mapsto> v))"
    using d'(2) put(3) by (auto simp: threads_ok_def quiet_def)
  with d' put show ?thesis by simp
next
  case (delete coin key st d t)
  from ok obtain ls where h: "db_holds e (shared s) M ls" by (auto simp: threads_ok_def)
  obtain d' ls' where d': "DBImpl_Delete e coin key (shared s) = Inr (Success, d')"
    "db_holds e d' (M(key \<mapsto> [])) ls'" "options d' = options (shared s)"
    using delete_holds [OF h, of key coin] assms(3) delete(1) by auto
  have "threads_ok e (s\<lparr>shared := d'\<rparr>) (M(key \<mapsto> []))"
    using d'(2) delete(3) by (auto simp: threads_ok_def quiet_def)
  with d' delete show ?thesis by simp
next
  case (refuse t key out)
  with ok show ?thesis by simp
next
  case (enter t key out)
  from ok obtain ls where h: "db_holds e (shared s) M ls"
    and pcs: "\<And>u. pc_ok e M ls (db_cache (shared s)) (pcs s u)" by (auto simp: threads_ok_def)
  have "threads_ok e (set_pc t (Checking key out) s) M"
    by (rule threads_okI [OF h pcs]) (use enter assms(3) in simp)
  with enter show ?thesis by simp
next
  case (inside t now)
  obtain ev' s2 where sec: "get_section e now t s = Inr (ev', s2)" "threads_ok e s2 M"
    "options (shared s2) = options (shared s)"
    "ev' = Inner t \<or> ev' = Got t (pc_key (pcs s t)) Success (the (M (pc_key (pcs s t))))"
    "plain_key (pc_key (pcs s t))" "M (pc_key (pcs s t)) \<noteq> None"
    by (rule section_ok [OF ok inside(1)]) blast
  with inside show ?thesis by (auto simp: plain_key_def)
qed

lemma run_ok:
  assumes "db_run e s evs s'" and "threads_ok e s M" and "allowed_all (options (shared s)) M evs"
  shows "threads_ok e s' (map_after M evs) \<and> map_history M evs \<and> options (shared s') = options (shared s)"
  using assms
proof (induction arbitrary: M rule: db_run.induct)
  case (stop s)
  then show ?case by (simp add: map_after_def)
next
  case (step s ev s' evs s'')
  have s': "threads_ok e s' (map_next M ev)" "map_answer M ev" "options (shared s') = options (shared s)"
    using step_ok [OF step.prems(1) step.hyps(1)] step.prems(2) by simp_all
  from step.IH [OF s'(1)] s'(2,3) step.prems(2) show ?case by (simp add: map_after_def)
qed

subsection \<open>Opening, and a run that breaks\<close>

text \<open>The database a process opens, before any thread uses it.\<close>

definition quiet_sys :: "db_impl \<Rightarrow> sys" where
  "quiet_sys s = \<lparr>shared = s, pcs = (\<lambda>_. Idle)\<rparr>"

lemma quiet_sys_ok: "db_holds e s M ls \<Longrightarrow> threads_ok e (quiet_sys s) M"
  by (auto simp: threads_ok_def quiet_sys_def)

lemma empty_holds:
  "db_ok e s Map.empty ls \<Longrightarrow> (\<And>k. cache_map (env_hash e) ls k = None) \<Longrightarrow> 0 < CACHE_SIZE (options s) \<Longrightarrow>
     db_holds e s Map.empty ls"
  by (simp add: db_holds_def coherent_def)

text \<open>
  A small table file by hand, in which the parser finds a key: the first record has the key
  \<open>1 0 0 0\<close>, whose bytes the parser takes for the three lengths of the next record.
\<close>

definition crafted_block :: bytes where
  "crafted_block =
     EncodeFixed32 0 @ EncodeFixed32 4 @ EncodeFixed32 0 @ [1, 0, 0, 0] @ replicate 8 7 @ [65, 66] @
     EncodeFixed32 2 @ EncodeFixed64 (offset_bits \<lparr>oi_size = 26, oi_offset = 0\<rparr>) @
     EncodeFixed32 1 @ EncodeFixed64 (offset_bits \<lparr>oi_size = 12, oi_offset = 26\<rparr>)"

definition crafted_file :: bytes where
  "crafted_file = sst_layout crafted_block [0, 0, 0, 0] (enc_entries [([2], \<lparr>oi_size = 50, oi_offset = 0\<rparr>)])"

definition crafted_parser :: sst_parser where
  "crafted_parser =
     \<lparr>sp_filterPolicy = BloomFilter0, index_blocks = [], sp_file = crafted_file, sst_content = [],
      header = \<lparr>MetaBlock_OffsetInfo = OffsetInfo_clear, IndexBlock_OffsetInfo = OffsetInfo_clear\<rparr>\<rparr>"

lemma crafted_seek:
  "bind_res (Parse (\<lambda>a. Some 0) crafted_parser) (\<lambda>p. Seek p [1, 65]) = Inr (Some [66])"
  by code_simp

lemma crafted_lookup:
  assumes "db_ok e s M ls" and "M [1, 65] = None" and "env_mem e = (\<lambda>a. Some 0)"
    and "files (disk s) (sst_path s) = Some crafted_file"
  shows "Get_lookup e [1, 65] s = Inr (In_file [66])"
proof -
  have abs: "mt_abs (mem_table s) M" using assms(1) by (simp add: db_ok_def)
  have "SSTParser (sst_path s) (disk s) = Inr crafted_parser"
    by (simp add: SSTParser_def access_ok_def assms(4) crafted_parser_def)
  with mt.has_abs [OF abs, of "[1, 65]"] assms(2,3) crafted_seek show ?thesis
    by (auto simp: Get_lookup_def c_str_def sst_path_def [symmetric] bind_res_Inr_iff)
qed

lemma crash_after_eviction:
  assumes ok: "db_ok e (shared s) M ls" and idle: "pcs s t = Idle" "pcs s u = Idle" "t \<noteq> u"
    and keys: "k1 \<noteq> []" "k2 \<noteq> []"
    and cached: "cache_map (env_hash e) ls (c_str k1) \<noteq> None" "cache_map (env_hash e) ls (c_str k2) = None"
    and found: "Get_lookup e k2 (shared s) = Inr (In_file v)"
    and evicts: "cache_map (env_hash e) (put_shards e (shared s) (c_str k2) v ls) (c_str k1) = None"
  shows "\<exists>s'. db_run e s [Began t k1 out, Inner t, Began u k2 out', Inner u, Inner u,
             Got u k2 Success (out' @ v), Inner t] s' \<and> db_crash e s' t Undefined_Behaviour"
proof -
  let ?d = "shared s"
  have cr: "cache_rep (unat (CACHE_SIZE (options ?d))) (db_cache ?d) ls" using ok by (simp add: db_ok_def)
  from cache_insert_rep [OF cr, of "env_hash e" 0 "c_str k2" v] obtain cs where
    ins: "cache_insert (env_hash e) 0 (c_str k2) v (db_cache ?d) = Inr cs"
    "cache_rep (unat (CACHE_SIZE (options ?d))) cs (put_shards e ?d (c_str k2) v ls)"
    by (auto simp: put_shards_def shard_def)
  note con = cache_contains_rep [OF cr, of "env_hash e"]
  define s1 where "s1 = set_pc t (Checking k1 out) s"
  define s2 where "s2 = set_pc t (Hit k1 out) s1"
  define s3 where "s3 = set_pc u (Checking k2 out') s2"
  define s4 where "s4 = set_pc u (Missed k2 out') s3"
  define s5 where "s5 = set_pc u (Found k2 out' v) s4"
  define s6 where "s6 = set_pc u Idle (s5\<lparr>shared := ?d\<lparr>db_cache := cs\<rparr>\<rparr>)"
  define s7 where "s7 = set_pc t (Pinned k1 out None) s6"
  note defs = s1_def s2_def s3_def s4_def s5_def s6_def s7_def
  note tu = idle(3) idle(3) [symmetric]
  have 1: "db_step e s (Began t k1 out) s1" unfolding s1_def by (rule db_step.enter [OF idle(1) keys(1)])
  have 2: "db_step e s1 (Inner t) s2"
    by (rule db_step.inside [of _ t _ 0]) (use con cached(1) in \<open>simp_all add: defs get_section_def\<close>)
  have 3: "db_step e s2 (Began u k2 out') s3"
    unfolding s3_def by (rule db_step.enter [OF _ keys(2)]) (use idle tu in \<open>simp add: defs\<close>)
  have 4: "db_step e s3 (Inner u) s4"
    by (rule db_step.inside [of _ u _ 0]) (use con cached(2) in \<open>simp_all add: defs get_section_def\<close>)
  have 5: "db_step e s4 (Inner u) s5"
    by (rule db_step.inside [of _ u _ 0]) (use found in \<open>simp_all add: defs get_section_def\<close>)
  have 6: "db_step e s5 (Got u k2 Success (out' @ v)) s6"
    by (rule db_step.inside [of _ u _ 0]) (use ins(1) in \<open>simp_all add: defs get_section_def Get_store_def\<close>)
  have t6: "pcs s6 t = Hit k1 out" "shared s6 = ?d\<lparr>db_cache := cs\<rparr>" using tu by (simp_all add: defs)
  have node: "Get_node e k1 (shared s6) = Inr (None, shared s6)"
    unfolding t6(2) using cache_get_miss [OF ins(2) evicts] by (simp add: Get_node_def)
  have 7: "db_step e s6 (Inner t) s7"
    by (rule db_step.inside [of _ t _ 0]) (use node t6(1) in \<open>simp_all add: s7_def get_section_def\<close>)
  have "db_run e s [Began t k1 out, Inner t, Began u k2 out', Inner u, Inner u,
      Got u k2 Success (out' @ v), Inner t] s7"
    by (intro db_run.step [OF 1] db_run.step [OF 2] db_run.step [OF 3] db_run.step [OF 4] db_run.step [OF 5]
        db_run.step [OF 6] db_run.step [OF 7] db_run.stop)
  moreover have "db_crash e s7 t Undefined_Behaviour"
    by (simp add: db_crash_def s7_def get_section_def Get_value_def)
  ultimately show ?thesis by blast
qed

lemma evict_only_entry:
  assumes ok: "db_ok e s M ls" and size: "CACHE_SIZE (options s) = 1"
    and new: "cache_map (env_hash e) ls k2 = None" and same: "shard e k1 = shard e k2" and "k1 \<noteq> k2"
  shows "cache_map (env_hash e) (put_shards e s k2 v ls) k1 = None"
proof -
  have cr: "cache_rep (unat (CACHE_SIZE (options s))) (db_cache s) ls" using ok by (simp add: db_ok_def)
  have "map_of (ls ! shard e k2) k2 = None" using new by (simp add: cache_map_def shard_list_def shard_def)
  then have "remember (unat (CACHE_SIZE (options s))) k2 v (ls ! shard e k2) = [(k2, v)]"
    by (simp add: remember_def size)
  then show ?thesis
    using cache_rep_shard(2) [OF cr, of "env_hash e" k2] same \<open>k1 \<noteq> k2\<close>
    by (simp add: put_shards_def cache_map_def shard_list_def shard_def)
qed

subsection \<open>Readers leave\<close>

text \<open>The events of sections of threads that are inside \<open>Get\<close>.\<close>

fun inner_event :: "event \<Rightarrow> bool" where
  "inner_event (Inner t) \<longleftrightarrow> True"
| "inner_event (Got t k st v) \<longleftrightarrow> st \<noteq> InvalidArgs"
| "inner_event _ \<longleftrightarrow> False"

lemma section_rank:
  assumes "get_section e now t s = Inr (ev, s')" and "pcs s t \<noteq> Idle"
  shows "Suc (pc_rank (pcs s' t)) \<le> pc_rank (pcs s t)" and "\<And>u. u \<noteq> t \<Longrightarrow> pcs s' u = pcs s u"
    and "inner_event ev"
proof -
  have "Suc (pc_rank (pcs s' t)) \<le> pc_rank (pcs s t) \<and> (\<forall>u. u \<noteq> t \<longrightarrow> pcs s' u = pcs s u) \<and> inner_event ev"
  proof (cases "pcs s t")
    case (Missed k out)
    with assms(1) obtain l where l: "Get_lookup e k (shared s) = Inr l"
      by (auto simp: get_section_def bind_res_Inr_iff)
    with assms(1) Missed show ?thesis by (cases l) (auto simp: get_section_def pc_rank_def)
  qed (use assms in \<open>auto simp: get_section_def pc_rank_def bind_res_Inr_iff split: if_splits\<close>)
  then show "Suc (pc_rank (pcs s' t)) \<le> pc_rank (pcs s t)" and "\<And>u. u \<noteq> t \<Longrightarrow> pcs s' u = pcs s u"
    and "inner_event ev" by simp_all
qed

definition load :: "nat set \<Rightarrow> sys \<Rightarrow> nat" where
  "load T s = (\<Sum>t \<in> T. pc_rank (pcs s t))"

lemma section_load:
  assumes "get_section e now t s = Inr (ev, s')" and "pcs s t \<noteq> Idle" and "finite T" and "t \<in> T"
  shows "Suc (load T s') \<le> load T s"
proof -
  note r = section_rank [OF assms(1,2)]
  have "load T s' = pc_rank (pcs s' t) + (\<Sum>u \<in> T - {t}. pc_rank (pcs s' u))"
    unfolding load_def using assms(3,4) by (simp add: sum.remove)
  also have "(\<Sum>u \<in> T - {t}. pc_rank (pcs s' u)) = (\<Sum>u \<in> T - {t}. pc_rank (pcs s u))"
    using r(2) by (intro sum.cong) auto
  finally show ?thesis using r(1) assms(3,4) by (simp add: load_def sum.remove)
qed

lemma inner_step_section:
  assumes "db_step e s ev s'" and "inner_event ev"
  obtains now t where "pcs s t \<noteq> Idle" and "get_section e now t s = Inr (ev, s')"
  using assms by (cases rule: db_step.cases) auto

lemma pc_rank_bounds: "pc_rank p \<le> 3" "pc_rank p = 0 \<longleftrightarrow> p = Idle"
  by (simp_all add: pc_rank_def split: pc.split)

lemma load_bound: "finite T \<Longrightarrow> load T s \<le> 3 * card T"
  unfolding load_def using sum_bounded_above [of T "\<lambda>t. pc_rank (pcs s t)" 3] pc_rank_bounds(1) by simp

lemma run_load:
  assumes "db_run e s evs s'" and "finite T" and "\<forall>ev \<in> set evs. inner_event ev"
    and "\<And>t. t \<notin> T \<Longrightarrow> pcs s t = Idle"
  shows "length evs + load T s' \<le> load T s"
  using assms
proof (induction rule: db_run.induct)
  case (stop s)
  then show ?case by simp
next
  case (step s ev s' evs s'')
  obtain now t where sec: "pcs s t \<noteq> Idle" "get_section e now t s = Inr (ev, s')"
    using step.hyps(1) step.prems(2) by (auto elim: inner_step_section)
  have t: "t \<in> T" using step.prems(3) sec(1) by blast
  have "pcs s' u = Idle" if "u \<notin> T" for u
    using section_rank(2) [OF sec(2,1), of u] step.prems(3) [OF that] t that by (cases "u = t") auto
  with step.IH step.prems(1,2) have "length evs + load T s'' \<le> load T s'" by simp
  with section_load [OF sec(2,1) step.prems(1) t] show ?case by simp
qed

lemma readers_finish:
  assumes "threads_ok e s M" and "finite T" and "\<And>t. t \<notin> T \<Longrightarrow> pcs s t = Idle"
  shows "\<exists>evs s'. db_run e s evs s' \<and> (\<forall>ev \<in> set evs. inner_event ev) \<and> quiet s'"
  using assms
proof (induction "load T s" arbitrary: s rule: less_induct)
  case less
  show ?case
  proof (cases "quiet s")
    case True
    then have "db_run e s [] s \<and> (\<forall>ev \<in> set []. inner_event ev) \<and> quiet s" by (simp add: db_run.stop)
    then show ?thesis by blast
  next
    case False
    then obtain t where t: "pcs s t \<noteq> Idle" by (auto simp: quiet_def)
    obtain ev s' where sec: "get_section e 0 t s = Inr (ev, s')" "threads_ok e s' M"
      by (rule section_ok [OF less.prems(1) t, where now = 0]) blast
    have T: "t \<in> T" using less.prems(3) t by blast
    have idle: "pcs s' u = Idle" if "u \<notin> T" for u
      using section_rank(2) [OF sec(1) t, of u] less.prems(3) [OF that] T that by (cases "u = t") auto
    have "load T s' < load T s" using section_load [OF sec(1) t less.prems(2) T] by simp
    from less.hyps [OF this sec(2) less.prems(2) idle] obtain evs s'' where
      run: "db_run e s' evs s''" "\<forall>ev \<in> set evs. inner_event ev" "quiet s''" by blast
    have "db_run e s (ev # evs) s''" using db_step.inside [OF t sec(1)] run(1) by (rule db_run.step)
    moreover have "\<forall>ev \<in> set (ev # evs). inner_event ev" using run(2) section_rank(3) [OF sec(1) t] by simp
    ultimately show ?thesis using run(3) by blast
  qed
qed

lemma sample_threads:
  obtains s where "DBImpl MakeOptionsForDebugging sample_fs = Inr s" and "threads_ok sample_env (quiet_sys s) Map.empty"
    and "options s = MakeOptionsForDebugging"
proof -
  obtain s where s: "DBImpl MakeOptionsForDebugging sample_fs = Inr s"
    "db_ok sample_env s Map.empty sample_shards" "options s = MakeOptionsForDebugging"
    by (rule sample_open)
  have "db_holds sample_env s Map.empty sample_shards"
    by (rule empty_holds [OF s(2) sample_uncached]) (simp add: s(3) sample_limits)
  with s that show thesis using quiet_sys_ok by blast
qed

text \<open>A database with one pair, a reader of it inside, and the events that led there.\<close>

definition sample_events :: "event list" where
  "sample_events = [Wrote 0 [107] [118] Success, Began 1 [107] []]"

lemma sample_reader:
  obtains s s' where "DBImpl MakeOptionsForDebugging sample_fs = Inr s"
    and "threads_ok sample_env (quiet_sys s) Map.empty" and "db_run sample_env (quiet_sys s) sample_events s'"
    and "allowed_all (options (shared (quiet_sys s))) Map.empty sample_events"
    and "pcs s' = (\<lambda>_. Idle)(1 := Checking [107] [])" and "threads_ok sample_env s' [[107] \<mapsto> [118]]"
proof -
  obtain s s1 ls1 where s: "DBImpl MakeOptionsForDebugging sample_fs = Inr s"
    "DBImpl_Put sample_env (\<lambda>_. False) 0 [107] [118] s = Inr (Success, s1)" by (rule sample_put) blast
  obtain s0 where s0: "DBImpl MakeOptionsForDebugging sample_fs = Inr s0" "threads_ok sample_env (quiet_sys s0) Map.empty"
    "options s0 = MakeOptionsForDebugging" by (rule sample_threads)
  have same: "s0 = s" using s(1) s0(1) by simp
  let ?s' = "set_pc 1 (Checking [107] []) ((quiet_sys s)\<lparr>shared := s1\<rparr>)"
  have "DBImpl_Put sample_env (\<lambda>_. False) 0 [107] [118] (shared (quiet_sys s)) = Inr (Success, s1)"
    using s(2) by (simp add: quiet_sys_def)
  from db_step.put [OF _ this, of 0]
  have 1: "db_step sample_env (quiet_sys s) (Wrote 0 [107] [118] Success) ((quiet_sys s)\<lparr>shared := s1\<rparr>)"
    by (simp add: quiet_sys_def quiet_def)
  have 2: "db_step sample_env ((quiet_sys s)\<lparr>shared := s1\<rparr>) (Began 1 [107] []) ?s'"
    by (rule db_step.enter) (simp_all add: quiet_sys_def)
  have run: "db_run sample_env (quiet_sys s) sample_events ?s'"
    unfolding sample_events_def by (rule db_run.step [OF 1 db_run.step [OF 2 db_run.stop]])
  have allow: "allowed_all (options (shared (quiet_sys s))) Map.empty sample_events"
    by (simp add: sample_events_def quiet_sys_def s0(3) [unfolded same] plain_key_def plain_value_def no_nul_def live_def
        fits_def table_bytes_def sample_limits)
  have "map_after Map.empty sample_events = [[107] \<mapsto> [118]]" by (simp add: map_after_def sample_events_def)
  with run_ok [OF run s0(2) [unfolded same] allow] have "threads_ok sample_env ?s' [[107] \<mapsto> [118]]" by simp
  moreover have "pcs ?s' = (\<lambda>_. Idle)(1 := Checking [107] [])" by (simp add: set_pc_def quiet_sys_def)
  ultimately show thesis using that [OF s(1) s0(2) [unfolded same] run allow] by blast
qed

text \<open>A database with room for one entry in each shard and the crafted file on its disk.\<close>

definition crafted_env :: env where
  "crafted_env = sample_env\<lparr>env_mem := (\<lambda>a. Some 0)\<rparr>"

definition crafted_options :: Options where
  "crafted_options = MakeOptionsForDebugging\<lparr>CACHE_SIZE := 1\<rparr>"

lemma crafted_open:
  obtains s s1 ls where "DBImpl crafted_options sample_fs = Inr s"
    and "DBImpl_Put crafted_env (\<lambda>_. False) 0 [107, 107] [118] s = Inr (Success, s1)"
    and "db_ok crafted_env s1 [[107, 107] \<mapsto> [118]] ls" and "options s1 = crafted_options"
    and "cache_map (env_hash crafted_env) ls [107, 107] = Some [118]"
    and "cache_map (env_hash crafted_env) ls [1, 65] = None"
proof -
  have p: "WAL_DIR crafted_options \<notin> dirs sample_fs" "47 \<in> set (WAL_DIR crafted_options)"
    "parent_free (WAL_DIR crafted_options) sample_fs"
    by (simp_all add: crafted_options_def MakeOptionsForDebugging_def sample_fs_def str_def parent_free_def parent_dir_def)
  have "full_writes (env_wr crafted_env)" by (simp add: crafted_env_def sample_env_def full_writes_all_written)
  from DBImpl_opens [OF this p] obtain s where s: "DBImpl crafted_options sample_fs = Inr s"
    "db_ok crafted_env s Map.empty sample_shards" "options s = crafted_options"
    unfolding sample_shards_def by blast
  let ?k = "[107, 107] :: bytes" and ?ls = "put_shards crafted_env s [107, 107] [118] sample_shards"
  have c: "c_str ?k = ?k" "c_str [118] = [118]" by (simp_all add: c_str_def)
  have size: "CACHE_SIZE (options s) = 1" by (simp add: s(3) crafted_options_def)
  have "has_room s [c_str ?k \<mapsto> c_str [118]]"
    unfolding c by (simp add: has_room_def s(3) crafted_options_def sample_limits table_bytes_def)
  from Put_stores [OF s(2) _ _ _ _ this, of "\<lambda>_. False" 0] obtain s1 where
    s1: "DBImpl_Put crafted_env (\<lambda>_. False) 0 ?k [118] s = Inr (Success, s1)"
    "db_ok crafted_env s1 [?k \<mapsto> [118]] ?ls" "options s1 = options s"
    by (auto simp: c)
  have cr: "cache_rep (unat (CACHE_SIZE (options s))) (db_cache s) sample_shards" using s(2) by (simp add: db_ok_def)
  have "0 < unat (CACHE_SIZE (options s))" by (simp add: size)
  note new = cache_map_insert_new [OF cr sample_uncached [of "env_hash crafted_env" ?k] this,
      where v = "[118]", folded shard_def put_shards_def]
  have cached: "cache_map (env_hash crafted_env) ?ls ?k = Some [118]"
    using new(1) by (simp add: put_shards_def shard_def)
  have "cache_map (env_hash crafted_env) ?ls [1, 65] \<noteq> Some w" for w
    using new(2) [of "[1, 65]" w] sample_uncached by (auto simp: put_shards_def shard_def)
  then have uncached: "cache_map (env_hash crafted_env) ?ls [1, 65] = None" by blast
  show thesis by (rule that [OF s(1) s1(1,2) _ cached uncached]) (simp add: s1(3) s(3))
qed

subsection \<open>Properties\<close>

text \<open>
  A thread that runs the sections of a Get without interruption returns after at most three of
  them, with the status, the value, the final state or the fault of the whole operation
  DBImpl::Get.
\<close>

theorem get_sections:
  assumes "pcs s t = Idle" and "key \<noteq> []"
  shows "run_alone e now t 3 (set_pc t (Checking key out) s) =
    bind_res (DBImpl_Get e now key (Some out) (shared s)) (\<lambda>(st, r, d).
      Inr (Got t key st (the r), s\<lparr>shared := d\<rparr>))"
  by (rule run_alone_Get [OF assms])

theorem get_sections_witness:
  "\<exists>s s1 s2. DBImpl MakeOptionsForDebugging sample_fs = Inr s \<and>
     DBImpl_Put sample_env (\<lambda>_. False) 0 [107] [118] s = Inr (Success, s1) \<and>
     run_alone sample_env 0 4 3 (set_pc 4 (Checking [107] []) (quiet_sys s1)) = Inr (Got 4 [107] Success [118], s2)"
proof -
  obtain s s1 ls1 where s: "DBImpl MakeOptionsForDebugging sample_fs = Inr s"
    "DBImpl_Put sample_env (\<lambda>_. False) 0 [107] [118] s = Inr (Success, s1)"
    "db_ok sample_env s1 [[107] \<mapsto> [118]] ls1" "cache_map (env_hash sample_env) ls1 [107] = Some [118]"
    by (rule sample_put)
  have "db_view sample_env [[107] \<mapsto> [118]] ls1 (c_str [107]) = Some [118]" by (simp add: db_view_def c_str_def s(4))
  from Get_sees [OF s(3) _ this, of 0 "[]"] obtain d where
    "DBImpl_Get sample_env 0 [107] (Some []) s1 = Inr (Success, Some [118], d)" by auto
  with get_sections [of "quiet_sys s1" 4 "[107]" sample_env 0 "[]"] s(1,2) show ?thesis
    by (simp add: quiet_sys_def)
qed



text \<open>
  C16: In the same runs a thread that is inside Get can always go on, and no section of it
  aborts or is undefined, although it looks its key up in the cache twice with other readers
  in between.
\<close>

theorem threads_never_crash:
  assumes "db_run e s evs s'" and "threads_ok e s M" and "allowed_all (options (shared s)) M evs"
    and "pcs s' t \<noteq> Idle"
  shows "(\<exists>ev s''. get_section e now t s' = Inr (ev, s'')) \<and> \<not> db_crash e s' t f"
proof -
  have ok: "threads_ok e s' (map_after M evs)" using run_ok [OF assms(1-3)] by blast
  have sec: "\<exists>ev s''. get_section e now t s' = Inr (ev, s'')" for now
    by (rule section_ok [OF ok assms(4), of now]) blast
  moreover have "\<not> db_crash e s' t f" unfolding db_crash_def using sec by (metis sum.distinct(1))
  ultimately show ?thesis by blast
qed

theorem threads_never_crash_witness:
  "\<exists>s s'. DBImpl MakeOptionsForDebugging sample_fs = Inr s \<and> db_run sample_env (quiet_sys s) sample_events s' \<and>
     (\<exists>ev s''. get_section sample_env 0 1 s' = Inr (ev, s'')) \<and> \<not> db_crash sample_env s' 1 Undefined_Behaviour"
proof -
  obtain s s' where s: "DBImpl MakeOptionsForDebugging sample_fs = Inr s"
    "threads_ok sample_env (quiet_sys s) Map.empty" "db_run sample_env (quiet_sys s) sample_events s'"
    "allowed_all (options (shared (quiet_sys s))) Map.empty sample_events"
    "pcs s' = (\<lambda>_. Idle)(1 := Checking [107] [])"
    by (rule sample_reader)
  have "pcs s' 1 \<noteq> Idle" by (simp add: s(5))
  from threads_never_crash [OF s(3,2,4) this] s(1,3) show ?thesis by blast
qed

text \<open>
  C17: Get asks the cache twice, and only a shared lock is held: when another reader stores a
  value from a table file in between and evicts the key, cache->get returns a null pointer and
  the first reader dereferences it.
\<close>

theorem threads_get_race:
  assumes "db_ok e (shared s) M ls" and "pcs s t = Idle" and "pcs s u = Idle" and "t \<noteq> u"
    and "k1 \<noteq> []" and "k2 \<noteq> []"
    and "cache_map (env_hash e) ls (c_str k1) \<noteq> None" and "cache_map (env_hash e) ls (c_str k2) = None"
    and "Get_lookup e k2 (shared s) = Inr (In_file v)"
    and "cache_map (env_hash e) (put_shards e (shared s) (c_str k2) v ls) (c_str k1) = None"
  shows "\<exists>s'. db_run e s [Began t k1 out, Inner t, Began u k2 out', Inner u, Inner u,
             Got u k2 Success (out' @ v), Inner t] s' \<and> db_crash e s' t Undefined_Behaviour"
  by (rule crash_after_eviction [OF assms])

theorem threads_get_race_witness:
  "\<exists>s s1 d s'. DBImpl crafted_options sample_fs = Inr s \<and>
     DBImpl_Put crafted_env (\<lambda>_. False) 0 [107, 107] [118] s = Inr (Success, s1) \<and>
     db_run crafted_env (quiet_sys (s1\<lparr>disk := d\<rparr>)) [Began 0 [107, 107] [], Inner 0, Began 1 [1, 65] [], Inner 1,
       Inner 1, Got 1 [1, 65] Success [66], Inner 0] s' \<and> db_crash crafted_env s' 0 Undefined_Behaviour"
proof -
  obtain s s1 ls where s: "DBImpl crafted_options sample_fs = Inr s"
    "DBImpl_Put crafted_env (\<lambda>_. False) 0 [107, 107] [118] s = Inr (Success, s1)"
    "db_ok crafted_env s1 [[107, 107] \<mapsto> [118]] ls" "options s1 = crafted_options"
    "cache_map (env_hash crafted_env) ls [107, 107] = Some [118]"
    "cache_map (env_hash crafted_env) ls [1, 65] = None"
    by (rule crafted_open)
  let ?s = "s1\<lparr>disk := (disk s1)\<lparr>files := (files (disk s1))(sst_path s1 \<mapsto> crafted_file)\<rparr>\<rparr>"
  have ok: "db_ok crafted_env ?s [[107, 107] \<mapsto> [118]] ls" using s(3) by (simp add: db_ok_def fw_ok_def)
  have c: "c_str [107, 107] = [107, 107]" "c_str [1, 65] = [1, 65]" by (simp_all add: c_str_def)
  have found: "Get_lookup crafted_env [1, 65] ?s = Inr (In_file [66])"
    by (rule crafted_lookup [OF ok]) (simp_all add: crafted_env_def sst_path_def)
  have out: "cache_map (env_hash crafted_env) (put_shards crafted_env ?s [1, 65] [66] ls) [107, 107] = None"
    by (rule evict_only_entry [OF ok _ s(6)])
      (simp_all add: s(4) crafted_options_def shard_def sharding_index_def crafted_env_def sample_env_def)
  have "\<exists>s'. db_run crafted_env (quiet_sys ?s) [Began 0 [107, 107] [], Inner 0, Began 1 [1, 65] [], Inner 1,
      Inner 1, Got 1 [1, 65] Success ([] @ [66]), Inner 0] s' \<and> db_crash crafted_env s' 0 Undefined_Behaviour"
    by (rule threads_get_race [of crafted_env "quiet_sys ?s"])
      (use ok found out s(5,6) in \<open>simp_all add: quiet_sys_def c\<close>)
  with s(1,2) show ?thesis by auto
qed

text \<open>
  C39: Readers always leave: from every state of such a run the readers that are inside can
  finish, and when no new ones enter, no more than three sections per reader are run before
  the exclusive lock is free for a writer.
\<close>

theorem readers_drain:
  assumes "finite T" and "\<And>t. t \<notin> T \<Longrightarrow> pcs s t = Idle" and "threads_ok e s M"
  shows "(\<exists>evs s'. db_run e s evs s' \<and> (\<forall>ev \<in> set evs. inner_event ev) \<and> quiet s') \<and>
    (\<forall>evs s'. db_run e s evs s' \<longrightarrow> (\<forall>ev \<in> set evs. inner_event ev) \<longrightarrow> length evs \<le> 3 * card T)"
proof (intro conjI allI impI)
  show "\<exists>evs s'. db_run e s evs s' \<and> (\<forall>ev \<in> set evs. inner_event ev) \<and> quiet s'"
    by (rule readers_finish [OF assms(3,1,2)])
  fix evs s' assume "db_run e s evs s'" and "\<forall>ev \<in> set evs. inner_event ev"
  from run_load [OF this(1) assms(1) this(2) assms(2)] load_bound [OF assms(1), of s]
  show "length evs \<le> 3 * card T" by linarith
qed

theorem readers_drain_witness:
  "\<exists>s. pcs s 1 = Checking [107] [] \<and>
     (\<exists>evs s'. db_run sample_env s evs s' \<and> (\<forall>ev \<in> set evs. inner_event ev) \<and> quiet s') \<and>
     (\<forall>evs s'. db_run sample_env s evs s' \<longrightarrow> (\<forall>ev \<in> set evs. inner_event ev) \<longrightarrow> length evs \<le> 3)"
proof -
  obtain s s' where s: "pcs s' = (\<lambda>_. Idle)(1 := Checking [107] [])" "threads_ok sample_env s' [[107] \<mapsto> [118]]"
    by (rule sample_reader)
  have idle: "\<And>t. t \<notin> {1} \<Longrightarrow> pcs s' t = Idle" by (simp add: s(1))
  from readers_drain [where T = "{1}", OF _ idle s(2)] have
    "(\<exists>evs s''. db_run sample_env s' evs s'' \<and> (\<forall>ev \<in> set evs. inner_event ev) \<and> quiet s'') \<and>
     (\<forall>evs s''. db_run sample_env s' evs s'' \<longrightarrow> (\<forall>ev \<in> set evs. inner_event ev) \<longrightarrow> length evs \<le> 3)" by simp
  moreover have "pcs s' 1 = Checking [107] []" by (simp add: s(1))
  ultimately show ?thesis by blast
qed

end
