(* ===== verification/Bench.thy ===== *)
theory Bench
  imports Db_Threads
begin

section \<open>The benchmark driver\<close>

text \<open>
  \<open>main\<close> of \<open>src/main.cpp\<close>: ten threads write the pairs \<open>key<i>\<close>, \<open>value<i>\<close> for \<open>i\<close> below
  50000, each a range of its own; when all have been joined ten threads read them back and
  count the answers. The writers interleave at whole \<open>Put\<close> calls, the readers at the sections
  of \<open>Get\<close> (theory \<open>Db_Threads\<close>); \<open>join\<close> is the condition that every thread has returned. The
  clock and the output are left out.
\<close>

definition bench_N :: u32 where
  "bench_N = 50000"

definition num_threads :: u32 where
  "num_threads = 10"

text \<open>\<open>N\<close> is converted to \<open>unsigned int\<close> and the bounds of a range back to \<open>int\<close>.\<close>

definition worker_start :: "u32 \<Rightarrow> int" where
  "worker_start t = sint (bench_N div num_threads * t)"

definition worker_end :: "u32 \<Rightarrow> int" where
  "worker_end t = (if t = num_threads - 1 then sint bench_N else sint (bench_N div num_threads * (t + 1)))"

definition bench_key :: "int \<Rightarrow> bytes" where
  "bench_key i = str ''key'' @ to_string_int i"

definition bench_value :: "int \<Rightarrow> bytes" where
  "bench_value i = str ''value'' @ to_string_int i"

subsection \<open>The writers\<close>

record writers =
  wdb :: DB
  wnext :: "u32 \<Rightarrow> int"
  wstopped :: "u32 \<Rightarrow> bool"
  write_failed :: bool

definition writers_start :: "DB \<Rightarrow> writers" where
  "writers_start db = \<lparr>wdb = db, wnext = worker_start, wstopped = (\<lambda>_. False), write_failed = False\<rparr>"

text \<open>One round of the loop of writer \<open>t\<close>.\<close>

definition write_one :: "env \<Rightarrow> coins \<Rightarrow> u64 \<Rightarrow> u32 \<Rightarrow> writers \<Rightarrow> writers res" where
  "write_one e coin now t w =
     (let i = wnext w t
      in bind_res (DB_Put e coin now (bench_key i) (bench_value i) (wdb w)) (\<lambda>(st, db).
           if status_neq st Success
           then Inr (w\<lparr>wdb := db, write_failed := True, wstopped := (wstopped w)(t := True)\<rparr>)
           else Inr (w\<lparr>wdb := db, wnext := (wnext w)(t := i + 1)\<rparr>)))"

definition write_ready :: "u32 \<Rightarrow> writers \<Rightarrow> bool" where
  "write_ready t w \<longleftrightarrow> t < num_threads \<and> \<not> wstopped w t \<and> wnext w t < worker_end t"

inductive write_step :: "env \<Rightarrow> writers \<Rightarrow> writers \<Rightarrow> bool" for e where
  "write_ready t w \<Longrightarrow> write_one e coin now t w = Inr w' \<Longrightarrow> write_step e w w'"

definition writers_joined :: "writers \<Rightarrow> bool" where
  "writers_joined w \<longleftrightarrow> (\<forall>t. \<not> write_ready t w)"

subsection \<open>The readers\<close>

record readers =
  rsys :: sys
  rnext :: "u32 \<Rightarrow> int"
  success_count :: int
  not_found_count :: int
  other_error_count :: int

definition readers_start :: "DB \<Rightarrow> readers" where
  "readers_start db =
     \<lparr>rsys = quiet_sys (impl db), rnext = worker_start, success_count = 0, not_found_count = 0,
      other_error_count = 0\<rparr>"

text \<open>What reader \<open>t\<close> does with the outcome of a section.\<close>

definition read_event :: "u32 \<Rightarrow> event \<Rightarrow> readers \<Rightarrow> readers" where
  "read_event t ev r =
     (case ev of
        Got _ _ st _ \<Rightarrow>
          (let r1 = (if status_eq st Success then r\<lparr>success_count := success_count r + 1\<rparr>
                     else if status_eq st NotFound then r\<lparr>not_found_count := not_found_count r + 1\<rparr>
                     else r\<lparr>other_error_count := other_error_count r + 1\<rparr>)
           in r1\<lparr>rnext := (rnext r1)(t := rnext r1 t + 1)\<rparr>)
      | _ \<Rightarrow> r)"

inductive read_step :: "env \<Rightarrow> readers \<Rightarrow> readers \<Rightarrow> bool" for e where
  ask: "t < num_threads \<Longrightarrow> pcs (rsys r) (unat t) = Idle \<Longrightarrow> rnext r t < worker_end t \<Longrightarrow>
    read_step e r (r\<lparr>rsys := set_pc (unat t) (Checking (bench_key (rnext r t)) []) (rsys r)\<rparr>)"
| go: "t < num_threads \<Longrightarrow> pcs (rsys r) (unat t) \<noteq> Idle \<Longrightarrow>
    get_section e now (unat t) (rsys r) = Inr (ev, s') \<Longrightarrow>
    read_step e r (read_event t ev (r\<lparr>rsys := s'\<rparr>))"

definition readers_joined :: "readers \<Rightarrow> bool" where
  "readers_joined r \<longleftrightarrow>
     (\<forall>t < num_threads. pcs (rsys r) (unat t) = Idle \<and> worker_end t \<le> rnext r t)"

text \<open>What \<open>main\<close> returns and the three counts it prints.\<close>

inductive main_returns :: "env \<Rightarrow> DB \<Rightarrow> int \<Rightarrow> (int \<times> int \<times> int) option \<Rightarrow> bool" for e db where
  failed: "(write_step e)\<^sup>*\<^sup>* (writers_start db) w \<Longrightarrow> writers_joined w \<Longrightarrow> write_failed w \<Longrightarrow>
    main_returns e db 1 None"
| finished: "(write_step e)\<^sup>*\<^sup>* (writers_start db) w \<Longrightarrow> writers_joined w \<Longrightarrow> \<not> write_failed w \<Longrightarrow>
    (read_step e)\<^sup>*\<^sup>* (readers_start (wdb w)) r \<Longrightarrow> readers_joined r \<Longrightarrow>
    main_returns e db 0 (Some (success_count r, not_found_count r, other_error_count r))"

subsection \<open>The ranges\<close>

lemma worker_cases:
  assumes "t < num_threads"
  shows "t \<in> {0, 1, 2, 3, 4, 5, 6, 7, 8, 9}"
proof -
  have "unat t < 10" using assms by (simp add: num_threads_def word_less_nat_alt)
  then have "unat t \<in> {0, 1, 2, 3, 4, 5, 6, 7, 8, 9}" by auto
  then show ?thesis by (auto simp: word_unat_eq_iff)
qed

lemma threads_set: "{t. t < num_threads} = {0, 1, 2, 3, 4, 5, 6, 7, 8, 9}"
  using worker_cases by (auto simp: num_threads_def)

lemma worker_range:
  assumes "t < num_threads"
  shows "worker_start t = 5000 * uint t" and "worker_end t = 5000 * uint t + 5000"
  using worker_cases [OF assms]
  by (auto simp: worker_start_def worker_end_def bench_N_def num_threads_def)

lemma uint_thread: "t < num_threads \<Longrightarrow> 0 \<le> uint t \<and> uint t < 10"
  by (simp add: num_threads_def word_less_def)

lemma worker_unique:
  assumes "t < num_threads" and "u < num_threads" and "worker_start t \<le> i" and "i < worker_end t"
    and "worker_start u \<le> i" and "i < worker_end u"
  shows "t = u"
proof -
  have "uint t = uint u" using assms by (simp add: worker_range)
  then show ?thesis by (simp add: word_uint_eq_iff)
qed

lemma worker_of:
  assumes "0 \<le> i" and "i < 50000"
  obtains t where "t < num_threads" and "worker_start t \<le> i" and "i < worker_end t"
proof -
  let ?t = "word_of_int (i div 5000) :: u32"
  have u: "uint ?t = i div 5000" using assms by (simp add: uint_word_of_int take_bit_int_eq_self)
  then have t: "?t < num_threads" using assms by (simp add: num_threads_def word_less_def)
  have "worker_start ?t \<le> i" "i < worker_end ?t"
    using assms by (simp_all add: worker_range [OF t] u)
  with t that show thesis by blast
qed

subsection \<open>Keys and values\<close>

lemma bench_key_nonneg: "0 \<le> i \<Longrightarrow> bench_key i = str ''key'' @ to_string (nat i)"
  by (simp add: bench_key_def to_string_int_def)

lemma bench_value_nonneg: "0 \<le> i \<Longrightarrow> bench_value i = str ''value'' @ to_string (nat i)"
  by (simp add: bench_value_def to_string_int_def)

lemma bench_key_inj: "0 \<le> i \<Longrightarrow> 0 \<le> j \<Longrightarrow> bench_key i = bench_key j \<longleftrightarrow> i = j"
  by (simp add: bench_key_nonneg eq_nat_nat_iff)

lemma length_to_string: "n < 10 ^ Suc d \<Longrightarrow> length (to_string n) \<le> Suc d"
proof (induction d arbitrary: n)
  case 0
  then show ?case by (subst to_string.simps) simp
next
  case (Suc d)
  have "length (to_string (n div 10)) \<le> Suc d"
    using Suc.prems by (intro Suc.IH) (simp add: less_mult_imp_div_less)
  then show ?case by (subst to_string.simps) simp
qed

lemma length_number: "0 \<le> i \<Longrightarrow> i < 50000 \<Longrightarrow> length (to_string (nat i)) \<le> 5"
  using length_to_string [of "nat i" 4] by simp

lemma bench_plain:
  assumes "0 \<le> i" and "i < 50000"
  shows "plain_key (bench_key i)" and "plain_value (bench_value i)"
  using length_number [OF assms] assms(1)
  by (simp_all add: plain_key_def plain_value_def bench_key_nonneg bench_value_nonneg no_nul_def str_def)

text \<open>The map with the pairs of a set of numbers.\<close>

definition holds_pairs :: "(bytes \<Rightarrow> bytes option) \<Rightarrow> int set \<Rightarrow> bool" where
  "holds_pairs M I \<longleftrightarrow> dom M = bench_key ` I \<and> (\<forall>i \<in> I. M (bench_key i) = Some (bench_value i))"

lemma pairs_fit:
  assumes "holds_pairs M I" and "I \<subseteq> {0..<50000}"
  shows "fits MakeOptionsForDebugging M"
proof -
  have fin: "finite I" using assms(2) by (rule finite_subset) simp
  have inj: "inj_on bench_key I" using assms(2) bench_key_inj by (intro inj_onI) (meson atLeastLessThan_iff subsetD)
  have "table_bytes M = (\<Sum>i \<in> I. length (bench_key i) + length (bench_value i))"
    using assms(1) by (simp add: table_bytes_def holds_pairs_def sum.reindex [OF inj])
  also have "\<dots> \<le> (\<Sum>i \<in> I. 18)"
  proof (rule sum_mono)
    fix i assume "i \<in> I"
    then have "0 \<le> i" "i < 50000" using assms(2) by auto
    with length_number [OF this] show "length (bench_key i) + length (bench_value i) \<le> 18"
      by (simp add: bench_key_nonneg bench_value_nonneg)
  qed
  also have "\<dots> \<le> 18 * 50000" using card_mono [OF _ assms(2)] by simp
  finally have "table_bytes M \<le> 900000" by simp
  then show ?thesis
    by (simp add: fits_def sample_limits word_less_nat_alt unat_of_nat)
qed

lemma pairs_insert:
  "holds_pairs M I \<Longrightarrow> holds_pairs (M(bench_key i \<mapsto> bench_value i)) (insert i I)"
  if "\<forall>j \<in> I. 0 \<le> j" and "0 \<le> i"
  using that bench_key_inj by (auto simp: holds_pairs_def)

lemma pairs_new:
  assumes "holds_pairs M I" and "\<forall>j \<in> I. 0 \<le> j" and "0 \<le> i" and "i \<notin> I"
  shows "\<not> live M (bench_key i)"
proof -
  have "bench_key i \<notin> bench_key ` I" using assms(2-4) by (auto simp: bench_key_inj)
  then have "bench_key i \<notin> dom M" using assms(1) by (simp add: holds_pairs_def)
  then show ?thesis by (simp add: live_def domIff)
qed

subsection \<open>Writing\<close>

definition written :: "writers \<Rightarrow> int set" where
  "written w = {i. \<exists>t < num_threads. worker_start t \<le> i \<and> i < wnext w t}"

definition writers_ok :: "env \<Rightarrow> writers \<Rightarrow> bool" where
  "writers_ok e w \<longleftrightarrow> \<not> write_failed w \<and> (\<forall>t. \<not> wstopped w t) \<and>
     (\<forall>t < num_threads. worker_start t \<le> wnext w t \<and> wnext w t \<le> worker_end t) \<and>
     options (impl (wdb w)) = MakeOptionsForDebugging \<and>
     (\<exists>M ls. db_holds e (impl (wdb w)) M ls \<and> holds_pairs M (written w))"

lemma range_bounds: "t < num_threads \<Longrightarrow> 0 \<le> worker_start t \<and> worker_end t \<le> 50000"
  using uint_thread [of t] by (simp add: worker_range)

lemma written_range: "writers_ok e w \<Longrightarrow> written w \<subseteq> {0..<50000}"
  unfolding writers_ok_def written_def using range_bounds by fastforce

lemma written_next:
  assumes "writers_ok e w" and "t < num_threads" and "wnext w t < worker_end t"
  shows "wnext w t \<notin> written w"
    and "written (w\<lparr>wdb := db, wnext := (wnext w)(t := wnext w t + 1)\<rparr>) = insert (wnext w t) (written w)"
proof -
  have b: "worker_start u \<le> wnext w u" "wnext w u \<le> worker_end u" if "u < num_threads" for u
    using assms(1) that by (simp_all add: writers_ok_def)
  have "u = t" if "u < num_threads" "worker_start u \<le> wnext w t" "wnext w t < wnext w u" for u
    using worker_unique [OF that(1) assms(2) that(2) _ b(1) [OF assms(2)] assms(3)] b(2) [OF that(1)] that(3) by linarith
  then show "wnext w t \<notin> written w" by (auto simp: written_def)
  show "written (w\<lparr>wdb := db, wnext := (wnext w)(t := wnext w t + 1)\<rparr>) = insert (wnext w t) (written w)"
    using b(1) [OF assms(2)] assms(2) by (auto simp: written_def)
qed

lemma writers_start_ok:
  assumes "db_holds e (impl db) Map.empty ls" and "options (impl db) = MakeOptionsForDebugging"
  shows "writers_ok e (writers_start db)"
proof -
  have "written (writers_start db) = {}" by (auto simp: written_def writers_start_def)
  with assms show ?thesis by (auto simp: writers_ok_def writers_start_def worker_range holds_pairs_def)
qed

lemma write_one_ok:
  assumes ok: "writers_ok e w" and r: "write_ready t w"
  shows "\<exists>w'. write_one e coin now t w = Inr w' \<and> writers_ok e w' \<and> wnext w' = (wnext w)(t := wnext w t + 1)"
proof -
  let ?i = "wnext w t"
  have t: "t < num_threads" "?i < worker_end t" using r by (simp_all add: write_ready_def)
  have low: "worker_start t \<le> ?i" using ok t(1) by (simp add: writers_ok_def)
  have i: "0 \<le> ?i" "?i < 50000" using low t range_bounds [OF t(1)] by simp_all
  have opt: "options (impl (wdb w)) = MakeOptionsForDebugging" using ok by (simp add: writers_ok_def)
  from ok obtain M ls where M: "db_holds e (impl (wdb w)) M ls" "holds_pairs M (written w)"
    by (auto simp: writers_ok_def)
  have pos: "\<forall>j \<in> written w. 0 \<le> j" using written_range [OF ok] by auto
  let ?M = "M(bench_key ?i \<mapsto> bench_value ?i)"
  have M': "holds_pairs ?M (insert ?i (written w))" by (rule pairs_insert [OF pos i(1) M(2)])
  have "insert ?i (written w) \<subseteq> {0..<50000}" using written_range [OF ok] i by simp
  from pairs_fit [OF M' this] have fit: "fits (options (impl (wdb w))) ?M" by (simp add: opt)
  from put_holds [OF M(1) bench_plain [OF i] pairs_new [OF M(2) pos i(1) written_next(1) [OF ok t]] fit, of coin now]
  obtain d ls' where d: "DBImpl_Put e coin now (bench_key ?i) (bench_value ?i) (impl (wdb w)) = Inr (Success, d)"
    "db_holds e d ?M ls'" "options d = options (impl (wdb w))" by blast
  let ?w = "w\<lparr>wdb := (wdb w)\<lparr>impl := d\<rparr>, wnext := (wnext w)(t := ?i + 1)\<rparr>"
  have "write_one e coin now t w = Inr ?w" by (simp add: write_one_def DB_Put_def d(1) status_simps)
  moreover have "writers_ok e ?w"
    unfolding writers_ok_def written_next(2) [OF ok t]
    using ok d(2,3) M' low t by (auto simp: writers_ok_def)
  ultimately show ?thesis by (intro exI [of _ ?w]) simp
qed

text \<open>The rounds that the writers have left.\<close>

definition rounds_left :: "(u32 \<Rightarrow> int) \<Rightarrow> nat" where
  "rounds_left pos = (\<Sum>t | t < num_threads. nat (worker_end t - pos t))"

lemma sum_change:
  assumes "finite A" and "t \<in> A" and "\<And>u. u \<noteq> t \<Longrightarrow> g u = f u"
  shows "sum g A + (f t :: nat) = sum f A + g t"
proof -
  have "sum g (A - {t}) = sum f (A - {t})" using assms(3) by (intro sum.cong) auto
  then show ?thesis using assms(1,2) by (simp add: sum.remove)
qed

lemma rounds_left_next:
  assumes "t < num_threads" and "pos t < worker_end t"
  shows "Suc (rounds_left (pos(t := pos t + 1))) = rounds_left pos"
proof -
  have "rounds_left (pos(t := pos t + 1)) + nat (worker_end t - pos t) =
      rounds_left pos + nat (worker_end t - (pos t + 1))"
    unfolding rounds_left_def
    using sum_change [of "{t. t < num_threads}" t "\<lambda>u. nat (worker_end u - (pos(t := pos t + 1)) u)"
        "\<lambda>u. nat (worker_end u - pos u)"] assms(1) by simp
  with assms(2) show ?thesis by linarith
qed

lemma rounds_left_start: "rounds_left worker_start = 50000"
proof -
  have "rounds_left worker_start = (\<Sum>t | t < num_threads. 5000)"
    unfolding rounds_left_def by (rule sum.cong) (simp_all add: worker_range)
  then show ?thesis by (simp add: threads_set)
qed

lemma write_steps_ok:
  assumes "(write_step e ^^ n) w w'" and "writers_ok e w"
  shows "writers_ok e w' \<and> rounds_left (wnext w') + n = rounds_left (wnext w)"
  using assms(1)
proof (induction n arbitrary: w')
  case 0
  with assms(2) show ?case by simp
next
  case (Suc n)
  from Suc.prems obtain v where v: "(write_step e ^^ n) w v" "write_step e v w'" by auto
  from Suc.IH [OF v(1)] have ok: "writers_ok e v" "rounds_left (wnext v) + n = rounds_left (wnext w)" by simp_all
  from v(2) obtain t coin now where t: "write_ready t v" "write_one e coin now t v = Inr w'"
    by (auto elim: write_step.cases)
  from write_one_ok [OF ok(1) t(1), of coin now] t(2) have "writers_ok e w'" "wnext w' = (wnext v)(t := wnext v t + 1)"
    by auto
  moreover have "Suc (rounds_left ((wnext v)(t := wnext v t + 1))) = rounds_left (wnext v)"
    using t(1) by (intro rounds_left_next) (simp_all add: write_ready_def)
  ultimately show ?case using ok(2) by (simp del: fun_upd_apply)
qed

lemma writers_joined_written:
  assumes "writers_ok e w" and "writers_joined w"
  shows "written w = {0..<50000}"
proof -
  have full: "worker_end t \<le> wnext w t" if "t < num_threads" for t
    using assms that by (metis linorder_not_le write_ready_def writers_joined_def writers_ok_def)
  have "i \<in> written w" if i: "0 \<le> i" "i < 50000" for i
  proof -
    obtain t where t: "t < num_threads" "worker_start t \<le> i" "i < worker_end t" by (rule worker_of [OF i])
    with full [OF t(1)] show ?thesis by (auto simp: written_def)
  qed
  with written_range [OF assms(1)] show ?thesis by auto
qed

subsection \<open>Reading\<close>

definition reader_ok :: "pc \<Rightarrow> int \<Rightarrow> int \<Rightarrow> bool" where
  "reader_ok p i stop \<longleftrightarrow> p = Idle \<or> (pc_key p = bench_key i \<and> i < stop)"

definition readers_ok :: "env \<Rightarrow> (bytes \<Rightarrow> bytes option) \<Rightarrow> readers \<Rightarrow> bool" where
  "readers_ok e M r \<longleftrightarrow> threads_ok e (rsys r) M \<and>
     (\<forall>t < num_threads. worker_start t \<le> rnext r t \<and> rnext r t \<le> worker_end t \<and>
        reader_ok (pcs (rsys r) (unat t)) (rnext r t) (worker_end t)) \<and>
     success_count r + int (rounds_left (rnext r)) = 50000 \<and> not_found_count r = 0 \<and> other_error_count r = 0"

text \<open>The sections that reader \<open>t\<close> has left: four for each key.\<close>

definition reader_work :: "readers \<Rightarrow> u32 \<Rightarrow> nat" where
  "reader_work r t = 4 * nat (worker_end t - rnext r t) -
     (if pcs (rsys r) (unat t) = Idle then 0 else 4 - pc_rank (pcs (rsys r) (unat t)))"

definition readers_work :: "readers \<Rightarrow> nat" where
  "readers_work r = (\<Sum>t | t < num_threads. reader_work r t)"

lemma readers_start_ok:
  assumes "db_holds e (impl db) M ls"
  shows "readers_ok e M (readers_start db)" and "readers_work (readers_start db) = 200000"
proof -
  have "pcs (quiet_sys s) t = Idle" for s t by (simp add: quiet_sys_def)
  moreover have "threads_ok e (quiet_sys (impl db)) M" by (rule quiet_sys_ok [OF assms])
  ultimately show "readers_ok e M (readers_start db)"
    by (simp add: readers_ok_def readers_start_def reader_ok_def rounds_left_start worker_range)
  have "readers_work (readers_start db) = (\<Sum>t | t < num_threads. 20000)"
    unfolding readers_work_def
    by (rule sum.cong) (simp_all add: reader_work_def readers_start_def quiet_sys_def worker_range)
  then show "readers_work (readers_start db) = 200000" by (simp add: threads_set)
qed

lemma thread_neq: "u \<noteq> t \<Longrightarrow> unat (u :: u32) \<noteq> unat t"
  by (simp add: word_unat_eq_iff)

lemma work_decreases:
  assumes "t < num_threads" and "\<And>u. u \<noteq> t \<Longrightarrow> rnext r' u = rnext r u"
    and "\<And>u. u \<noteq> t \<Longrightarrow> pcs (rsys r') (unat u) = pcs (rsys r) (unat u)"
    and "reader_work r' t < reader_work r t"
  shows "readers_work r' < readers_work r"
proof -
  have "readers_work r' + reader_work r t = readers_work r + reader_work r' t"
    unfolding readers_work_def
    using sum_change [of "{t. t < num_threads}" t "reader_work r'" "reader_work r"] assms(1-3)
    by (simp add: reader_work_def)
  with assms(4) show ?thesis by linarith
qed

lemma read_step_ok:
  assumes ok: "readers_ok e M r" and M: "holds_pairs M {0..<50000}" and "read_step e r r'"
  shows "readers_ok e M r' \<and> readers_work r' < readers_work r"
  using assms(3)
proof (cases rule: read_step.cases)
  case (ask t)
  let ?i = "rnext r t" and ?p = "Checking (bench_key (rnext r t)) []"
  have b: "worker_start t \<le> ?i" using ok ask(2) by (simp add: readers_ok_def)
  have i: "0 \<le> ?i" "?i < 50000" using b ask(2,4) range_bounds [OF ask(2)] by simp_all
  have "M (bench_key ?i) \<noteq> None" using M i by (simp add: holds_pairs_def)
  then have allow: "allowed (options (shared (rsys r))) M (Began (unat t) (bench_key ?i) [])"
    using bench_plain [OF i] by simp
  have "bench_key ?i \<noteq> []" using bench_plain(1) [OF i] by (simp add: plain_key_def)
  from step_ok [OF _ db_step.enter [OF ask(3) this] allow] ok
  have th: "threads_ok e (set_pc (unat t) ?p (rsys r)) M" by (simp add: readers_ok_def)
  have "readers_ok e M r'"
    unfolding readers_ok_def
  proof (intro conjI allI impI)
    fix u assume u: "u < num_threads"
    show "worker_start u \<le> rnext r' u" and "rnext r' u \<le> worker_end u"
      using ok u by (simp_all add: readers_ok_def ask(1))
    show "reader_ok (pcs (rsys r') (unat u)) (rnext r' u) (worker_end u)"
      using ok u ask(4) thread_neq [of u t] by (cases "u = t") (simp_all add: readers_ok_def reader_ok_def ask(1))
  qed (use ok th in \<open>simp_all add: readers_ok_def ask(1)\<close>)
  moreover have "readers_work r' < readers_work r"
    by (rule work_decreases [OF ask(2)])
      (use ask(3,4) thread_neq in \<open>simp_all add: ask(1) reader_work_def pc_rank_def\<close>)
  ultimately show ?thesis by simp
next
  case (go t now ev s')
  let ?i = "rnext r t" and ?p = "pcs (rsys r) (unat t)"
  have th: "threads_ok e (rsys r) M" using ok by (simp add: readers_ok_def)
  have key: "pc_key ?p = bench_key ?i" "?i < worker_end t" "worker_start t \<le> ?i"
    using ok go(2,3) by (auto simp: readers_ok_def reader_ok_def)
  obtain ev' s2 where sec: "get_section e now (unat t) (rsys r) = Inr (ev', s2)" "threads_ok e s2 M"
    "\<And>u. u \<noteq> unat t \<Longrightarrow> pcs s2 u = pcs (rsys r) u"
    "(ev' = Inner (unat t) \<and> pcs s2 (unat t) \<noteq> Idle \<and> pc_key (pcs s2 (unat t)) = bench_key ?i) \<or>
     (pcs s2 (unat t) = Idle \<and> ev' = Got (unat t) (bench_key ?i) Success (the (M (bench_key ?i))))"
    by (rule section_ok [OF th go(3), where now = now]) (unfold key(1), blast)
  have same: "ev' = ev" "s2 = s'" using sec(1) go(4) by simp_all
  note sec = sec [unfolded same]
  have rank: "Suc (pc_rank (pcs s' (unat t))) \<le> pc_rank ?p" by (rule section_rank(1) [OF go(4,3)])
  have other: "pcs s' (unat u) = pcs (rsys r) (unat u)" if "u \<noteq> t" for u using sec(3) thread_neq [OF that] by simp
  from sec(4) show ?thesis
  proof (elim disjE conjE)
    assume ev: "ev = Inner (unat t)" and p: "pcs s' (unat t) \<noteq> Idle" "pc_key (pcs s' (unat t)) = bench_key ?i"
    have r': "r' = r\<lparr>rsys := s'\<rparr>" by (simp add: go(1) ev read_event_def)
    have "reader_ok (pcs s' (unat u)) (rnext r u) (worker_end u)" if "u < num_threads" for u
      using ok that p key(2) other [of u] by (cases "u = t") (simp_all add: readers_ok_def reader_ok_def)
    then have "readers_ok e M r'" using ok sec(2) by (simp add: readers_ok_def r')
    moreover have "readers_work r' < readers_work r"
      by (rule work_decreases [OF go(2)])
        (use other rank p key(2) go(3) pc_rank_bounds(1) [of ?p] in \<open>auto simp: r' reader_work_def\<close>)
    ultimately show ?thesis by simp
  next
    assume p: "pcs s' (unat t) = Idle" and ev: "ev = Got (unat t) (bench_key ?i) Success (the (M (bench_key ?i)))"
    have r': "r' = r\<lparr>rsys := s', success_count := success_count r + 1, rnext := (rnext r)(t := ?i + 1)\<rparr>"
      by (simp add: go(1) ev read_event_def status_simps)
    have "Suc (rounds_left ((rnext r)(t := ?i + 1))) = rounds_left (rnext r)"
      by (rule rounds_left_next [where pos = "rnext r", OF go(2) key(2)])
    moreover have "reader_ok (pcs s' (unat u)) (((rnext r)(t := ?i + 1)) u) (worker_end u)" if "u < num_threads" for u
      using ok that p other [of u] by (cases "u = t") (simp_all add: readers_ok_def reader_ok_def)
    ultimately have "readers_ok e M r'" using ok sec(2) key(2,3) by (auto simp: readers_ok_def r')
    moreover have "readers_work r' < readers_work r"
      by (rule work_decreases [OF go(2)])
        (use other rank p key(2) go(3) pc_rank_bounds(1) [of ?p] in \<open>auto simp: r' reader_work_def\<close>)
    ultimately show ?thesis by simp
  qed
qed

lemma read_steps_ok:
  assumes "(read_step e ^^ n) r r'" and "readers_ok e M r" and "holds_pairs M {0..<50000}"
  shows "readers_ok e M r' \<and> readers_work r' + n \<le> readers_work r"
  using assms(1)
proof (induction n arbitrary: r')
  case 0
  with assms(2) show ?case by simp
next
  case (Suc n)
  from Suc.prems obtain v where v: "(read_step e ^^ n) r v" "read_step e v r'" by auto
  from Suc.IH [OF v(1)] read_step_ok [OF _ assms(3) v(2)] show ?case by auto
qed

text \<open>As long as not all readers have returned, one of them can go on.\<close>

lemma read_progress:
  assumes ok: "readers_ok e M r" and "\<not> readers_joined r"
  shows "\<exists>r'. read_step e r r'"
proof -
  from assms(2) obtain t where t: "t < num_threads"
    "pcs (rsys r) (unat t) \<noteq> Idle \<or> rnext r t < worker_end t" by (auto simp: readers_joined_def not_le)
  show ?thesis
  proof (cases "pcs (rsys r) (unat t) = Idle")
    case True
    with t show ?thesis by (auto intro: read_step.ask)
  next
    case False
    have "threads_ok e (rsys r) M" using ok by (simp add: readers_ok_def)
    from section_ok [OF this False] obtain ev s' where "get_section e 0 (unat t) (rsys r) = Inr (ev, s')" by metis
    with t(1) False show ?thesis by (auto intro: read_step.go)
  qed
qed

lemma readers_joined_counts:
  assumes "readers_ok e M r" and "readers_joined r"
  shows "success_count r = 50000" and "not_found_count r = 0" and "other_error_count r = 0"
proof -
  have "rounds_left (rnext r) = 0"
    using assms(2) by (auto simp: rounds_left_def readers_joined_def)
  with assms(1) show "success_count r = 50000" and "not_found_count r = 0" and "other_error_count r = 0"
    by (simp_all add: readers_ok_def)
qed

subsection \<open>Whole runs\<close>

lemma write_reach_ok: "(write_step e)\<^sup>*\<^sup>* w w' \<Longrightarrow> writers_ok e w \<Longrightarrow> writers_ok e w'"
  using write_steps_ok by (metis rtranclp_imp_relpowp)

lemma read_reach_ok:
  "(read_step e)\<^sup>*\<^sup>* r r' \<Longrightarrow> readers_ok e M r \<Longrightarrow> holds_pairs M {0..<50000} \<Longrightarrow> readers_ok e M r'"
  using read_steps_ok by (metis rtranclp_imp_relpowp)

lemma write_progress: "writers_ok e w \<Longrightarrow> \<not> writers_joined w \<Longrightarrow> \<exists>w'. write_step e w w'"
  using write_one_ok by (metis write_step.intros writers_joined_def)

lemma write_finishes: "writers_ok e w \<Longrightarrow> \<exists>w'. (write_step e)\<^sup>*\<^sup>* w w' \<and> writers_joined w'"
proof (induction "rounds_left (wnext w)" arbitrary: w rule: less_induct)
  case less
  show ?case
  proof (cases "writers_joined w")
    case False
    from write_progress [OF less.prems False] obtain v where v: "write_step e w v" by blast
    then have "(write_step e ^^ 1) w v" unfolding relpowp_1 .
    from write_steps_ok [OF this less.prems] have "writers_ok e v" "rounds_left (wnext v) < rounds_left (wnext w)" by simp_all
    from less.hyps [OF this(2,1)] v show ?thesis by (meson converse_rtranclp_into_rtranclp)
  qed blast
qed

lemma read_finishes:
  assumes "holds_pairs M {0..<50000}"
  shows "readers_ok e M r \<Longrightarrow> \<exists>r'. (read_step e)\<^sup>*\<^sup>* r r' \<and> readers_joined r'"
proof (induction "readers_work r" arbitrary: r rule: less_induct)
  case less
  show ?case
  proof (cases "readers_joined r")
    case False
    from read_progress [OF less.prems False] obtain v where v: "read_step e r v" by blast
    from read_step_ok [OF less.prems assms v] less.hyps [of v] v show ?thesis
      by (meson converse_rtranclp_into_rtranclp)
  qed blast
qed

lemma joined_readers:
  assumes "writers_ok e w" and "writers_joined w"
  obtains M where "readers_ok e M (readers_start (wdb w))" and "readers_work (readers_start (wdb w)) = 200000"
    and "holds_pairs M {0..<50000}"
proof -
  from assms(1) obtain M ls where M: "db_holds e (impl (wdb w)) M ls" "holds_pairs M (written w)"
    by (auto simp: writers_ok_def)
  with readers_start_ok [OF M(1)] writers_joined_written [OF assms] that show thesis by simp
qed

lemma sample_bench:
  obtains db where "DB_open MakeOptionsForDebugging sample_fs = Inr db"
    and "db_holds sample_env (impl db) Map.empty sample_shards" and "options (impl db) = MakeOptionsForDebugging"
proof -
  obtain s where s: "DBImpl MakeOptionsForDebugging sample_fs = Inr s"
    "db_ok sample_env s Map.empty sample_shards" "options s = MakeOptionsForDebugging"
    by (rule sample_open)
  have "db_holds sample_env s Map.empty sample_shards"
    by (rule empty_holds [OF s(2) sample_uncached]) (simp add: s(3) sample_limits)
  with s that [of "\<lparr>impl = s\<rparr>"] show thesis by (simp add: DB_open_def)
qed

subsection \<open>Properties\<close>

text \<open>
  Both phases of the benchmark end under every schedule: after at most 50000 rounds the
  writers have returned, after at most 200000 sections the readers have, and before that some
  thread can always go on and no reader is in a section that aborts or is undefined.
\<close>

theorem bench_terminates:
  assumes "db_holds e (impl db) Map.empty ls" and "options (impl db) = MakeOptionsForDebugging"
    and "(write_step e ^^ n) (writers_start db) w"
  shows "n \<le> 50000 \<and> (writers_joined w \<or> (\<exists>w'. write_step e w w')) \<and>
    (\<forall>m r t f. writers_joined w \<and> (read_step e ^^ m) (readers_start (wdb w)) r \<longrightarrow>
       m \<le> 200000 \<and> (readers_joined r \<or> (\<exists>r'. read_step e r r')) \<and> \<not> db_crash e (rsys r) t f)"
proof (intro conjI allI impI)
  have ok: "writers_ok e w" "rounds_left (wnext w) + n = 50000"
    using write_steps_ok [OF assms(3) writers_start_ok [OF assms(1,2)]]
    by (simp_all add: writers_start_def rounds_left_start)
  then show "n \<le> 50000" by simp
  show "writers_joined w \<or> (\<exists>w'. write_step e w w')" using write_progress [OF ok(1)] by blast
  fix m r t f assume "writers_joined w \<and> (read_step e ^^ m) (readers_start (wdb w)) r"
  then have j: "writers_joined w" "(read_step e ^^ m) (readers_start (wdb w)) r" by simp_all
  obtain M where M: "readers_ok e M (readers_start (wdb w))" "readers_work (readers_start (wdb w)) = 200000"
    "holds_pairs M {0..<50000}" by (rule joined_readers [OF ok(1) j(1)])
  from read_steps_ok [OF j(2) M(1,3)] have r: "readers_ok e M r" "readers_work r + m \<le> 200000" by (simp_all add: M(2))
  then show "m \<le> 200000" by simp
  show "readers_joined r \<or> (\<exists>r'. read_step e r r')" using read_progress [OF r(1)] by blast
  have "threads_ok e (rsys r) M" using r(1) by (simp add: readers_ok_def)
  from section_ok [OF this] show "\<not> db_crash e (rsys r) t f" unfolding db_crash_def by (metis sum.distinct(1))
qed

theorem bench_terminates_witness:
  "\<exists>db. DB_open MakeOptionsForDebugging sample_fs = Inr db \<and>
     (writers_joined (writers_start db) \<or> (\<exists>w'. write_step sample_env (writers_start db) w'))"
proof -
  obtain db where db: "DB_open MakeOptionsForDebugging sample_fs = Inr db"
    "db_holds sample_env (impl db) Map.empty sample_shards" "options (impl db) = MakeOptionsForDebugging"
    by (rule sample_bench)
  have "(write_step sample_env ^^ 0) (writers_start db) (writers_start db)" by simp
  from bench_terminates [OF db(2,3) this] db(1) show ?thesis by blast
qed

text \<open>
  The ranges of the ten threads, computed in 32-bit unsigned arithmetic with the last one
  closed at N, divide the numbers from 0 to 49999: each belongs to exactly one thread, and no
  other number to any.
\<close>

theorem bench_partition:
  "(\<exists>!t. t < num_threads \<and> worker_start t \<le> i \<and> i < worker_end t) \<longleftrightarrow> 0 \<le> i \<and> i < sint bench_N"
proof
  assume "\<exists>!t. t < num_threads \<and> worker_start t \<le> i \<and> i < worker_end t"
  then obtain t where "t < num_threads" "worker_start t \<le> i" "i < worker_end t" by blast
  with range_bounds [of t] show "0 \<le> i \<and> i < sint bench_N" by (simp add: bench_N_def)
next
  assume "0 \<le> i \<and> i < sint bench_N"
  then have i: "0 \<le> i" "i < 50000" by (simp_all add: bench_N_def)
  obtain t where t: "t < num_threads" "worker_start t \<le> i" "i < worker_end t" by (rule worker_of [OF i])
  with worker_unique [OF _ t(1) _ _ t(2,3)] show "\<exists>!t. t < num_threads \<and> worker_start t \<le> i \<and> i < worker_end t"
    by blast
qed

text \<open>
  C18: Whatever the interleaving, the benchmark on a new database ends with exit code 0: no
  Put of the ten writers fails, and the ten readers together count 50000 successes, no missing
  key and no other error.
\<close>

theorem bench_all_found:
  assumes "db_holds e (impl db) Map.empty ls" and "options (impl db) = MakeOptionsForDebugging"
    and "main_returns e db c out"
  shows "c = 0 \<and> out = Some (50000, 0, 0)"
  using assms(3)
proof (cases rule: main_returns.cases)
  case (failed w)
  with write_reach_ok [OF failed(3) writers_start_ok [OF assms(1,2)]] show ?thesis by (simp add: writers_ok_def)
next
  case (finished w r)
  have ok: "writers_ok e w" by (rule write_reach_ok [OF finished(3) writers_start_ok [OF assms(1,2)]])
  obtain M where M: "readers_ok e M (readers_start (wdb w))" "holds_pairs M {0..<50000}"
    by (rule joined_readers [OF ok finished(4)])
  from readers_joined_counts [OF read_reach_ok [OF finished(6) M] finished(7)] finished(1,2) show ?thesis by simp
qed

theorem bench_all_found_witness:
  "\<exists>db c. DB_open MakeOptionsForDebugging sample_fs = Inr db \<and> main_returns sample_env db c (Some (50000, 0, 0))"
proof -
  obtain db where db: "DB_open MakeOptionsForDebugging sample_fs = Inr db"
    "db_holds sample_env (impl db) Map.empty sample_shards" "options (impl db) = MakeOptionsForDebugging"
    by (rule sample_bench)
  obtain w where w: "(write_step sample_env)\<^sup>*\<^sup>* (writers_start db) w" "writers_joined w"
    using write_finishes [OF writers_start_ok [OF db(2,3)]] by blast
  have ok: "writers_ok sample_env w" by (rule write_reach_ok [OF w(1) writers_start_ok [OF db(2,3)]])
  obtain M where M: "readers_ok sample_env M (readers_start (wdb w))" "holds_pairs M {0..<50000}"
    by (rule joined_readers [OF ok w(2)])
  obtain r where r: "(read_step sample_env)\<^sup>*\<^sup>* (readers_start (wdb w)) r" "readers_joined r"
    using read_finishes [OF M(2,1)] by blast
  have "\<not> write_failed w" using ok by (simp add: writers_ok_def)
  from main_returns.finished [OF w this r] bench_all_found [OF db(2,3)] db(1) show ?thesis by metis
qed

end
