(* ===== verification/Avl_Tree.thy ===== *)
theory Avl_Tree
  imports Main "HOL-Library.Multiset"
begin

section \<open>The AVL tree\<close>

text \<open>
  \<open>AVLNode\<close>, \<open>AVLTree\<close> and \<open>AVLIterator\<close> of \<open>src/memtable/avl_tree.h\<close>. No function of the
  header changes a node, so a node pointer is the subtree below it and \<open>Null\<close> the null
  pointer. \<open>insertNode\<close> and \<open>deleteNode\<close> are declared and have no definition in the
  repository; they are arguments of the operations that call them, and act on the whole
  object because they are to update its size and memory usage.
\<close>

datatype ('k, 'v) avl =
  Null
| AVLNode (akey: 'k) (aval: 'v) (aleft: "('k, 'v) avl") (aright: "('k, 'v) avl") (aheight: int)

record ('k, 'v) avl_tree =
  root :: "('k, 'v) avl"
  avl_size :: int
  avl_mem :: int

text \<open>\<open>sizeof(AVLTree)\<close>: a pointer, an \<open>int\<close> with padding, an \<open>int64_t\<close>.\<close>

definition AVLTree :: "('k, 'v) avl_tree" where
  "AVLTree = \<lparr>root = Null, avl_size = 0, avl_mem = 24\<rparr>"

text \<open>The nodes in the order in which \<open>destroyTree\<close> deletes them.\<close>

fun destroyTree :: "('k, 'v) avl \<Rightarrow> 'k list" where
  "destroyTree Null = []"
| "destroyTree (AVLNode k v l r h) = destroyTree l @ destroyTree r @ [k]"

definition getHeight :: "('k, 'v) avl \<Rightarrow> int" where
  "getHeight n = (case n of Null \<Rightarrow> 0 | AVLNode k v l r h \<Rightarrow> h)"

definition getBalance :: "('k, 'v) avl \<Rightarrow> int" where
  "getBalance n = (case n of Null \<Rightarrow> 0 | AVLNode k v l r h \<Rightarrow> getHeight l - getHeight r)"

fun searchNode :: "('k :: linorder, 'v) avl \<Rightarrow> 'k \<Rightarrow> ('k, 'v) avl" where
  "searchNode Null key = Null"
| "searchNode (AVLNode k v l r h) key =
     (if key < k then searchNode l key
      else if k < key then searchNode r key
      else AVLNode k v l r h)"

definition Search :: "('k :: linorder, 'v) avl_tree \<Rightarrow> 'k \<Rightarrow> bool \<times> 'v option" where
  "Search t key =
     (case searchNode (root t) key of Null \<Rightarrow> (False, None) | AVLNode k v l r h \<Rightarrow> (True, Some v))"

definition avl_Insert ::
  "('k \<Rightarrow> 'v \<Rightarrow> ('k, 'v) avl_tree \<Rightarrow> ('k, 'v) avl_tree) \<Rightarrow> 'k \<Rightarrow> 'v \<Rightarrow> ('k, 'v) avl_tree \<Rightarrow> bool \<times> ('k, 'v) avl_tree" where
  "avl_Insert insertNode key value t =
     (let initial_size = avl_size t; t' = insertNode key value t in (initial_size < avl_size t', t'))"

definition avl_Delete ::
  "('k \<Rightarrow> ('k, 'v) avl_tree \<Rightarrow> ('k, 'v) avl_tree) \<Rightarrow> 'k \<Rightarrow> ('k, 'v) avl_tree \<Rightarrow> bool \<times> ('k, 'v) avl_tree" where
  "avl_Delete deleteNode key t =
     (let initial_size = avl_size t; t' = deleteNode key t in (avl_size t' < initial_size, t'))"

definition avl_GetSize :: "('k, 'v) avl_tree \<Rightarrow> int" where
  "avl_GetSize t = avl_size t"

definition avl_GetMemUsage :: "('k, 'v) avl_tree \<Rightarrow> int" where
  "avl_GetMemUsage t = avl_mem t"

text \<open>The numbers that \<open>DebugPrint\<close> writes; it prints no entry.\<close>

definition avl_DebugPrint :: "('k, 'v) avl_tree \<Rightarrow> int \<times> int" where
  "avl_DebugPrint t = (avl_size t, avl_mem t)"

subsection \<open>The iterator\<close>

record ('k, 'v) avl_iterator =
  it_tree :: "('k, 'v) avl_tree"
  current_node :: "('k, 'v) avl"
  path_stack :: "('k, 'v) avl list"

fun pushLeftPath :: "('k, 'v) avl \<Rightarrow> ('k, 'v) avl list \<Rightarrow> ('k, 'v) avl list" where
  "pushLeftPath Null st = st"
| "pushLeftPath (AVLNode k v l r h) st = pushLeftPath l (AVLNode k v l r h # st)"

definition top_or_null :: "('k, 'v) avl list \<Rightarrow> ('k, 'v) avl" where
  "top_or_null st = (case st of [] \<Rightarrow> Null | n # _ \<Rightarrow> n)"

definition findFirst :: "('k, 'v) avl_iterator \<Rightarrow> ('k, 'v) avl_iterator" where
  "findFirst i =
     (let st = pushLeftPath (root (it_tree i)) []
      in i\<lparr>path_stack := st, current_node := top_or_null st\<rparr>)"

definition SeekToFirst :: "('k, 'v) avl_iterator \<Rightarrow> ('k, 'v) avl_iterator" where
  "SeekToFirst i = findFirst i"

definition AVLIterator :: "('k, 'v) avl_tree \<Rightarrow> ('k, 'v) avl_iterator" where
  "AVLIterator t = SeekToFirst \<lparr>it_tree = t, current_node = Null, path_stack = []\<rparr>"

definition avl_NewIterator :: "('k, 'v) avl_tree \<Rightarrow> ('k, 'v) avl_iterator" where
  "avl_NewIterator t = AVLIterator t"

definition avl_Valid :: "('k, 'v) avl_iterator \<Rightarrow> bool" where
  "avl_Valid i \<longleftrightarrow> current_node i \<noteq> Null"

definition avl_entry :: "('k, 'v) avl_iterator \<Rightarrow> ('k \<times> 'v) option" where
  "avl_entry i = (case current_node i of Null \<Rightarrow> None | AVLNode k v l r h \<Rightarrow> Some (k, v))"

definition findNext :: "('k, 'v) avl_iterator \<Rightarrow> ('k, 'v) avl_iterator" where
  "findNext i =
     (case path_stack i of
        [] \<Rightarrow> i\<lparr>current_node := Null\<rparr>
      | n # st \<Rightarrow>
          (let st' = (case n of Null \<Rightarrow> st | AVLNode k v l r h \<Rightarrow> if r \<noteq> Null then pushLeftPath r st else st)
           in i\<lparr>path_stack := st', current_node := top_or_null st'\<rparr>))"

definition avl_Next :: "('k, 'v) avl_iterator \<Rightarrow> ('k, 'v) avl_iterator" where
  "avl_Next i = findNext i"

fun seek_path :: "'k :: linorder \<Rightarrow> ('k, 'v) avl \<Rightarrow> ('k, 'v) avl list \<Rightarrow> ('k, 'v) avl list" where
  "seek_path target Null st = st"
| "seek_path target (AVLNode k v l r h) st =
     (if target \<le> k then seek_path target l (AVLNode k v l r h # st) else seek_path target r st)"

definition avl_Seek :: "'k :: linorder \<Rightarrow> ('k, 'v) avl_iterator \<Rightarrow> ('k, 'v) avl_iterator" where
  "avl_Seek target i =
     (let st = seek_path target (root (it_tree i)) []
      in i\<lparr>path_stack := st, current_node := top_or_null st\<rparr>)"

text \<open>What a client reads by advancing \<open>n\<close> times at most, while the iterator is valid.\<close>

fun avl_read :: "nat \<Rightarrow> ('k, 'v) avl_iterator \<Rightarrow> ('k \<times> 'v) list" where
  "avl_read 0 i = []"
| "avl_read (Suc n) i = (case avl_entry i of None \<Rightarrow> [] | Some e \<Rightarrow> e # avl_read n (avl_Next i))"

subsection \<open>Order\<close>

fun inorder :: "('k, 'v) avl \<Rightarrow> ('k \<times> 'v) list" where
  "inorder Null = []"
| "inorder (AVLNode k v l r h) = inorder l @ (k, v) # inorder r"

definition ordered :: "('k :: linorder, 'v) avl \<Rightarrow> bool" where
  "ordered t \<longleftrightarrow> sorted_wrt (<) (map fst (inorder t))"

lemma ordered_node:
  "ordered (AVLNode k v l r h) \<longleftrightarrow>
     ordered l \<and> ordered r \<and> (\<forall>(a, b) \<in> set (inorder l). a < k) \<and> (\<forall>(a, b) \<in> set (inorder r). k < a)"
  by (fastforce simp: ordered_def sorted_wrt_append)

lemma map_of_below: "\<forall>(a, b) \<in> set xs. a \<noteq> k \<Longrightarrow> map_of xs k = None"
  by (auto simp: map_of_eq_None_iff)

lemma searchNode_found:
  "ordered t \<Longrightarrow> map_of (inorder t) key = (case searchNode t key of Null \<Rightarrow> None | AVLNode k v l r h \<Rightarrow> Some v)"
proof (induction t)
  case Null
  then show ?case by simp
next
  case (AVLNode k v l r h)
  then have o: "ordered l" "ordered r" "\<forall>(a, b) \<in> set (inorder l). a < k" "\<forall>(a, b) \<in> set (inorder r). k < a"
    by (simp_all add: ordered_node)
  have low: "map_of (inorder l) key = None" if "k \<le> key" using o(3) that by (intro map_of_below) auto
  have high: "map_of (inorder r) key = None" if "key \<le> k" using o(4) that by (intro map_of_below) auto
  consider "key < k" | "k < key" | "key = k" using linorder_less_linear by blast
  then show ?case
    using AVLNode.IH o low high by cases (auto simp: map_add_def split: option.split avl.split)
qed

lemma Search_found:
  "ordered (root t) \<Longrightarrow> Search t key =
     (map_of (inorder (root t)) key \<noteq> None, map_of (inorder (root t)) key)"
  by (auto simp: Search_def searchNode_found split: avl.split)

subsection \<open>Iteration\<close>

text \<open>What a stack still has to give: each node and everything to its right.\<close>

fun pending :: "('k, 'v) avl list \<Rightarrow> ('k \<times> 'v) list" where
  "pending [] = []"
| "pending (Null # st) = pending st"
| "pending (AVLNode k v l r h # st) = (k, v) # inorder r @ pending st"

lemma pending_pushLeftPath: "pending (pushLeftPath t st) = inorder t @ pending st"
  by (induction t st rule: pushLeftPath.induct) auto

lemma pushLeftPath_no_Null: "Null \<notin> set st \<Longrightarrow> Null \<notin> set (pushLeftPath t st)"
  by (induction t st rule: pushLeftPath.induct) auto

lemma pending_seek_path:
  "ordered t \<Longrightarrow> pending (seek_path target t st) = filter (\<lambda>(k, v). target \<le> k) (inorder t) @ pending st"
proof (induction target t st rule: seek_path.induct)
  case (1 target st)
  then show ?case by simp
next
  case (2 target k v l r h st)
  then have o: "ordered l" "ordered r" "\<forall>(a, b) \<in> set (inorder l). a < k" "\<forall>(a, b) \<in> set (inorder r). k < a"
    by (simp_all add: ordered_node)
  have "filter (\<lambda>(a, b). target \<le> a) (inorder r) = inorder r" if "target \<le> k"
    using o(4) that by (auto simp: filter_id_conv)
  moreover have "filter (\<lambda>(a, b). target \<le> a) (inorder l) = []" if "k < target"
    using o(3) that by (auto simp: filter_empty_conv)
  ultimately show ?case using 2 o by auto
qed

lemma seek_path_no_Null: "Null \<notin> set st \<Longrightarrow> Null \<notin> set (seek_path target t st)"
  by (induction target t st rule: seek_path.induct) auto

definition at_top :: "('k, 'v) avl_iterator \<Rightarrow> bool" where
  "at_top i \<longleftrightarrow> current_node i = top_or_null (path_stack i) \<and> Null \<notin> set (path_stack i)"

lemma avl_Next_at_top:
  assumes "at_top i" and "path_stack i = AVLNode k v l r h # st"
  shows "at_top (avl_Next i)" and "pending (path_stack (avl_Next i)) = inorder r @ pending st"
  using assms pushLeftPath_no_Null [of st r]
  by (auto simp: at_top_def avl_Next_def findNext_def Let_def pending_pushLeftPath)

lemma avl_read_pending:
  "at_top i \<Longrightarrow> length (pending (path_stack i)) \<le> n \<Longrightarrow> avl_read n i = pending (path_stack i)"
proof (induction n arbitrary: i)
  case 0
  then show ?case by simp
next
  case (Suc n)
  show ?case
  proof (cases "path_stack i")
    case Nil
    with Suc.prems show ?thesis by (simp add: at_top_def avl_entry_def top_or_null_def)
  next
    case (Cons nd st)
    with Suc.prems(1) obtain k v l r h where nd: "nd = AVLNode k v l r h"
      by (cases nd) (auto simp: at_top_def)
    then have "avl_entry i = Some (k, v)"
      using Suc.prems(1) Cons by (simp add: at_top_def avl_entry_def top_or_null_def)
    moreover have "avl_read n (avl_Next i) = inorder r @ pending st"
      using Suc avl_Next_at_top [OF Suc.prems(1)] Cons nd by simp
    ultimately show ?thesis using Cons nd by simp
  qed
qed

lemma AVLIterator_start: "at_top (AVLIterator t)" "pending (path_stack (AVLIterator t)) = inorder (root t)"
  using pushLeftPath_no_Null [of "[]" "root t"]
  by (simp_all add: AVLIterator_def SeekToFirst_def findFirst_def Let_def at_top_def pending_pushLeftPath)

lemma avl_Seek_start:
  assumes "ordered (root (it_tree i))"
  shows "at_top (avl_Seek target i)"
    and "pending (path_stack (avl_Seek target i)) = filter (\<lambda>(k, v). target \<le> k) (inorder (root (it_tree i)))"
  using seek_path_no_Null [of "[]" target "root (it_tree i)"] pending_seek_path [OF assms, of target "[]"]
  by (simp_all add: avl_Seek_def Let_def at_top_def)

lemma destroyTree_once: "mset (destroyTree t) = mset (map fst (inorder t))"
  by (induction t) simp_all

subsection \<open>Properties\<close>

text \<open>
  C40: On an ordered tree Seek followed by advancing yields exactly the entries with keys not
  below the target, in ascending order, each once, and then the iterator is invalid;
  SeekToFirst yields all of them.
\<close>

theorem avl_seek_iterates:
  assumes "ordered (root t)" and "length (inorder (root t)) \<le> n"
  shows "avl_read n (avl_Seek target (AVLIterator t)) = filter (\<lambda>(k, v). target \<le> k) (inorder (root t)) \<and>
         avl_read n (AVLIterator t) = inorder (root t)"
proof -
  have t: "it_tree (AVLIterator t) = t" by (simp add: AVLIterator_def SeekToFirst_def findFirst_def Let_def)
  have o: "ordered (root (it_tree (AVLIterator t)))" using assms(1) by (simp add: t)
  have "length (filter (\<lambda>(k, v). target \<le> k) (inorder (root t))) \<le> n"
    using assms(2) length_filter_le le_trans by blast
  with avl_read_pending [OF avl_Seek_start(1) [OF o], of target n] avl_Seek_start(2) [OF o, of target]
    avl_read_pending [OF AVLIterator_start(1), of t n] AVLIterator_start(2) [of t] assms(2)
  show ?thesis by (simp add: t)
qed

theorem avl_seek_iterates_witness:
  "avl_read 9 (avl_Seek (2 :: nat) (AVLIterator
      \<lparr>root = AVLNode 3 30 (AVLNode 1 10 Null Null 1) (AVLNode 5 50 Null Null 1) 2, avl_size = 3, avl_mem = 0\<rparr>))
     = [(3, 30 :: nat), (5, 50)]"
  using avl_seek_iterates [of "\<lparr>root = AVLNode 3 (30 :: nat) (AVLNode 1 10 Null Null 1) (AVLNode 5 50 Null Null 1) 2,
      avl_size = 3, avl_mem = 0\<rparr>" 9 "2 :: nat"]
  by (simp add: ordered_def)

end
