(* ===== verification/Locks.thy ===== *)
theory Locks
  imports Main
begin

section \<open>Locks\<close>

text \<open>
  \<open>src/utils/lock.h\<close>: \<open>NullLock\<close>, \<open>MutexLock\<close>, \<open>SpinLock\<close> and the guard \<open>ScopedLock<T>\<close>.
  Threads run as an interleaving of steps. \<open>lock()\<close> is not one step: a thread in it tries
  and, while the lock is taken, tries again. One try of \<open>SpinLock::lock\<close> is one atomic
  \<open>test_and_set\<close>; \<open>std::mutex\<close> is a flag that the waiting thread gets when it is free.
\<close>

subsection \<open>The three lock types\<close>

datatype NullLock = NullLock

definition NullLock_lock :: "NullLock \<Rightarrow> NullLock option" where
  "NullLock_lock l = Some l"

definition NullLock_unlock :: "NullLock \<Rightarrow> NullLock" where
  "NullLock_unlock l = l"

record MutexLock =
  mutex_taken :: bool

definition MutexLock_lock :: "MutexLock \<Rightarrow> MutexLock option" where
  "MutexLock_lock l = (if mutex_taken l then None else Some (l\<lparr>mutex_taken := True\<rparr>))"

definition MutexLock_unlock :: "MutexLock \<Rightarrow> MutexLock" where
  "MutexLock_unlock l = l\<lparr>mutex_taken := False\<rparr>"

record SpinLock =
  flag :: bool

definition test_and_set :: "SpinLock \<Rightarrow> bool \<times> SpinLock" where
  "test_and_set l = (flag l, l\<lparr>flag := True\<rparr>)"

definition SpinLock_lock :: "SpinLock \<Rightarrow> SpinLock option" where
  "SpinLock_lock l = (let (old, l') = test_and_set l in if old then None else Some l')"

definition SpinLock_unlock :: "SpinLock \<Rightarrow> SpinLock" where
  "SpinLock_unlock l = l\<lparr>flag := False\<rparr>"

lemma SpinLock_spin: "SpinLock_lock l = None \<Longrightarrow> snd (test_and_set l) = l"
  by (simp add: SpinLock_lock_def test_and_set_def split: if_splits)

subsection \<open>Scoped locks\<close>

text \<open>
  What a thread has of one guard: none, one whose constructor or \<open>lock()\<close> is waiting for
  the lock, or one with \<open>is_locked\<close> as given.
\<close>

datatype guard = No_Guard | Waiting | Guard bool

type_synonym tid = nat

type_synonym 'l threads = "'l \<times> (tid \<Rightarrow> guard)"

inductive scoped_step ::
  "('l \<Rightarrow> 'l option) \<Rightarrow> ('l \<Rightarrow> 'l) \<Rightarrow> 'l threads \<Rightarrow> 'l threads \<Rightarrow> bool"
  for acq :: "'l \<Rightarrow> 'l option" and rel :: "'l \<Rightarrow> 'l" where
  construct: "g t = No_Guard \<Longrightarrow> scoped_step acq rel (l, g) (l, g(t := Waiting))"
| relock: "g t = Guard False \<Longrightarrow> scoped_step acq rel (l, g) (l, g(t := Waiting))"
| lock_noop: "g t = Guard True \<Longrightarrow> scoped_step acq rel (l, g) (l, g)"
| try_again: "g t = Waiting \<Longrightarrow> acq l = None \<Longrightarrow> scoped_step acq rel (l, g) (l, g)"
| acquire: "g t = Waiting \<Longrightarrow> acq l = Some l' \<Longrightarrow> scoped_step acq rel (l, g) (l', g(t := Guard True))"
| unlock: "g t = Guard True \<Longrightarrow> scoped_step acq rel (l, g) (rel l, g(t := Guard False))"
| unlock_noop: "g t = Guard False \<Longrightarrow> scoped_step acq rel (l, g) (l, g)"
| destruct: "g t = Guard b \<Longrightarrow>
    scoped_step acq rel (l, g) (if b then rel l else l, g(t := No_Guard))"

inductive scoped_run ::
  "('l \<Rightarrow> 'l option) \<Rightarrow> ('l \<Rightarrow> 'l) \<Rightarrow> 'l threads \<Rightarrow> 'l threads \<Rightarrow> bool"
  for acq :: "'l \<Rightarrow> 'l option" and rel :: "'l \<Rightarrow> 'l" and s :: "'l threads" where
  start: "scoped_run acq rel s s"
| step: "scoped_run acq rel s s' \<Longrightarrow> scoped_step acq rel s' s'' \<Longrightarrow> scoped_run acq rel s s''"

inductive_cases scoped_stepE: "scoped_step acq rel (l, g) s'"

definition no_guards :: "tid \<Rightarrow> guard" where
  "no_guards = (\<lambda>t. No_Guard)"

subsection \<open>What makes a lock exclusive\<close>

locale exclusive_lock =
  fixes acq :: "'l \<Rightarrow> 'l option"
    and rel :: "'l \<Rightarrow> 'l"
    and taken :: "'l \<Rightarrow> bool"
  assumes acq_taken: "acq l = None \<longleftrightarrow> taken l"
    and acq_takes: "acq l = Some l' \<Longrightarrow> taken l'"
    and rel_frees: "\<not> taken (rel l)"
begin

definition owned :: "'l threads \<Rightarrow> bool" where
  "owned s \<longleftrightarrow>
     (taken (fst s) \<longleftrightarrow> (\<exists>t. snd s t = Guard True)) \<and>
     (\<forall>t u. snd s t = Guard True \<longrightarrow> snd s u = Guard True \<longrightarrow> t = u)"

lemma owned_update:
  "owned (l, g) \<Longrightarrow> g t \<noteq> Guard True \<Longrightarrow> b \<noteq> Guard True \<Longrightarrow> owned (l, g(t := b))"
proof -
  assume o: "owned (l, g)" and g: "g t \<noteq> Guard True" and b: "b \<noteq> Guard True"
  have "(g(t := b)) u = Guard True \<longleftrightarrow> g u = Guard True" for u using g b by auto
  with o show "owned (l, g(t := b))" by (simp only: owned_def fst_conv snd_conv) blast
qed

lemma owned_step: "scoped_step acq rel s s' \<Longrightarrow> owned s \<Longrightarrow> owned s'"
proof (induction rule: scoped_step.induct)
  case (acquire g t l l')
  then have "\<not> taken l" using acq_taken by (metis option.distinct(1))
  with acquire acq_takes show ?case by (auto simp: owned_def)
next
  case (unlock g t l)
  then have "\<And>u. g u = Guard True \<Longrightarrow> u = t" by (auto simp: owned_def)
  with rel_frees show ?case by (auto simp: owned_def)
next
  case (destruct g t b l)
  show ?case
  proof (cases b)
    case True
    with destruct have "\<And>u. g u = Guard True \<Longrightarrow> u = t" by (auto simp: owned_def)
    with rel_frees True show ?thesis by (auto simp: owned_def)
  next
    case False
    with destruct show ?thesis using owned_update [of l g t No_Guard] by simp
  qed
qed (auto intro: owned_update)

lemma owned_run: "scoped_run acq rel s s' \<Longrightarrow> owned s \<Longrightarrow> owned s'"
  by (induction rule: scoped_run.induct) (auto intro: owned_step)

lemma owned_start: "\<not> taken l \<Longrightarrow> owned (l, no_guards)"
  by (simp add: owned_def no_guards_def)

lemma one_owner:
  assumes "\<not> taken l" and "scoped_run acq rel (l, no_guards) (l', g)"
    and "g t = Guard True" and "g u = Guard True"
  shows "t = u"
  using owned_run [OF assms(2) owned_start [OF assms(1)]] assms(3,4) by (auto simp: owned_def)

lemma free_when_unguarded:
  assumes "\<not> taken l" and "scoped_run acq rel (l, no_guards) (l', g)" and "\<forall>t. g t \<noteq> Guard True"
  shows "\<not> taken l'"
  using owned_run [OF assms(2) owned_start [OF assms(1)]] assms(3) by (auto simp: owned_def)

text \<open>A waiting thread is kept out by an owner only, and every owner can leave.\<close>

lemma waiting_progress:
  assumes "\<not> taken l" and "scoped_run acq rel (l, no_guards) (l', g)" and "g t = Waiting"
  shows "\<exists>l1 g1 l2. scoped_run acq rel (l', g) (l1, g1) \<and>
           scoped_step acq rel (l1, g1) (l2, g1(t := Guard True))"
proof (cases "taken l'")
  case False
  then obtain l2 where "acq l' = Some l2" using acq_taken by blast
  with assms(3) have "scoped_step acq rel (l', g) (l2, g(t := Guard True))" by (rule acquire)
  then show ?thesis using scoped_run.start by metis
next
  case True
  then obtain u where u: "g u = Guard True"
    using owned_run [OF assms(2) owned_start [OF assms(1)]] by (auto simp: owned_def)
  then have "scoped_step acq rel (l', g) (rel l', g(u := Guard False))" by (rule unlock)
  then have run: "scoped_run acq rel (l', g) (rel l', g(u := Guard False))"
    using scoped_run.start scoped_run.step by metis
  obtain l2 where "acq (rel l') = Some l2" using acq_taken rel_frees by blast
  moreover have "(g(u := Guard False)) t = Waiting" using assms(3) u by auto
  ultimately have "scoped_step acq rel (rel l', g(u := Guard False))
      (l2, (g(u := Guard False))(t := Guard True))" by (intro acquire)
  with run show ?thesis by blast
qed

end

interpretation mutex: exclusive_lock MutexLock_lock MutexLock_unlock mutex_taken
  by unfold_locales (auto simp: MutexLock_lock_def MutexLock_unlock_def split: if_splits)

interpretation spin: exclusive_lock SpinLock_lock SpinLock_unlock flag
  by unfold_locales (auto simp: SpinLock_lock_def SpinLock_unlock_def test_and_set_def split: if_splits)

subsection \<open>The null lock excludes nobody\<close>

lemma NullLock_two_owners:
  "\<exists>g. scoped_run NullLock_lock NullLock_unlock (NullLock, no_guards) (NullLock, g) \<and>
       g 0 = Guard True \<and> g 1 = Guard True"
proof -
  let ?step = "scoped_step NullLock_lock NullLock_unlock"
  let ?g1 = "no_guards(0 := Waiting)"
  let ?g2 = "?g1(0 := Guard True)"
  let ?g3 = "?g2(1 := Waiting)"
  let ?g4 = "?g3(1 := Guard True)"
  have "?step (NullLock, no_guards) (NullLock, ?g1)" by (rule construct) (simp add: no_guards_def)
  moreover have "?step (NullLock, ?g1) (NullLock, ?g2)"
    by (rule acquire) (simp_all add: NullLock_lock_def)
  moreover have "?step (NullLock, ?g2) (NullLock, ?g3)"
    by (rule construct) (simp add: no_guards_def)
  moreover have "?step (NullLock, ?g3) (NullLock, ?g4)"
    by (rule acquire) (simp_all add: NullLock_lock_def)
  ultimately have "scoped_run NullLock_lock NullLock_unlock (NullLock, no_guards) (NullLock, ?g4)"
    by (meson scoped_run.start scoped_run.step)
  then show ?thesis by (intro exI [of _ ?g4]) simp
qed

subsection \<open>Properties\<close>

text \<open>
  C27: From a free SpinLock no interleaving of threads that construct, lock, unlock and
  destroy scoped guards reaches a state in which two guards are locked.
\<close>

theorem spin_lock_exclusive:
  assumes "\<not> flag l" and "scoped_run SpinLock_lock SpinLock_unlock (l, no_guards) (l', g)"
    and "g t = Guard True" and "g u = Guard True"
  shows "t = u \<and> flag l'"
proof -
  have "t = u" by (rule spin.one_owner [OF assms])
  moreover have "flag l'"
    using spin.owned_run [OF assms(2) spin.owned_start [OF assms(1)]] assms(3) by (auto simp: spin.owned_def)
  ultimately show ?thesis by blast
qed

theorem spin_lock_exclusive_witness:
  "\<exists>l' g. scoped_run SpinLock_lock SpinLock_unlock (\<lparr>flag = False\<rparr>, no_guards) (l', g) \<and> g 0 = Guard True \<and>
     (\<forall>u. g u = Guard True \<longrightarrow> 0 = u \<and> flag l')"
proof -
  let ?g1 = "no_guards(0 := Waiting)" and ?g2 = "no_guards(0 := Guard True)"
  have wait: "scoped_step SpinLock_lock SpinLock_unlock (\<lparr>flag = False\<rparr>, no_guards) (\<lparr>flag = False\<rparr>, ?g1)"
    by (rule construct) (simp add: no_guards_def)
  have take_it: "scoped_step SpinLock_lock SpinLock_unlock (\<lparr>flag = False\<rparr>, ?g1) (\<lparr>flag = True\<rparr>, ?g1(0 := Guard True))"
    by (rule acquire) (simp_all add: SpinLock_lock_def test_and_set_def)
  have run: "scoped_run SpinLock_lock SpinLock_unlock (\<lparr>flag = False\<rparr>, no_guards) (\<lparr>flag = True\<rparr>, ?g2)"
    using scoped_run.step [OF scoped_run.step [OF scoped_run.start wait] take_it] by simp
  have only: "\<forall>u. ?g2 u = Guard True \<longrightarrow> 0 = u \<and> flag \<lparr>flag = True\<rparr>"
    by (intro allI impI, rule spin_lock_exclusive [OF _ run]) simp_all
  have "?g2 0 = Guard True" by simp
  with run only show ?thesis by blast
qed

text \<open>
  C28: In every reachable state a thread that waits for a SpinLock can come to hold it: either
  its next try succeeds, or it does once the one owner has unlocked.
\<close>

theorem spin_lock_progress:
  assumes "\<not> flag l" and "scoped_run SpinLock_lock SpinLock_unlock (l, no_guards) (l', g)" and "g t = Waiting"
  shows "\<exists>l1 g1 l2. scoped_run SpinLock_lock SpinLock_unlock (l', g) (l1, g1) \<and>
           scoped_step SpinLock_lock SpinLock_unlock (l1, g1) (l2, g1(t := Guard True))"
  using assms by (rule spin.waiting_progress)

theorem spin_lock_progress_witness:
  "\<exists>l' g. scoped_run SpinLock_lock SpinLock_unlock (\<lparr>flag = False\<rparr>, no_guards) (l', g) \<and> g 3 = Waiting \<and>
     (\<exists>l1 g1 l2. scoped_run SpinLock_lock SpinLock_unlock (l', g) (l1, g1) \<and>
        scoped_step SpinLock_lock SpinLock_unlock (l1, g1) (l2, g1(3 := Guard True)))"
proof -
  let ?g = "no_guards(3 := Waiting)"
  have wait: "scoped_step SpinLock_lock SpinLock_unlock (\<lparr>flag = False\<rparr>, no_guards) (\<lparr>flag = False\<rparr>, ?g)"
    by (rule construct) (simp add: no_guards_def)
  note run = scoped_run.step [OF scoped_run.start wait]
  have "\<exists>l1 g1 l2. scoped_run SpinLock_lock SpinLock_unlock (\<lparr>flag = False\<rparr>, ?g) (l1, g1) \<and>
      scoped_step SpinLock_lock SpinLock_unlock (l1, g1) (l2, g1(3 := Guard True))"
    by (rule spin_lock_progress [OF _ run]) simp_all
  with run show ?thesis by (intro exI [of _ "\<lparr>flag = False\<rparr>"] exI [of _ ?g]) simp
qed

end
