(* ===== verification/Db_Sessions.thy ===== *)
theory Db_Sessions
  imports Db_Correct
begin

section \<open>A session and what is left of it\<close>

text \<open>
  A session opens the database, writes, and destroys it (\<open>DBImpl\<close>, \<open>DBImpl_Put\<close>,
  \<open>DBImpl_Delete\<close>, \<open>DBImpl_destroy\<close> of \<open>src/db/db_impl.cpp\<close>). While the table stays below its limit the
  log file is all that a session leaves behind; nothing in \<open>DBImpl\<close> reads it. The lemmas follow
  the log through a session and compute the file system afterwards.
\<close>

datatype write_op = Put_op coins u64 bytes bytes | Delete_op coins bytes

fun op_key :: "write_op \<Rightarrow> bytes" where
  "op_key (Put_op coin now k v) = k"
| "op_key (Delete_op coin k) = k"

fun op_value :: "write_op \<Rightarrow> bytes" where
  "op_value (Put_op coin now k v) = v"
| "op_value (Delete_op coin k) = []"

fun run_op :: "env \<Rightarrow> write_op \<Rightarrow> db_impl \<Rightarrow> (DBStatus \<times> db_impl) res" where
  "run_op e (Put_op coin now k v) s = DBImpl_Put e coin now k v s"
| "run_op e (Delete_op coin k) s = DBImpl_Delete e coin k s"

fun run_ops :: "env \<Rightarrow> write_op list \<Rightarrow> db_impl \<Rightarrow> (DBStatus list \<times> db_impl) res" where
  "run_ops e [] s = Inr ([], s)"
| "run_ops e (w # ws) s =
     bind_res (run_op e w s) (\<lambda>(st, s1). bind_res (run_ops e ws s1) (\<lambda>(sts, s2). Inr (st # sts, s2)))"

definition session :: "env \<Rightarrow> Options \<Rightarrow> write_op list \<Rightarrow> fs \<Rightarrow> (DBStatus list \<times> fs) res" where
  "session e opts ws d =
     bind_res (DBImpl opts d) (\<lambda>s0. bind_res (run_ops e ws s0) (\<lambda>(sts, s1).
     bind_res (DBImpl_destroy e s1) (\<lambda>d1. Inr (sts, d1))))"

text \<open>The bytes of all keys and values bound the size of the table.\<close>

definition op_bytes :: "write_op \<Rightarrow> nat" where
  "op_bytes w = length (op_key w) + length (op_value w)"

fun op_ok :: "write_op \<Rightarrow> bool" where
  "op_ok (Put_op coin now k v) \<longleftrightarrow> k \<noteq> [] \<and> length k < 2 ^ 24 \<and> v \<noteq> [] \<and> length v < 2 ^ 32 - 1"
| "op_ok (Delete_op coin k) \<longleftrightarrow> k \<noteq> [] \<and> length k < 2 ^ 24"

definition ops_fit :: "Options \<Rightarrow> nat \<Rightarrow> write_op list \<Rightarrow> bool" where
  "ops_fit opts n ws \<longleftrightarrow>
     (\<forall>w \<in> set ws. op_ok w) \<and> n + sum_list (map op_bytes ws) < unat (MEM_TABLE_MAX_SIZE opts)"

definition op_next :: "(bytes \<Rightarrow> bytes option) \<Rightarrow> write_op \<Rightarrow> bytes \<Rightarrow> bytes option" where
  "op_next M w = M(c_str (op_key w) \<mapsto> c_str (op_value w))"

lemma length_c_str: "length (c_str s) \<le> length s"
  by (simp add: c_str_def length_takeWhile_le)

lemma finite_dom_abs: "mt_abs m M \<Longrightarrow> finite (dom M)"
  by (auto simp: mt_abs_def finite_dom_map_of)

lemma table_bytes_upd:
  assumes "finite (dom M)"
  shows "table_bytes (M(k \<mapsto> v)) \<le> table_bytes M + length k + length v"
proof -
  let ?f = "\<lambda>j. length j + length (the ((M(k \<mapsto> v)) j))"
  have "table_bytes (M(k \<mapsto> v)) = ?f k + (\<Sum>j \<in> dom M - {k}. ?f j)"
    unfolding table_bytes_def dom_fun_upd using assms by (simp add: sum.insert_remove)
  also have "(\<Sum>j \<in> dom M - {k}. ?f j) = (\<Sum>j \<in> dom M - {k}. length j + length (the (M j)))"
    by (rule sum.cong) auto
  also have "\<dots> \<le> table_bytes M" unfolding table_bytes_def using assms by (intro sum_mono2) auto
  finally show ?thesis by (simp only: fun_upd_same option.sel ac_simps add_le_cancel_left)
qed

lemma op_next_bytes: "finite (dom M) \<Longrightarrow> table_bytes (op_next M w) \<le> table_bytes M + op_bytes w"
  unfolding op_next_def op_bytes_def
  using table_bytes_upd [of M "c_str (op_key w)" "c_str (op_value w)"] length_c_str [of "op_key w"]
    length_c_str [of "op_value w"] by linarith

lemma run_op_writes:
  assumes ok: "db_ok e s M ls" and w: "op_ok w"
    and fit: "table_bytes M + op_bytes w < unat (MEM_TABLE_MAX_SIZE (options s))"
  shows "\<exists>s' ls'. run_op e w s = Inr (Success, s') \<and> db_ok e s' (op_next M w) ls' \<and> options s' = options s \<and>
           wrote_log e (op_key w) s s'"
proof -
  have fin: "finite (dom M)" using ok finite_dom_abs by (auto simp: db_ok_def)
  have "table_bytes (op_next M w) < unat (MEM_TABLE_MAX_SIZE (options s))"
    using op_next_bytes [OF fin, of w] fit by linarith
  then have room: "has_room s (op_next M w)"
    unfolding has_room_def word_less_nat_alt
    by (metis order_le_less_trans unat_of_nat mod_less_eq_dividend)
  show ?thesis
  proof (cases w)
    case (Put_op coin now k v)
    with Put_stores_logs [OF ok, of k v coin now] w room show ?thesis by (auto simp: op_next_def)
  next
    case (Delete_op coin k)
    with Delete_buries_logs [OF ok, of k coin] w room show ?thesis by (auto simp: op_next_def)
  qed
qed

definition session_log :: "env \<Rightarrow> write_op list \<Rightarrow> bytes" where
  "session_log e ws = concat (map (\<lambda>w. wal_record (env_crc e) (wal_log (op_key w))) ws)"

lemma run_ops_writes:
  assumes "db_ok e s M ls" and "ops_fit (options s) (table_bytes M) ws"
  shows "\<exists>s' ls'. run_ops e ws s = Inr (replicate (length ws) Success, s') \<and> db_ok e s' (fold (\<lambda>w M. op_next M w) ws M) ls' \<and>
           options s' = options s \<and> same_file (wal_writer s, disk s) (wal_writer s', disk s') \<and>
           fw_total (wal_writer s', disk s') = fw_total (wal_writer s, disk s) @ session_log e ws"
  using assms
proof (induction ws arbitrary: s M ls)
  case Nil
  then show ?case by (auto simp: session_log_def)
next
  case (Cons w ws)
  have w: "op_ok w" "table_bytes M + op_bytes w < unat (MEM_TABLE_MAX_SIZE (options s))"
    using Cons.prems(2) by (auto simp: ops_fit_def)
  from run_op_writes [OF Cons.prems(1) w] obtain s1 ls1 where s1: "run_op e w s = Inr (Success, s1)"
    "db_ok e s1 (op_next M w) ls1" "options s1 = options s" "wrote_log e (op_key w) s s1" by blast
  have "finite (dom M)" using Cons.prems(1) finite_dom_abs by (auto simp: db_ok_def)
  from op_next_bytes [OF this, of w] have "ops_fit (options s1) (table_bytes (op_next M w)) ws"
    using Cons.prems(2) by (auto simp: ops_fit_def s1(3))
  from Cons.IH [OF s1(2) this] obtain s2 ls2 where s2: "run_ops e ws s1 = Inr (replicate (length ws) Success, s2)"
    "db_ok e s2 (fold (\<lambda>w M. op_next M w) ws (op_next M w)) ls2" "options s2 = options s1"
    "same_file (wal_writer s1, disk s1) (wal_writer s2, disk s2)"
    "fw_total (wal_writer s2, disk s2) = fw_total (wal_writer s1, disk s1) @ session_log e ws" by blast
  have "same_file (wal_writer s, disk s) (wal_writer s2, disk s2)"
    using s1(4) s2(4) same_file_trans by (auto simp: wrote_log_def)
  with s1 s2 show ?case by (auto simp: session_log_def wrote_log_def)
qed

lemma destroy_flushes:
  assumes "full_writes (env_wr e)" and "fw_ok (wal_writer s, disk s)"
  shows "\<exists>d. DBImpl_destroy e s = Inr d \<and> dirs d = dirs (disk s) \<and>
           files d = (files (disk s))(fw_path (wal_writer s) \<mapsto> fw_total (wal_writer s, disk s))"
proof -
  let ?w = "(wal_writer s, disk s)"
  obtain w d where f: "flush_file (env_wr e) ?w = Inr (Success, (w, d))" "fw_ok (w, d)" "same_file ?w (w, d)"
    "fw_stored (w, d) = fw_total ?w" "buffer_offset w = 0"
    using flush_file_ok [OF assms] by auto
  have "DBImpl_destroy e s = Inr d"
    using f(1,5) by (simp add: DBImpl_destroy_def WALWriter_destroy_def close_file_def destroy_file_def sync_file_def
        flush_file_def)
  moreover have "files d = (files (disk s))(fw_path (wal_writer s) \<mapsto> fw_total ?w)"
    using f(2-4) by (auto simp: fun_eq_iff same_file_def fw_stored_def fw_ok_def)
  ultimately show ?thesis using f(3) by (simp add: same_file_def)
qed

subsection \<open>The file system after a session\<close>

definition log_content :: "Options \<Rightarrow> fs \<Rightarrow> bytes" where
  "log_content opts d = (case files d (WAL_DIR opts) of None \<Rightarrow> [] | Some c \<Rightarrow> c)"

definition opens_at :: "Options \<Rightarrow> fs \<Rightarrow> bool" where
  "opens_at opts d \<longleftrightarrow> WAL_DIR opts \<notin> dirs d \<and> 47 \<in> set (WAL_DIR opts) \<and> parent_free (WAL_DIR opts) d"

text \<open>The directories are made when the log does not exist yet.\<close>

definition opened_dirs :: "Options \<Rightarrow> fs \<Rightarrow> bytes set" where
  "opened_dirs opts d =
     (if files d (WAL_DIR opts) = None then dirs d \<union> set (ancestors (parent_dir (WAL_DIR opts))) else dirs d)"

lemma DBImpl_disk:
  assumes "opens_at opts d"
  shows "\<exists>s. DBImpl opts d = Inr s \<and> fw_path (wal_writer s) = WAL_DIR opts \<and> dirs (disk s) = opened_dirs opts d \<and>
           files (disk s) = (files d)(WAL_DIR opts \<mapsto> log_content opts d) \<and>
           fw_total (wal_writer s, disk s) = log_content opts d"
proof -
  let ?p = "WAL_DIR opts"
  have p: "?p \<notin> dirs d" "47 \<in> set ?p" "parent_free ?p d" using assms by (simp_all add: opens_at_def)
  have free: "?p \<notin> set (ancestors (parent_dir ?p))"
    using parent_dir_shorter [OF p(2)] ancestors_shorter [of ?p "parent_dir ?p"] by auto
  have made: "create_directories (parent_dir ?p) d = Inr (d\<lparr>dirs := dirs d \<union> set (ancestors (parent_dir ?p))\<rparr>)"
    using p(3) by (auto simp: create_directories_def parent_free_def)
  show ?thesis
    using free made p(1)
    by (cases "files d ?p")
      (simp_all add: DBImpl_def FileWriter_def open_write_def access_ok_def fw_total_def fw_stored_def Let_def
        log_content_def opened_dirs_def)
qed

definition after_session :: "env \<Rightarrow> Options \<Rightarrow> write_op list \<Rightarrow> fs \<Rightarrow> fs" where
  "after_session e opts ws d =
     d\<lparr>files := (files d)(WAL_DIR opts \<mapsto> log_content opts d @ session_log e ws), dirs := opened_dirs opts d\<rparr>"

lemma session_leaves:
  assumes wr: "full_writes (env_wr e)" and at: "opens_at opts d" and fit: "ops_fit opts 0 ws"
  shows "session e opts ws d = Inr (replicate (length ws) Success, after_session e opts ws d)"
proof -
  obtain s where s: "DBImpl opts d = Inr s" "fw_path (wal_writer s) = WAL_DIR opts"
    "dirs (disk s) = opened_dirs opts d" "files (disk s) = (files d)(WAL_DIR opts \<mapsto> log_content opts d)"
    "fw_total (wal_writer s, disk s) = log_content opts d"
    using DBImpl_disk [OF at] by blast
  obtain ls where ok: "db_ok e s Map.empty ls" "options s = opts"
    using DBImpl_opens [OF wr, of opts d] at s(1) by (auto simp: opens_at_def)
  have "ops_fit (options s) (table_bytes Map.empty) ws" using fit by (simp add: ok(2) table_bytes_def)
  from run_ops_writes [OF ok(1) this] obtain s' M' ls' where s': "run_ops e ws s = Inr (replicate (length ws) Success, s')"
    "db_ok e s' M' ls'" "same_file (wal_writer s, disk s) (wal_writer s', disk s')"
    "fw_total (wal_writer s', disk s') = fw_total (wal_writer s, disk s) @ session_log e ws" by blast
  have "fw_ok (wal_writer s', disk s')" using s'(2) by (simp add: db_ok_def)
  from destroy_flushes [OF wr this] obtain d1 where d1: "DBImpl_destroy e s' = Inr d1" "dirs d1 = dirs (disk s')"
    "files d1 = (files (disk s'))(fw_path (wal_writer s') \<mapsto> fw_total (wal_writer s', disk s'))" by blast
  have path: "fw_path (wal_writer s') = WAL_DIR opts" and others: "\<forall>p. p \<noteq> WAL_DIR opts \<longrightarrow> files (disk s') p = files d p"
    and dd: "dirs (disk s') = opened_dirs opts d"
    using s'(3) by (auto simp: same_file_def s(2-4))
  have "files d1 = (files d)(WAL_DIR opts \<mapsto> log_content opts d @ session_log e ws)"
    using others unfolding d1(3) path s'(4) s(5) by (auto simp: fun_eq_iff)
  then have "d1 = after_session e opts ws d" using d1(2) dd by (simp add: after_session_def)
  then show ?thesis using s(1) s'(1) d1(1) by (simp add: session_def)
qed

subsection \<open>Opening again\<close>

lemma opens_at_after:
  assumes "opens_at opts d"
  shows "opens_at opts (after_session e opts ws d)"
proof -
  let ?p = "WAL_DIR opts"
  have p: "?p \<notin> dirs d" "47 \<in> set ?p" "parent_free ?p d" using assms by (simp_all add: opens_at_def)
  have "?p \<notin> set (ancestors (parent_dir ?p))"
    using parent_dir_shorter [OF p(2)] ancestors_shorter [of ?p "parent_dir ?p"] by auto
  with p show ?thesis by (auto simp: opens_at_def after_session_def opened_dirs_def parent_free_def)
qed

lemma Get_after_open:
  assumes wr: "full_writes (env_wr e)" and at: "opens_at opts d" and "key \<noteq> []"
    and none: "\<not> access_ok (d\<lparr>files := (files d)(WAL_DIR opts \<mapsto> log_content opts d), dirs := opened_dirs opts d\<rparr>)
      (STORAGE_DIR opts @ str ''level_0_sst_0.sst'')"
  shows "\<exists>s. DBImpl opts d = Inr s \<and> DBImpl_Get e now key (Some out) s = Inl Assert_Failed"
proof -
  obtain s where s: "DBImpl opts d = Inr s" "dirs (disk s) = opened_dirs opts d"
    "files (disk s) = (files d)(WAL_DIR opts \<mapsto> log_content opts d)"
    using DBImpl_disk [OF at] by blast
  have ok: "db_ok e s Map.empty (replicate (unat SHARDING_NUM) [])" "options s = opts"
    "coherent e Map.empty (replicate (unat SHARDING_NUM) [])"
    using DBImpl_opens [OF wr, of opts d] at s(1) by (auto simp: opens_at_def)
  have "db_view e Map.empty (replicate (unat SHARDING_NUM) []) (c_str key) = None"
    using coherent_view [OF ok(3)] by simp
  from Get_unknown [OF ok(1) assms(3) this, of now out] have
    "DBImpl_Get e now key (Some out) s = Inl Assert_Failed"
    using none s(2,3) by (simp add: SSTParser_def sst_path_def ok(2) access_ok_def)
  with s(1) show ?thesis by blast
qed

text \<open>The log of a session is a function of the lengths of its keys.\<close>

lemma session_log_lengths:
  assumes "map (length \<circ> op_key) ws = map (length \<circ> op_key) ws'"
  shows "session_log e ws = session_log e ws'"
proof -
  have "session_log e us = concat (map (\<lambda>n. wal_record (env_crc e) (c_str (EncodeFixed32 (of_nat n)))) (map (length \<circ> op_key) us))" for us
    by (simp add: session_log_def wal_log_def comp_def)
  then show ?thesis by (simp only: assms)
qed

lemma sample_opens_at: "opens_at MakeOptionsForDebugging sample_fs"
  by (simp add: opens_at_def MakeOptionsForDebugging_def sample_fs_def str_def parent_free_def parent_dir_def)

subsection \<open>Properties\<close>

text \<open>
  C7: After a session below the table limit the log file has one more record for each
  operation, but a database opened again on the file system that was left knows none of the
  keys: as long as there is no table file, every Get of it, also of a key that was put and
  acknowledged, aborts in an assertion.
\<close>

theorem db_restart_loses_all:
  assumes wr: "full_writes (env_wr e)" and at: "opens_at opts d" and fit: "ops_fit opts 0 ws"
    and none: "files d (STORAGE_DIR opts @ str ''level_0_sst_0.sst'') = None"
      "STORAGE_DIR opts @ str ''level_0_sst_0.sst'' \<notin> insert (WAL_DIR opts) (opened_dirs opts d)"
  shows "\<exists>d1. session e opts ws d = Inr (replicate (length ws) Success, d1) \<and>
           files d1 (WAL_DIR opts) = Some (log_content opts d @ session_log e ws) \<and>
           (\<forall>key now out. key \<noteq> [] \<longrightarrow>
              (\<exists>s. DBImpl opts d1 = Inr s \<and> DBImpl_Get e now key (Some out) s = Inl Assert_Failed))"
proof -
  let ?d1 = "after_session e opts ws d"
  have od: "opened_dirs opts ?d1 = opened_dirs opts d" by (simp add: opened_dirs_def after_session_def)
  have "\<not> access_ok (?d1\<lparr>files := (files ?d1)(WAL_DIR opts \<mapsto> log_content opts ?d1), dirs := opened_dirs opts ?d1\<rparr>)
      (STORAGE_DIR opts @ str ''level_0_sst_0.sst'')"
    using none unfolding od by (simp add: access_ok_def after_session_def)
  from Get_after_open [OF wr opens_at_after [OF at] _ this] session_leaves [OF wr at fit] show ?thesis
    by (intro exI [of _ ?d1]) (simp add: after_session_def)
qed

theorem db_restart_loses_all_witness:
  "\<exists>d1 s. session sample_env MakeOptionsForDebugging [Put_op (\<lambda>_. True) 0 [107] [118]] sample_fs = Inr ([Success], d1) \<and>
     DBImpl MakeOptionsForDebugging d1 = Inr s \<and> DBImpl_Get sample_env 0 [107] (Some []) s = Inl Assert_Failed"
proof -
  have wr: "full_writes (env_wr sample_env)" by (simp add: sample_env_def full_writes_all_written)
  have fit: "ops_fit MakeOptionsForDebugging 0 [Put_op (\<lambda>_. True) 0 [107] [118]]"
    by (simp add: ops_fit_def op_bytes_def sample_limits)
  have none: "files sample_fs (STORAGE_DIR MakeOptionsForDebugging @ str ''level_0_sst_0.sst'') = None"
    by (simp add: sample_fs_def)
  have "STORAGE_DIR MakeOptionsForDebugging @ str ''level_0_sst_0.sst'' \<notin>
      insert (WAL_DIR MakeOptionsForDebugging) (opened_dirs MakeOptionsForDebugging sample_fs)"
    by (simp add: opened_dirs_def sample_fs_def MakeOptionsForDebugging_def str_def parent_dir_def ancestors_def)
  from db_restart_loses_all [OF wr sample_opens_at fit none this] show ?thesis by fastforce
qed

text \<open>
  C8: Two sessions below the table limit whose keys have the same lengths, one after the
  other, leave the very same file system, whatever the keys, the values and the kinds of the
  operations were: what a session wrote cannot be recovered from what it left, although every
  operation was answered Success.
\<close>

theorem db_log_forgets:
  assumes "full_writes (env_wr e)" and "opens_at opts d" and "ops_fit opts 0 ws" and "ops_fit opts 0 ws'"
    and lens: "map (length \<circ> op_key) ws = map (length \<circ> op_key) ws'"
  shows "\<exists>d1. session e opts ws d = Inr (replicate (length ws) Success, d1) \<and>
           session e opts ws' d = Inr (replicate (length ws) Success, d1)"
proof -
  have "length ws = length ws'" using lens by (metis length_map)
  moreover have "after_session e opts ws d = after_session e opts ws' d"
    by (simp add: after_session_def session_log_lengths [OF lens])
  ultimately show ?thesis using session_leaves [OF assms(1,2)] assms(3,4) by simp
qed

theorem db_log_forgets_witness:
  "\<exists>d1. session sample_env MakeOptionsForDebugging [Put_op (\<lambda>_. True) 0 [107] [118]] sample_fs = Inr ([Success], d1) \<and>
        session sample_env MakeOptionsForDebugging [Delete_op (\<lambda>_. True) [109]] sample_fs = Inr ([Success], d1)"
proof -
  have wr: "full_writes (env_wr sample_env)" by (simp add: sample_env_def full_writes_all_written)
  have fit: "ops_fit MakeOptionsForDebugging 0 [Put_op (\<lambda>_. True) 0 [107] [118]]"
    "ops_fit MakeOptionsForDebugging 0 [Delete_op (\<lambda>_. True) [109]]"
    by (simp_all add: ops_fit_def op_bytes_def sample_limits)
  have len: "map (length \<circ> op_key) [Put_op (\<lambda>_. True) 0 [107] [118]] = map (length \<circ> op_key) [Delete_op (\<lambda>_. True) [109]]"
    by simp
  from db_log_forgets [OF wr sample_opens_at fit len] show ?thesis by simp
qed

end
