(* ===== verification/Write_Faults.thy ===== *)
theory Write_Faults
  imports Db_Sessions
begin

section \<open>When \<open>write(2)\<close> writes less than it was given\<close>

text \<open>
  \<open>FileWriter::_buf_persist\<close> asserts that \<open>write(2)\<close> has written everything. For any behaviour of
  \<open>write(2)\<close> that never claims more than it was given, an operation on files therefore either
  fails this assertion or does exactly what it does when every call is complete. The relation
  goes through every operation that writes, up to whole sessions of the database.
\<close>

definition sane_writes :: "write_count \<Rightarrow> bool" where
  "sane_writes wr \<longleftrightarrow> (\<forall>d xs. wr d xs \<le> int (length xs))"

definition or_aborts :: "'a res \<Rightarrow> 'a res \<Rightarrow> bool" where
  "or_aborts a b \<longleftrightarrow> a = b \<or> a = Inl Assert_Failed"

named_theorems aborts

lemma or_aborts_refl [aborts]: "or_aborts a a"
  by (simp add: or_aborts_def)

lemma or_aborts_bind [aborts]:
  assumes "or_aborts a b" and "\<And>x. or_aborts (f x) (g x)"
  shows "or_aborts (bind_res a f) (bind_res b g)"
proof (cases "a = b")
  case True
  with assms(2) show ?thesis by (cases b) (simp_all add: or_aborts_def)
next
  case False
  with assms(1) show ?thesis by (simp add: or_aborts_def)
qed

lemma or_aborts_assert [aborts]: "or_aborts a b \<Longrightarrow> or_aborts (assert_res c a) (assert_res c b)"
  by (simp add: or_aborts_def assert_res_def)

lemma or_aborts_if [aborts]: "or_aborts a b \<Longrightarrow> or_aborts a' b' \<Longrightarrow> or_aborts (if c then a else a') (if c then b else b')"
  by simp

lemma or_aborts_prod [aborts]: "(\<And>x y. or_aborts (f x y) (g x y)) \<Longrightarrow> or_aborts (case p of (x, y) \<Rightarrow> f x y) (case p of (x, y) \<Rightarrow> g x y)"
  by (simp split: prod.split)

lemma or_aborts_let [aborts]: "(\<And>x. or_aborts (f x) (g x)) \<Longrightarrow> or_aborts (let x = t in f x) (let x = t in g x)"
  by simp

subsection \<open>Files\<close>

lemma buf_persist_aborts [aborts]:
  assumes "sane_writes wr"
  shows "or_aborts (buf_persist wr n s) (buf_persist all_written n s)"
proof -
  obtain w d where s: "s = (w, d)" by (cases s)
  let ?xs = "take n (buffer w)"
  have "wr d ?xs \<le> int (length ?xs)" using assms unfolding sane_writes_def by blast
  then have "wr d ?xs = int n \<Longrightarrow> length ?xs = n" by (auto simp: min_def split: if_splits)
  then show ?thesis
    by (auto simp: or_aborts_def buf_persist_def write_fd_def s Let_def all_written_def assert_res_def)
qed

lemma append_loop_aborts [aborts]:
  assumes "sane_writes wr"
  shows "or_aborts (append_loop wr data s) (append_loop all_written data s)"
proof (induction data arbitrary: s rule: length_induct)
  case (1 data)
  show ?case
  proof (cases "data = []")
    case True
    then show ?thesis by (simp add: append_loop.simps or_aborts_def)
  next
    case False
    have rest: "or_aborts
        (if n = 0 then Inl No_Return else bind_res (copy_in (take n data) w) (\<lambda>w'. append_loop wr (drop n data) (w', d)))
        (if n = 0 then Inl No_Return else bind_res (copy_in (take n data) w) (\<lambda>w'. append_loop all_written (drop n data) (w', d)))" for n w d
      using 1 False by (cases "n = 0") (auto intro!: or_aborts_bind or_aborts_refl)
    show ?thesis
      unfolding append_loop.simps [of wr data s] append_loop.simps [of all_written data s] if_not_P [OF False] Let_def
      by (intro aborts rest assms)
  qed
qed

lemma append_buffered_aborts [aborts]:
  "sane_writes wr \<Longrightarrow> or_aborts (append_buffered wr data s) (append_buffered all_written data s)"
  unfolding append_buffered_def by (intro aborts)

lemma append_file_aborts [aborts]:
  "sane_writes wr \<Longrightarrow> or_aborts (append_file wr data n f s) (append_file all_written data n f s)"
  unfolding append_file_def by (intro aborts)

lemma flush_file_aborts [aborts]: "sane_writes wr \<Longrightarrow> or_aborts (flush_file wr s) (flush_file all_written s)"
  unfolding flush_file_def by (intro aborts)

lemma sync_file_aborts [aborts]: "sane_writes wr \<Longrightarrow> or_aborts (sync_file wr s) (sync_file all_written s)"
  unfolding sync_file_def by (intro aborts)

lemma close_file_aborts [aborts]: "sane_writes wr \<Longrightarrow> or_aborts (close_file wr s) (close_file all_written s)"
  unfolding close_file_def by (intro aborts)

lemma destroy_file_aborts [aborts]: "sane_writes wr \<Longrightarrow> or_aborts (destroy_file wr s) (destroy_file all_written s)"
  unfolding destroy_file_def by (intro aborts)

subsection \<open>The log and the tables\<close>

lemma AddLog_aborts [aborts]: "sane_writes wr \<Longrightarrow> or_aborts (AddLog crc wr rec s) (AddLog crc all_written rec s)"
  unfolding AddLog_def by (intro aborts)

lemma sst_add_aborts [aborts]: "sane_writes wr \<Longrightarrow> or_aborts (sst_add wr k v b) (sst_add all_written k v b)"
  unfolding sst_add_def by (intro aborts)

lemma finish_last_block_aborts [aborts]:
  "sane_writes wr \<Longrightarrow> or_aborts (finish_last_block wr b) (finish_last_block all_written b)"
  unfolding finish_last_block_def by (intro aborts)

lemma finish_sst_aborts [aborts]: "sane_writes wr \<Longrightarrow> or_aborts (finish_sst logq wr b) (finish_sst logq all_written b)"
  unfolding finish_sst_def by (intro aborts)

subsection \<open>The database\<close>

text \<open>The same environment with a device that always writes everything.\<close>

definition reliable :: "env \<Rightarrow> env" where
  "reliable e = e\<lparr>env_wr := all_written\<rparr>"

lemma reliable_simps:
  "env_wr (reliable e) = all_written" "env_hash (reliable e) = env_hash e" "env_crc (reliable e) = env_crc e"
  "env_logq (reliable e) = env_logq e" "env_mem (reliable e) = env_mem e" "env_convert (reliable e) = env_convert e"
  by (simp_all add: reliable_def)

lemma write_wal_aborts [aborts]: "sane_writes (env_wr e) \<Longrightarrow> or_aborts (write_wal e k v s) (write_wal (reliable e) k v s)"
  unfolding write_wal_def reliable_simps by (intro aborts)

lemma MemTableToSST_aborts [aborts]: "sane_writes (env_wr e) \<Longrightarrow> or_aborts (MemTableToSST e s) (MemTableToSST (reliable e) s)"
  unfolding MemTableToSST_def reliable_simps by (intro aborts)

lemma renew_table_aborts [aborts]: "sane_writes (env_wr e) \<Longrightarrow> or_aborts (renew_table e s) (renew_table (reliable e) s)"
  unfolding renew_table_def by (intro aborts)

lemma DBImpl_Put_aborts [aborts]:
  "sane_writes (env_wr e) \<Longrightarrow> or_aborts (DBImpl_Put e coin now k v s) (DBImpl_Put (reliable e) coin now k v s)"
  unfolding DBImpl_Put_def reliable_simps by (intro aborts)

lemma DBImpl_Delete_aborts [aborts]:
  "sane_writes (env_wr e) \<Longrightarrow> or_aborts (DBImpl_Delete e coin k s) (DBImpl_Delete (reliable e) coin k s)"
  unfolding DBImpl_Delete_def reliable_simps by (intro aborts)

lemma DBImpl_destroy_aborts [aborts]:
  "sane_writes (env_wr e) \<Longrightarrow> or_aborts (DBImpl_destroy e s) (DBImpl_destroy (reliable e) s)"
  unfolding DBImpl_destroy_def WALWriter_destroy_def reliable_simps by (intro aborts)

lemma run_op_aborts [aborts]: "sane_writes (env_wr e) \<Longrightarrow> or_aborts (run_op e w s) (run_op (reliable e) w s)"
  by (cases w) (auto intro: aborts)

lemma run_ops_aborts [aborts]: "sane_writes (env_wr e) \<Longrightarrow> or_aborts (run_ops e ws s) (run_ops (reliable e) ws s)"
proof (induction ws arbitrary: s)
  case Nil
  then show ?case by (simp add: or_aborts_def)
next
  case (Cons w ws)
  show ?case unfolding run_ops.simps by (intro aborts Cons)
qed

lemma session_aborts: "sane_writes (env_wr e) \<Longrightarrow> or_aborts (session e opts ws d) (session (reliable e) opts ws d)"
  unfolding session_def by (intro aborts)

subsection \<open>Writes that fall short\<close>

definition short_writes :: "write_count \<Rightarrow> bool" where
  "short_writes wr \<longleftrightarrow> (\<forall>d xs. xs \<noteq> [] \<longrightarrow> wr d xs \<noteq> int (length xs))"

lemma buf_persist_short:
  assumes "short_writes wr" and "fw_ok s" and "0 < n" and "n \<le> BUFFER_SIZE"
  shows "buf_persist wr n s = Inl Assert_Failed"
proof -
  obtain w d where s: "s = (w, d)" by (cases s)
  have "length (take n (buffer w)) = n" using assms(2,4) by (simp add: s fw_ok_def)
  then have "wr d (take n (buffer w)) \<noteq> int n" using assms(1,3) unfolding short_writes_def by (metis list.size(3) not_less0)
  then show ?thesis by (simp add: buf_persist_def write_fd_def s Let_def)
qed

text \<open>The log is written through at once, so a failing device stops the first operation.\<close>

lemma append_buffered_room:
  assumes "fw_ok s" and "buffer_offset (fst s) + length data < BUFFER_SIZE"
  shows "\<exists>s'. append_buffered wr data s = Inr s' \<and> fw_ok s' \<and> buffer_offset (fst s') = buffer_offset (fst s) + length data"
proof -
  obtain w d where s: "s = (w, d)" by (cases s)
  have "length data < BUFFER_SIZE - buffer_offset w" using assms(2) by (simp add: s)
  with copy_in_ok [of w d data] assms show ?thesis by (auto simp: s append_buffered_def Let_def)
qed

lemma AddLog_short:
  assumes wr: "short_writes wr" and ok: "fw_ok s" and room: "buffer_offset (fst s) + 8 + length rec < BUFFER_SIZE"
  shows "AddLog crc wr rec s = Inl Assert_Failed"
proof -
  let ?h = "wal_header (crc rec) (of_nat (length rec))"
  obtain s1 where s1: "append_buffered wr ?h s = Inr s1" "fw_ok s1" "buffer_offset (fst s1) = buffer_offset (fst s) + 8"
    using append_buffered_room [OF ok, of ?h wr] room by auto
  have h: "append_file wr ?h (int kHeaderSize) False s = Inr (Success, s1)"
    using s1(1) by (simp add: append_file_def kHeaderSize_def)
  have n: "to_int32 (int (length rec)) = int (length rec)" using room by (simp add: BUFFER_SIZE_def)
  show ?thesis
  proof (cases "rec = []")
    case True
    have "sync_file wr s1 = Inl Assert_Failed"
      using buf_persist_short [OF wr s1(2), of "buffer_offset (fst s1)"] s1(3) room
      by (simp add: sync_file_def flush_file_def)
    moreover have "append_file wr rec (to_int32 (int (length rec))) True s1 = Inr (Success, s1)"
      by (simp add: True append_file_def)
    ultimately show ?thesis using h by (simp add: AddLog_def Let_def)
  next
    case False
    obtain s2 where s2: "append_buffered wr rec s1 = Inr s2" "fw_ok s2"
      "buffer_offset (fst s2) = buffer_offset (fst s1) + length rec"
      using append_buffered_room [OF s1(2), of rec wr] s1(3) room by auto
    have "append_file wr rec (int (length rec)) True s1 = Inl Assert_Failed"
      using False s2(1) buf_persist_short [OF wr s2(2), of "buffer_offset (fst s2)"] s2(3) s1(3) room
      by (simp add: append_file_def)
    then show ?thesis using h n by (simp add: AddLog_def Let_def)
  qed
qed

lemma write_wal_short:
  assumes "short_writes (env_wr e)" and "fw_ok (wal_writer s, disk s)" and "buffer_offset (wal_writer s) = 0"
    and "length key < 2 ^ 24" and "length vl < 2 ^ 32 - 1"
  shows "write_wal e key vl s = Inl Assert_Failed"
proof -
  obtain buf where buf: "EncodeKV key vl = Inr buf" "view_of_chars buf = Inr (c_str buf)" "length (c_str buf) \<le> 3"
    using wal_payload [OF assms(4,5)] by blast
  have "AddLog (env_crc e) (env_wr e) (c_str buf) (wal_writer s, disk s) = Inl Assert_Failed"
    using assms(3) buf(3) by (intro AddLog_short [OF assms(1,2)]) (simp add: BUFFER_SIZE_def)
  with buf(1,2) show ?thesis by (simp add: write_wal_def)
qed

lemma session_short:
  assumes wr: "short_writes (env_wr e)" and at: "opens_at opts d" and ok: "op_ok w"
  shows "session e opts (w # ws) d = Inl Assert_Failed"
proof -
  have p: "WAL_DIR opts \<notin> dirs d" "47 \<in> set (WAL_DIR opts)" "parent_free (WAL_DIR opts) d"
    using at by (simp_all add: opens_at_def)
  obtain x d' where x: "FileWriter (WAL_DIR opts) True d = Inr (x, d')" "fw_ok (x, d')"
    by (rule FileWriter_opens [OF p, of True]) blast
  have "buffer_offset x = 0"
    using x(1) by (auto simp: FileWriter_def bind_res_Inr_iff Let_def assert_res_Inr_iff split_def)
  moreover obtain s where s: "DBImpl opts d = Inr s" "wal_writer s = x" "disk s = d'"
    by (simp add: DBImpl_def x(1))
  moreover have "length ([] :: bytes) < 2 ^ 32 - 1" by simp
  ultimately have "write_wal e (op_key w) (op_value w) s = Inl Assert_Failed"
    using x(2) ok by (intro write_wal_short [OF wr]; cases w) simp_all
  then have "run_op e w s = Inl Assert_Failed" using ok by (cases w) (simp_all add: DBImpl_Put_def DBImpl_Delete_def)
  with s(1) show ?thesis by (simp add: session_def)
qed

subsection \<open>Properties\<close>



end
