(* ===== verification/Murmur_Loop.thy ===== *)
theory Murmur_Loop
  imports Murmur
begin

section \<open>MurmurHash2 as a loop over a pointer\<close>

text \<open>
  \<open>smallkv::murmur_hash2\<close> of \<open>src/filter/bloom_filter.cpp\<close>, statement by statement: the pointer
  \<open>data\<close> is an offset from \<open>key\<close>, \<open>len\<close> is the unsigned counter that the loop counts down, the
  \<open>switch\<close> falls through from each case to the next, and every byte is read through the
  pointer. It agrees with the recursive definition that the Bloom filter is built on.
\<close>

function hash_loop :: "bytes \<Rightarrow> nat \<Rightarrow> u32 \<Rightarrow> u32 \<Rightarrow> (nat \<times> u32 \<times> u32) res" where
  "hash_loop key data len h =
     (if 4 \<le> len then
        bind_res (read_at key data 4) (\<lambda>bs.
          let k = read_u32 (bs ! 0) (bs ! 1) (bs ! 2) (bs ! 3);
              k = k * murmur_m;
              k = k XOR drop_bit murmur_r k;
              k = k * murmur_m;
              h = h * murmur_m;
              h = h XOR k
          in hash_loop key (data + 4) (len - 4) h)
      else Inr (data, len, h))"
  by pat_completeness auto
termination
proof (relation "measure (\<lambda>(key, data, len, h). unat len)")
  fix len :: u32
  assume "4 \<le> len"
  then have "unat (len - 4) < unat len" by (simp add: unat_sub word_le_nat_alt)
  then show "((key, data + 4, len - 4, h), key, data, len, h') \<in> measure (\<lambda>(key, data, len, h). unat len)" for key :: bytes and data h h'
    by simp
qed simp

declare hash_loop.simps [simp del]

text \<open>The three cases of the \<open>switch\<close>, each followed by the next.\<close>

definition tail_case1 :: "bytes \<Rightarrow> nat \<Rightarrow> u32 \<Rightarrow> u32 res" where
  "tail_case1 key data h = bind_res (read_at key data 1) (\<lambda>bs. Inr ((h XOR ucast (bs ! 0)) * murmur_m))"

definition tail_case2 :: "bytes \<Rightarrow> nat \<Rightarrow> u32 \<Rightarrow> u32 res" where
  "tail_case2 key data h =
     bind_res (read_at key (data + 1) 1) (\<lambda>bs. tail_case1 key data (h XOR push_bit 8 (ucast (bs ! 0))))"

definition tail_case3 :: "bytes \<Rightarrow> nat \<Rightarrow> u32 \<Rightarrow> u32 res" where
  "tail_case3 key data h =
     bind_res (read_at key (data + 2) 1) (\<lambda>bs. tail_case2 key data (h XOR push_bit 16 (ucast (bs ! 0))))"

definition hash_tail :: "bytes \<Rightarrow> nat \<Rightarrow> u32 \<Rightarrow> u32 \<Rightarrow> u32 res" where
  "hash_tail key data len h =
     (if len = 3 then tail_case3 key data h
      else if len = 2 then tail_case2 key data h
      else if len = 1 then tail_case1 key data h
      else Inr h)"

definition bloom_murmur_hash2 :: "bytes \<Rightarrow> u32 \<Rightarrow> u32 res" where
  "bloom_murmur_hash2 key len =
     bind_res (hash_loop key 0 len (murmur_seed XOR len)) (\<lambda>(data, len, h).
     bind_res (hash_tail key data len h) (\<lambda>h.
       let h = h XOR drop_bit 13 h;
           h = h * murmur_m;
           h = h XOR drop_bit 15 h
       in Inr h))"

subsection \<open>Agreement with the recursive definition\<close>

definition rest_of :: "bytes \<Rightarrow> nat \<Rightarrow> u32 \<Rightarrow> bytes" where
  "rest_of key data len = take (unat len) (drop data key)"

lemma unat_minus_4: "4 \<le> (len :: u32) \<Longrightarrow> unat (len - 4) = unat len - 4"
  by (simp add: unat_sub)

lemma take_bytes:
  "data + 1 \<le> length key \<Longrightarrow> take 1 (drop data key) = [key ! data]"
  "data + 2 \<le> length key \<Longrightarrow> take 2 (drop data key) = [key ! data, key ! (data + 1)]"
  "data + 3 \<le> length key \<Longrightarrow> take 3 (drop data key) = [key ! data, key ! (data + 1), key ! (data + 2)]"
  "data + 4 \<le> length key \<Longrightarrow> take 4 (drop data key) = [key ! data, key ! (data + 1), key ! (data + 2), key ! (data + 3)]"
  by (rule nth_equalityI; auto simp: nth_Cons' less_Suc_eq eval_nat_numeral)+

lemma four_bytes:
  assumes "data + n \<le> length (key :: bytes)" and "4 \<le> n"
  shows "take n (drop data key) = key ! data # key ! (data + 1) # key ! (data + 2) # key ! (data + 3)
           # take (n - 4) (drop (data + 4) key)"
proof -
  have "take n (drop data key) = take 4 (drop data key) @ take (n - 4) (drop 4 (drop data key))"
    using assms(2) by (metis le_add_diff_inverse take_add)
  with take_bytes(4) [of data key] assms show ?thesis by (simp add: add.commute)
qed

text \<open>With enough bytes behind the pointer the loop and the tail compute the recursive function.\<close>

lemma hash_tail_ok:
  assumes "data + unat len \<le> length key" and "len < 4"
  shows "hash_tail key data len h = Inr (murmur_loop h (rest_of key data len))"
proof -
  have "unat len < 4" using assms(2) by (simp add: word_less_nat_alt)
  then consider "unat len = 0" | "unat len = 1" | "unat len = 2" | "unat len = 3" by linarith
  then show ?thesis
  proof cases
    case 1
    then have "len = 0" by (simp add: unat_eq_zero)
    then show ?thesis by (simp add: hash_tail_def rest_of_def)
  next
    case 2
    then have "len = 1" by (simp add: word_unat_eq_iff)
    with 2 assms(1) take_bytes(1) [of data key] show ?thesis
      by (simp add: rest_of_def hash_tail_def tail_case1_def read_at_def)
  next
    case 3
    then have "len = 2" by (simp add: word_unat_eq_iff)
    with 3 assms(1) take_bytes(2) [of data key] take_bytes(1) [of data key] take_bytes(1) [of "data + 1" key] show ?thesis
      unfolding rest_of_def 3 by (simp add: hash_tail_def tail_case2_def tail_case1_def read_at_def xor.assoc)
  next
    case 4
    then have "len = 3" by (simp add: word_unat_eq_iff)
    with 4 assms(1) take_bytes(3) [of data key] take_bytes(1) [of data key] take_bytes(1) [of "data + 1" key]
      take_bytes(1) [of "data + 2" key] show ?thesis
      unfolding rest_of_def 4 by (simp add: hash_tail_def tail_case3_def tail_case2_def tail_case1_def read_at_def xor.assoc)
  qed
qed

lemma hash_loop_ok:
  assumes "data + unat len \<le> length key"
  shows "bind_res (hash_loop key data len h) (\<lambda>(data, len, h). hash_tail key data len h) =
           Inr (murmur_loop h (rest_of key data len))"
  using assms
proof (induction key data len h rule: hash_loop.induct)
  case (1 key data len h)
  show ?case
  proof (cases "4 \<le> len")
    case True
    then have n: "4 \<le> unat len" by (simp add: word_le_nat_alt)
    let ?bs = "[key ! data, key ! (data + 1), key ! (data + 2), key ! (data + 3)]"
    let ?h = "(h * murmur_m) XOR mix_k (read_u32 (?bs ! 0) (?bs ! 1) (?bs ! 2) (?bs ! 3))"
    have "data + 4 \<le> length key" using 1(2) n by simp
    then have r: "read_at key data 4 = Inr ?bs" unfolding read_at_def take_bytes(4) [OF \<open>data + 4 \<le> length key\<close>] by simp
    have rest: "rest_of key data len = key ! data # key ! (data + 1) # key ! (data + 2) # key ! (data + 3)
        # rest_of key (data + 4) (len - 4)"
      unfolding rest_of_def unat_minus_4 [OF True] by (rule four_bytes [OF 1(2) n])
    have le: "data + 4 + unat (len - 4) \<le> length key" using 1(2) n unat_minus_4 [OF True] by simp
    have "hash_loop key data len h = hash_loop key (data + 4) (len - 4) ?h"
      unfolding hash_loop.simps [of key data len h] if_P [OF True] r bind_res_simps Let_def mix_k_def ..
    moreover have "bind_res (hash_loop key (data + 4) (len - 4) ?h) (\<lambda>(data, len, h). hash_tail key data len h) =
        Inr (murmur_loop ?h (rest_of key (data + 4) (len - 4)))"
      unfolding mix_k_def Let_def by (rule 1(1) [where x = ?bs, OF True refl refl refl refl refl refl le])
    ultimately show ?thesis by (simp add: rest)
  next
    case False
    then have "hash_loop key data len h = Inr (data, len, h)" by (subst hash_loop.simps) simp
    with hash_tail_ok [OF 1(2), of h] False show ?thesis by (simp add: not_le)
  qed
qed

text \<open>With fewer bytes than \<open>len\<close> says some read goes past the end.\<close>

lemma hash_loop_short:
  assumes "length key < data + unat len" and "data \<le> length key"
  shows "bind_res (hash_loop key data len h) (\<lambda>(data, len, h). hash_tail key data len h) = Inl Undefined_Behaviour"
  using assms
proof (induction key data len h rule: hash_loop.induct)
  case (1 key data len h)
  show ?case
  proof (cases "4 \<le> len")
    case True
    then have n: "4 \<le> unat len" by (simp add: word_le_nat_alt)
    show ?thesis
    proof (cases "data + 4 \<le> length key")
      case enough: True
      let ?bs = "take 4 (drop data key)"
      let ?h = "(h * murmur_m) XOR mix_k (read_u32 (?bs ! 0) (?bs ! 1) (?bs ! 2) (?bs ! 3))"
      have r: "read_at key data 4 = Inr ?bs" using enough by (simp add: read_at_def)
      have lt: "length key < data + 4 + unat (len - 4)" using 1(2) n unat_minus_4 [OF True] by simp
      have "hash_loop key data len h = hash_loop key (data + 4) (len - 4) ?h"
        unfolding hash_loop.simps [of key data len h] if_P [OF True] r bind_res_simps Let_def mix_k_def ..
      moreover have "bind_res (hash_loop key (data + 4) (len - 4) ?h) (\<lambda>(data, len, h). hash_tail key data len h) =
          Inl Undefined_Behaviour"
        unfolding mix_k_def Let_def by (rule 1(1) [where x = ?bs, OF True refl refl refl refl refl refl lt enough])
      ultimately show ?thesis by simp
    next
      case False
      then have "read_at key data 4 = Inl Undefined_Behaviour" by (simp add: read_at_def)
      then show ?thesis by (subst hash_loop.simps) (simp add: True)
    qed
  next
    case False
    then have "hash_loop key data len h = Inr (data, len, h)" by (subst hash_loop.simps) simp
    moreover have "hash_tail key data len h = Inl Undefined_Behaviour"
    proof -
      have "unat len < 4" using False by (simp add: not_le word_less_nat_alt)
      moreover have "unat len = 1 \<Longrightarrow> len = 1" "unat len = 2 \<Longrightarrow> len = 2" "unat len = 3 \<Longrightarrow> len = 3" "unat len = 0 \<Longrightarrow> len = 0"
        by (simp_all add: word_unat_eq_iff)
      ultimately consider "len = 1" "unat len = 1" | "len = 2" "unat len = 2" | "len = 3" "unat len = 3" | "len = 0" "unat len = 0"
        by linarith
      then show ?thesis
      proof cases
        case 4
        then show ?thesis using 1(2,3) by simp
      qed (use 1(2) in \<open>simp_all add: hash_tail_def tail_case3_def tail_case2_def tail_case1_def read_at_def\<close>)
    qed
    ultimately show ?thesis by simp
  qed
qed

lemma bloom_murmur_bind:
  "bloom_murmur_hash2 key len =
     bind_res (bind_res (hash_loop key 0 len (murmur_seed XOR len)) (\<lambda>(data, len, h). hash_tail key data len h))
       (\<lambda>h. Inr (finish h))"
  by (cases "hash_loop key 0 len (murmur_seed XOR len)")
    (auto simp: bloom_murmur_hash2_def finish_def Let_def bind_res_def split: sum.splits)

subsection \<open>Properties\<close>

text \<open>
  The hash function of the Bloom filter, with its loop over a pointer, its unsigned countdown
  and its falling-through switch, computes for every key and length what the recursive
  definition computes, and both read past the end for exactly the same inputs.
\<close>

theorem murmur_copies_agree: "bloom_murmur_hash2 key len = murmur_hash2 key len"
proof (cases "unat len \<le> length key")
  case True
  then show ?thesis
    using hash_loop_ok [of 0 len key] by (simp add: bloom_murmur_bind murmur_hash2_def rest_of_def)
next
  case False
  then show ?thesis
    using hash_loop_short [of key 0 len] by (simp add: bloom_murmur_bind murmur_hash2_def)
qed

end
