(* ===== verification/Allocator.thy ===== *)
theory Allocator
  imports Db_Prelude
begin

section \<open>The allocator and the logger\<close>

text \<open>
  \<open>DefaultAlloc\<close> (\<open>src/memory_pool/default_allocator.h\<close>, \<open>default_allocator.cpp\<close>) over a heap of
  blocks: an address is a number, \<open>0\<close> the null pointer. Where \<open>malloc\<close> places a block is the
  parameter \<open>pick\<close> (\<open>0\<close> when it fails), what a new block holds is \<open>junk\<close>; \<open>good_malloc\<close> says that
  a block is placed where none is. A size of \<open>int32_t\<close> becomes a \<open>size_t\<close>. \<open>get_logger\<close>
  (\<open>src/log/log.cpp\<close>) holds its mutex for the whole call, so a call is one step; the loggers it
  can create, with their level set, belong to another library and are the parameter \<open>console\<close>.
\<close>

type_synonym blocks = "nat \<Rightarrow> bytes option"

definition size_t_of :: "int \<Rightarrow> nat" where
  "size_t_of n = nat (n mod 2 ^ 64)"

definition good_malloc :: "(blocks \<Rightarrow> nat \<Rightarrow> nat) \<Rightarrow> bool" where
  "good_malloc pick \<longleftrightarrow> (\<forall>m n. pick m n \<noteq> 0 \<longrightarrow> m (pick m n) = None)"

definition new_block :: "(nat \<Rightarrow> byte) \<Rightarrow> nat \<Rightarrow> bytes" where
  "new_block junk n = map junk [0..<n]"

definition Allocate :: "(blocks \<Rightarrow> nat \<Rightarrow> nat) \<Rightarrow> (nat \<Rightarrow> byte) \<Rightarrow> int \<Rightarrow> blocks \<Rightarrow> nat \<times> blocks" where
  "Allocate pick junk n m =
     (let p = pick m (size_t_of n)
      in if p = 0 then (0, m) else (p, m(p \<mapsto> new_block junk (size_t_of n))))"

definition Deallocate :: "nat \<Rightarrow> int \<Rightarrow> blocks \<Rightarrow> blocks res" where
  "Deallocate p n m =
     (if p = 0 then Inr m else if m p = None then Inl Undefined_Behaviour else Inr (m(p := None)))"

definition Reallocate ::
  "(blocks \<Rightarrow> nat \<Rightarrow> nat) \<Rightarrow> (nat \<Rightarrow> byte) \<Rightarrow> nat \<Rightarrow> int \<Rightarrow> int \<Rightarrow> blocks \<Rightarrow> (nat \<times> blocks) res" where
  "Reallocate pick junk p old_size new_size m =
     (if p = 0 then Inr (Allocate pick junk new_size m)
      else
        (case m p of None \<Rightarrow> Inl Undefined_Behaviour
         | Some c \<Rightarrow>
             (let n = size_t_of new_size; q = pick (m(p := None)) n
              in if q = 0 then Inr (0, m)
                 else Inr (q, m(p := None, q \<mapsto> take n (c @ new_block junk n))))))"

lemma size_t_of_nat: "0 \<le> n \<Longrightarrow> n < 2 ^ 31 \<Longrightarrow> size_t_of n = nat n"
  by (simp add: size_t_of_def)

subsection \<open>The logger\<close>

record 'l log_state =
  logger :: "'l option"
  loggers_made :: nat

definition no_logger :: "'l log_state" where
  "no_logger = \<lparr>logger = None, loggers_made = 0\<rparr>"

definition get_logger :: "(nat \<Rightarrow> 'l) \<Rightarrow> 'l log_state \<Rightarrow> 'l \<times> 'l log_state" where
  "get_logger console s =
     (case logger s of
        None \<Rightarrow> (let l = console (loggers_made s)
                 in (l, s\<lparr>logger := Some l, loggers_made := loggers_made s + 1\<rparr>))
      | Some l \<Rightarrow> (l, s))"

text \<open>Calls of any threads, in the order in which they take the mutex.\<close>

fun get_loggers :: "(nat \<Rightarrow> 'l) \<Rightarrow> nat \<Rightarrow> 'l log_state \<Rightarrow> 'l list \<times> 'l log_state" where
  "get_loggers console 0 s = ([], s)"
| "get_loggers console (Suc n) s =
     (let (l, s1) = get_logger console s; (ls, s2) = get_loggers console n s1 in (l # ls, s2))"

lemma get_loggers_same:
  "logger s = Some l \<Longrightarrow> get_loggers console n s = (replicate n l, s)"
  by (induction n) (simp_all add: get_logger_def)

subsection \<open>Properties\<close>

text \<open>
  Allocating never hands out a block that is in use and changes no other block; growing a
  block keeps its content at the front and every other block; giving a block back twice is
  undefined, whatever size is passed.
\<close>

theorem alloc_keeps_blocks:
  assumes "good_malloc pick" and "0 \<le> n" and "n < 2 ^ 31" and "m p = Some c" and "p \<noteq> 0"
  shows "(case Allocate pick junk n m of (q, m') \<Rightarrow>
            q = 0 \<and> m' = m \<or> m q = None \<and> (\<exists>b. m' q = Some b \<and> length b = nat n) \<and> (\<forall>r. r \<noteq> q \<longrightarrow> m' r = m r)) \<and>
         (case Reallocate pick junk p old n m of Inl f \<Rightarrow> False
          | Inr (q, m') \<Rightarrow> q = 0 \<and> m' = m \<or>
              (\<exists>b. m' q = Some b \<and> length b = nat n \<and> take (length c) b = take (nat n) c) \<and>
              (\<forall>r. r \<noteq> p \<and> r \<noteq> q \<longrightarrow> m' r = m r)) \<and>
         bind_res (Deallocate p k m) (Deallocate p k') = Inl Undefined_Behaviour"
proof -
  have n: "size_t_of n = nat n" using assms(2,3) by (rule size_t_of_nat)
  have "pick m (nat n) \<noteq> 0 \<Longrightarrow> m (pick m (nat n)) = None" using assms(1) by (simp add: good_malloc_def)
  moreover have "take (length c) (take (nat n) (c @ new_block junk (nat n))) = take (nat n) c"
    by (simp add: min_def take_take)
  ultimately show ?thesis
    using assms(4,5) by (auto simp: Allocate_def Reallocate_def Deallocate_def Let_def n new_block_def)
qed

theorem alloc_keeps_blocks_witness:
  "bind_res (Deallocate 1 8 [1 \<mapsto> [7]]) (Deallocate 1 0) = Inl Undefined_Behaviour \<and>
   (\<exists>q m' b. Reallocate (\<lambda>m n. if m 2 = None then 2 else 0) (\<lambda>i. 0) 1 9 3 [1 \<mapsto> [7]] = Inr (q, m') \<and> m' q = Some b \<and> hd b = 7)"
proof -
  let ?pick = "\<lambda>m n. if (m :: blocks) 2 = None then 2 else 0"
  have g: "good_malloc ?pick" by (simp add: good_malloc_def)
  let ?m = "[1 \<mapsto> [7]] :: blocks"
  have m: "?m 1 = Some [7]" by simp
  have n: "(0 :: int) \<le> 3" "(3 :: int) < 2 ^ 31" "(1 :: nat) \<noteq> 0" by simp_all
  have "bind_res (Deallocate 1 8 [1 \<mapsto> [7]]) (Deallocate 1 0) = Inl Undefined_Behaviour"
    by (rule alloc_keeps_blocks [where m = ?m and p = 1, OF g n(1,2) m n(3), THEN conjunct2, THEN conjunct2])
  moreover have "Reallocate ?pick (\<lambda>i. 0) 1 9 3 [1 \<mapsto> [7]] = Inr (2, [2 \<mapsto> [7, 0, 0]])"
    by (simp add: Reallocate_def Let_def size_t_of_def new_block_def map_replicate_const numeral_2_eq_2 numeral_3_eq_3 fun_upd_twist)
  ultimately show ?thesis by fastforce
qed

text \<open>
  However many calls of however many threads ask for the logger, one logger is made and every
  call gets it.
\<close>

theorem logger_once:
  assumes "0 < n"
  shows "get_loggers console n no_logger =
           (replicate n (console 0), \<lparr>logger = Some (console 0), loggers_made = 1\<rparr>)"
proof -
  obtain m where "n = Suc m" using assms gr0_conv_Suc by blast
  then show ?thesis by (simp add: get_logger_def no_logger_def get_loggers_same Let_def)
qed

theorem logger_once_witness: "get_loggers (\<lambda>i. i) 3 no_logger = ([0, 0, 0], \<lparr>logger = Some 0, loggers_made = 1\<rparr>)"
  using logger_once [of 3 "\<lambda>i. i"] by (simp add: eval_nat_numeral)

end
