(* ===== verification/Db_Rollover.thy ===== *)
theory Db_Rollover
  imports Db_Correct
begin

section \<open>A table that is full\<close>

text \<open>
  \<open>Put\<close> of \<open>src/db/db_impl.cpp\<close> when the table exceeds its limit: \<open>MemTableToSST\<close> creates the
  next table file, hands it to \<open>ConvertToL1SST\<close> and \<open>Put\<close> starts an empty table. What
  \<open>ConvertToL1SST\<close> does is a hypothesis: it ends normally with a writer that can be destroyed,
  be it open or closed, and no file has changed but the one it was given. The expression for the size of the Bloom filter is assumed to be negative and in
  range, as it is for the logarithm of one hundredth.
\<close>

definition only_writes :: "writer \<Rightarrow> writer \<Rightarrow> bool" where
  "only_writes s s' \<longleftrightarrow> dirs (snd s') = dirs (snd s) \<and> files (snd s') (fw_path (fst s)) \<noteq> None \<and>
     (\<forall>p. p \<noteq> fw_path (fst s) \<longrightarrow> files (snd s') p = files (snd s) p)"

definition converts :: "env \<Rightarrow> bool" where
  "converts e \<longleftrightarrow> (\<forall>m path b. fw_ok (fileWriter b) \<longrightarrow>
     (\<exists>b' w. env_convert e m path b = Inr b' \<and> destroy_file (env_wr e) (fileWriter b') = Inr w \<and>
             only_writes (fileWriter b) w))"

definition sizes_filter :: "env \<Rightarrow> bool" where
  "sizes_filter e \<longleftrightarrow> (\<forall>n. 0 < n \<and> n < 2 ^ 27 \<longrightarrow> env_logq e n (1 / 100) < 0 \<and> - (2 ^ 31) + 7 < env_logq e n (1 / 100))"

definition table_path :: "Options \<Rightarrow> bytes" where
  "table_path opts = STORAGE_DIR opts @ str ''/'' @ BuildSSTPath 0 (LISST_NUM opts)"

text \<open>No file is in the way of the storage directory, and the table file is not the log.\<close>

definition storage_free :: "db_impl \<Rightarrow> bool" where
  "storage_free s \<longleftrightarrow> STORAGE_DIR (options s) \<noteq> [] \<and>
     (\<forall>q \<in> set (ancestors (STORAGE_DIR (options s))). files (disk s) q = None) \<and>
     table_path (options s) \<notin> dirs (disk s) \<and> table_path (options s) \<noteq> fw_path (wal_writer s)"

lemma no_slash_in_name: "47 \<notin> set (BuildSSTPath n i)"
proof -
  have "47 \<notin> set (to_string m)" for m using to_string_digits [of m] by (auto simp: is_digit_def)
  then show ?thesis by (auto simp: BuildSSTPath_def str_def)
qed

lemma dropWhile_prefix: "\<forall>x \<in> set xs. P x \<Longrightarrow> dropWhile P (xs @ ys) = dropWhile P ys"
  by (induction xs) auto

lemma parent_dir_table [simp]: "parent_dir (table_path opts) = STORAGE_DIR opts"
proof -
  have "\<forall>b \<in> set (rev (BuildSSTPath 0 (LISST_NUM opts))). b \<noteq> 47" using no_slash_in_name by (metis set_rev)
  then show ?thesis by (simp add: parent_dir_def table_path_def str_def dropWhile_prefix)
qed

lemma table_path_not_sst: "STORAGE_DIR opts @ str ''level_0_sst_0.sst'' \<noteq> table_path opts"
  by (simp add: table_path_def str_def)

lemma FileWriter_effect:
  assumes "FileWriter path app_mode d = Inr (w, d')"
  shows "fw_path w = path" and "p \<noteq> path \<Longrightarrow> files d' p = files d p"
    and "dirs d' \<subseteq> dirs d \<union> set (ancestors (parent_dir path))"
  using assms
  by (auto simp: FileWriter_def open_write_def create_directories_def bind_res_Inr_iff assert_res_Inr_iff
      Let_def split: if_splits)

lemma storage_free_log:
  assumes "same_file (wal_writer s, disk s) (wal_writer s', disk s')" and "options s' = options s"
    and "fw_ok (wal_writer s, disk s)" and "storage_free s"
  shows "storage_free s'"
proof -
  have "files (disk s) (fw_path (wal_writer s)) \<noteq> None" using assms(3) by (simp add: fw_ok_def)
  then have "q \<noteq> fw_path (wal_writer s)" if "q \<in> set (ancestors (STORAGE_DIR (options s)))" for q
    using assms(4) that by (auto simp: storage_free_def)
  with assms(1,2,4) show ?thesis by (auto simp: storage_free_def same_file_def)
qed

lemma table_entries:
  assumes "mt_abs m M"
  shows "MemTable_GetSize m = int (card (dom M))"
proof -
  from assms obtain kvs where rep: "mt_rep m kvs" and M: "M = map_of kvs" by (auto simp: mt_abs_def)
  have "distinct (map fst kvs)" using mt_rep_sorted [OF rep] by (simp add: strict_sorted_iff)
  then show ?thesis
    using mt_rep_counts(1) [OF rep] by (simp add: M dom_map_of_conv_image_fst distinct_card flip: set_map length_map)
qed

lemma renew_table_ok:
  assumes ok: "db_ok e s M ls" and M: "M \<noteq> Map.empty" "card (dom M) < 2 ^ 27"
    and conv: "converts e" "sizes_filter e" and free: "storage_free s"
  shows "\<exists>s'. renew_table e s = Inr s' \<and> db_ok e s' Map.empty ls \<and> wal_writer s' = wal_writer s \<and>
           files (disk s') (table_path (options s)) \<noteq> None \<and>
           options s' = (options s)\<lparr>LISST_NUM := LISST_NUM (options s) + 1\<rparr> \<and>
           (\<forall>p. p \<noteq> table_path (options s) \<longrightarrow> files (disk s') p = files (disk s) p) \<and>
           dirs (disk s') \<subseteq> dirs (disk s) \<union> set (ancestors (STORAGE_DIR (options s)))"
proof -
  let ?p = "table_path (options s)" and ?n = "int (card (dom M))"
  have abs: "mt_abs (mem_table s) M" and wr: "full_writes (env_wr e)" using ok by (simp_all add: db_ok_def)
  have "finite (dom M)" using abs by (auto simp: mt_abs_def finite_dom_map_of)
  with M have n: "0 < ?n" "?n < 2 ^ 27" by (simp_all add: card_gt_0_iff)
  have size: "to_int32 (MemTable_GetSize (mem_table s)) = ?n" using table_entries [OF abs] n by simp
  have slash: "47 \<in> set ?p" by (simp add: table_path_def str_def)
  have p: "?p \<notin> dirs (disk s)" "parent_free ?p (disk s)"
    using free by (simp_all add: storage_free_def parent_free_def)
  obtain w d where w: "FileWriter ?p True (disk s) = Inr (w, d)" "fw_ok (w, d)"
    by (rule FileWriter_opens [OF p(1) slash p(2), of True]) blast
  note made = FileWriter_effect [OF w(1)]
  have quot: "env_logq e ?n (1 / 100) < 0" "- (2 ^ 31) + 7 < env_logq e ?n (1 / 100)"
    using conv(2) n by (simp_all add: sizes_filter_def)
  obtain f where "BloomFilter ?n (env_logq e ?n (1 / 100)) = Inr f"
    by (rule BloomFilter_usable [OF n(1) quot])
  then obtain b where b: "SSTableBuilder (env_logq e) ?n (w, d) (1 / 100) = Inr b" "fileWriter b = (w, d)"
    by (simp add: SSTableBuilder_def FilterBlockBuilder_def)
  from conv(1) b(2) w(2) have "\<exists>b' x. env_convert e (mem_table s) ?p b = Inr b' \<and>
      destroy_file (env_wr e) (fileWriter b') = Inr x \<and> only_writes (w, d) x"
    unfolding converts_def by metis
  then obtain b' w2 d2 where b': "env_convert e (mem_table s) ?p b = Inr b'"
    and d2: "destroy_file (env_wr e) (fileWriter b') = Inr (w2, d2)" "only_writes (w, d) (w2, d2)"
    by (metis surj_pair)
  let ?opt = "(options s)\<lparr>LISST_NUM := LISST_NUM (options s) + 1\<rparr>"
  let ?s = "s\<lparr>options := ?opt, disk := d2, mem_table := MemTable\<rparr>"
  have "renew_table e s = Inr ?s"
    unfolding renew_table_def MemTableToSST_def Let_def table_path_def [symmetric] size
    by (simp add: w(1) b(1) b'(1) d2(1))
  moreover have touched: "files d2 q = files (disk s) q" if "q \<noteq> ?p" for q
    using that made(1) made(2) [OF that] d2(2) by (simp add: only_writes_def)
  moreover have "db_ok e ?s Map.empty ls"
    using ok mt_abs_MemTable touched [of "fw_path (wal_writer s)"] free
    by (auto simp: db_ok_def fw_ok_def storage_free_def)
  moreover have "dirs d2 \<subseteq> dirs (disk s) \<union> set (ancestors (STORAGE_DIR (options s)))"
    using made(3) d2(2) by (simp add: only_writes_def)
  moreover have "files d2 ?p \<noteq> None" using d2(2) made(1) by (simp add: only_writes_def)
  ultimately show ?thesis by (intro exI [of _ ?s]) simp
qed

text \<open>What the write that fills the table leaves behind.\<close>

definition rolled_over :: "env \<Rightarrow> bytes \<Rightarrow> db_impl \<Rightarrow> (bytes \<times> bytes) list list \<Rightarrow> db_impl \<Rightarrow> bool" where
  "rolled_over e key s ls s' \<longleftrightarrow> db_ok e s' Map.empty ls \<and> fw_path (wal_writer s') = fw_path (wal_writer s) \<and>
     fw_total (wal_writer s', disk s') = fw_total (wal_writer s, disk s) @ wal_record (env_crc e) (wal_log key) \<and>
     files (disk s') (table_path (options s)) \<noteq> None \<and>
     options s' = (options s)\<lparr>LISST_NUM := LISST_NUM (options s) + 1\<rparr> \<and>
     (\<forall>p. p \<noteq> table_path (options s) \<and> p \<noteq> fw_path (wal_writer s) \<longrightarrow> files (disk s') p = files (disk s) p) \<and>
     dirs (disk s') \<subseteq> dirs (disk s) \<union> set (ancestors (STORAGE_DIR (options s)))"

lemma renew_rolls_over:
  assumes ok: "db_ok e s3 M ls" "fw_ok (wal_writer s, disk s)" and M: "M \<noteq> Map.empty" "card (dom M) < 2 ^ 27"
    and log: "wrote_log e key s s3" and opt: "options s3 = options s"
    and conv: "converts e" "sizes_filter e" and free: "storage_free s"
  shows "\<exists>s'. renew_table e s3 = Inr s' \<and> rolled_over e key s ls s'"
proof -
  have same: "same_file (wal_writer s, disk s) (wal_writer s3, disk s3)" using log by (simp add: wrote_log_def)
  have free3: "storage_free s3" by (rule storage_free_log [OF same opt ok(2) free])
  from renew_table_ok [OF ok(1) M conv this] obtain s4 where s4: "renew_table e s3 = Inr s4" "db_ok e s4 Map.empty ls"
    "wal_writer s4 = wal_writer s3" "files (disk s4) (table_path (options s)) \<noteq> None"
    "options s4 = (options s)\<lparr>LISST_NUM := LISST_NUM (options s) + 1\<rparr>"
    "\<forall>p. p \<noteq> table_path (options s) \<longrightarrow> files (disk s4) p = files (disk s3) p"
    "dirs (disk s4) \<subseteq> dirs (disk s3) \<union> set (ancestors (STORAGE_DIR (options s)))"
    unfolding opt by blast
  have log_path: "fw_path (wal_writer s3) \<noteq> table_path (options s)" using free3 by (auto simp: storage_free_def opt)
  have "fw_total (wal_writer s4, disk s4) = fw_total (wal_writer s3, disk s3)"
    using s4(6) [rule_format, OF log_path] by (simp add: fw_total_def fw_stored_def s4(3))
  with same s4 log show ?thesis by (intro exI [of _ s4]) (simp add: same_file_def rolled_over_def wrote_log_def)
qed

lemma update_nonempty: "M(k \<mapsto> v) \<noteq> Map.empty"
  by (metis fun_upd_same option.distinct(1))

lemma Put_rolls_over:
  assumes ok: "db_ok e s M ls" and len: "length key < 2 ^ 24" "length vl < 2 ^ 32 - 1"
    and "key \<noteq> []" and "vl \<noteq> []"
    and full: "(of_nat (table_bytes (M(c_str key \<mapsto> c_str vl))) :: u64) > MEM_TABLE_MAX_SIZE (options s)"
    and few: "card (dom (M(c_str key \<mapsto> c_str vl))) < 2 ^ 27"
    and conv: "converts e" "sizes_filter e" and free: "storage_free s"
  shows "\<exists>s'. DBImpl_Put e coin now key vl s = Inr (Success, s') \<and> rolled_over e key s (put_shards e s key vl ls) s'"
proof -
  let ?M = "M(c_str key \<mapsto> c_str vl)"
  obtain s3 where s3: "DBImpl_Put e coin now key vl s =
      (if mem_usage_bits s3 > MEM_TABLE_MAX_SIZE (options s)
       then bind_res (renew_table e s3) (\<lambda>s4. Inr (Success, s4)) else Inr (Success, s3))"
    "db_ok e s3 ?M (put_shards e s key vl ls)" "options s3 = options s"
    "wrote_log e key s s3"
    by (rule Put_up_to_limit [OF ok len assms(4,5)])
  have "mem_usage_bits s3 = of_nat (table_bytes ?M)"
    using s3(2) by (intro mem_usage_bits_room) (simp add: db_ok_def)
  moreover have "fw_ok (wal_writer s, disk s)" using ok by (simp add: db_ok_def)
  from renew_rolls_over [OF s3(2) this update_nonempty few s3(4,3) conv free]
  obtain s4 where "renew_table e s3 = Inr s4" "rolled_over e key s (put_shards e s key vl ls) s4" by blast
  ultimately show ?thesis using s3(1) full by (intro exI [of _ s4]) simp
qed

lemma Delete_rolls_over:
  assumes ok: "db_ok e s M ls" and len: "length key < 2 ^ 24" and "key \<noteq> []"
    and full: "(of_nat (table_bytes (M(c_str key \<mapsto> []))) :: u64) \<ge> MEM_TABLE_MAX_SIZE (options s)"
    and few: "card (dom (M(c_str key \<mapsto> []))) < 2 ^ 27"
    and conv: "converts e" "sizes_filter e" and free: "storage_free s"
  shows "\<exists>s'. DBImpl_Delete e coin key s = Inr (Success, s') \<and> rolled_over e key s (erase_shards e (c_str key) ls) s'"
proof -
  let ?M = "M(c_str key \<mapsto> [])" and ?ls = "erase_shards e (c_str key) ls"
  obtain s3 where s3: "DBImpl_Delete e coin key s =
      (if mem_usage_bits s3 \<ge> MEM_TABLE_MAX_SIZE (options s)
       then bind_res (renew_table e s3) (\<lambda>s4. Inr (Success, s4)) else Inr (Success, s3))"
    "db_ok e s3 ?M ?ls" "options s3 = options s" "wrote_log e key s s3"
    by (rule Delete_up_to_limit [OF ok len assms(3)])
  have "mem_usage_bits s3 = of_nat (table_bytes ?M)"
    using s3(2) by (intro mem_usage_bits_room) (simp add: db_ok_def)
  moreover have "fw_ok (wal_writer s, disk s)" using ok by (simp add: db_ok_def)
  from renew_rolls_over [OF s3(2) this update_nonempty few s3(4,3) conv free]
  obtain s4 where "renew_table e s3 = Inr s4" "rolled_over e key s ?ls s4" by blast
  ultimately show ?thesis using s3(1) full by (intro exI [of _ s4]) simp
qed

text \<open>
  \<open>Get\<close> looks for a name that \<open>MemTableToSST\<close> never writes: after the write that fills the
  table every key that is not cached makes it abort.
\<close>

lemma rolled_over_lost:
  assumes ok: "db_ok e s M ls" and roll: "rolled_over e key s ls' s'" and none: "\<not> access_ok (disk s) (sst_path s)"
    and "k \<noteq> []" and out: "cache_map (env_hash e) ls' (c_str k) = None"
  shows "DBImpl_Get e now k (Some ret) s' = Inl Assert_Failed"
proof -
  have same: "sst_path s' = sst_path s" using roll by (simp add: sst_path_def rolled_over_def)
  have "sst_path s \<noteq> fw_path (wal_writer s)" using ok none by (auto simp: db_ok_def fw_ok_def access_ok_def)
  with roll table_path_not_sst [of "options s"] have "files (disk s') (sst_path s) = files (disk s) (sst_path s)"
    by (simp add: sst_path_def rolled_over_def)
  moreover have "sst_path s \<notin> set (ancestors (STORAGE_DIR (options s)))"
    using ancestors_shorter [of "sst_path s" "STORAGE_DIR (options s)"] by (auto simp: sst_path_def)
  ultimately have gone: "\<not> access_ok (disk s') (sst_path s')"
    using roll none by (auto simp: same access_ok_def rolled_over_def)
  have "db_ok e s' Map.empty ls'" using roll by (simp add: rolled_over_def)
  from Get_unknown [OF this assms(4), of now ret] out gone show ?thesis by (simp add: db_view_def SSTParser_def)
qed

subsection \<open>A tiny table\<close>

text \<open>A limit of one byte and no room in the cache: the first pair is written out.\<close>

definition tiny_options :: Options where
  "tiny_options = MakeOptionsForDebugging\<lparr>MEM_TABLE_MAX_SIZE := 1, CACHE_SIZE := 0\<rparr>"

lemma sample_converts: "converts sample_env" "sizes_filter sample_env"
proof -
  have "\<exists>w. destroy_file all_written s = Inr w \<and> only_writes s w" if ok: "fw_ok s" for s
    using sync_file_ok [OF full_writes_all_written ok]
    by (auto simp: destroy_file_def only_writes_def same_file_def fw_ok_def)
  then show "converts sample_env" by (simp add: converts_def sample_env_def)
  show "sizes_filter sample_env" by (simp add: sizes_filter_def sample_env_def)
qed

lemma tiny_open:
  obtains s where "DBImpl tiny_options sample_fs = Inr s" and "db_ok sample_env s Map.empty sample_shards"
    and "options s = tiny_options" and "storage_free s" and "\<not> access_ok (disk s) (sst_path s)"
proof -
  have p: "WAL_DIR tiny_options \<notin> dirs sample_fs" "47 \<in> set (WAL_DIR tiny_options)"
    "parent_free (WAL_DIR tiny_options) sample_fs"
    by (simp_all add: tiny_options_def MakeOptionsForDebugging_def sample_fs_def str_def parent_free_def parent_dir_def)
  have "full_writes (env_wr sample_env)" by (simp add: sample_env_def full_writes_all_written)
  from DBImpl_opens [OF this p] obtain s where s: "DBImpl tiny_options sample_fs = Inr s"
    "db_ok sample_env s Map.empty sample_shards" "options s = tiny_options"
    unfolding sample_shards_def by blast
  obtain w d where w: "FileWriter (WAL_DIR tiny_options) True sample_fs = Inr (w, d)"
    "wal_writer s = w" "disk s = d"
    using s(1) by (auto simp: DBImpl_def bind_res_Inr_iff)
  note made = FileWriter_effect [OF w(1)]
  have files: "files d p = None" if "p \<noteq> WAL_DIR tiny_options" for p
    using made(2) [OF that] by (simp add: sample_fs_def)
  have dirs: "dirs d \<subseteq> set (ancestors (str ''./output''))"
    using made(3)
    by (simp add: sample_fs_def tiny_options_def MakeOptionsForDebugging_def parent_dir_def str_def)
  have long: "length p \<le> 8" if "p \<in> dirs d" for p
    using dirs that ancestors_shorter [of p "str ''./output''"] by auto
  have wal: "length (WAL_DIR tiny_options) = 20" "length (STORAGE_DIR tiny_options) = 19"
    by (simp_all add: tiny_options_def MakeOptionsForDebugging_def)
  have "storage_free s"
    unfolding storage_free_def w(2,3) made(1) s(3)
  proof (intro conjI ballI)
    show "STORAGE_DIR tiny_options \<noteq> []" using wal(2) by auto
    show "files d q = None" if "q \<in> set (ancestors (STORAGE_DIR tiny_options))" for q
      using ancestors_shorter [OF that] wal by (intro files) auto
    have l: "20 < length (table_path tiny_options)" using wal(2) by (simp add: table_path_def BuildSSTPath_def)
    show "table_path tiny_options \<notin> dirs d" using long [of "table_path tiny_options"] l by auto
    show "table_path tiny_options \<noteq> WAL_DIR tiny_options" using l wal(1) by auto
  qed
  moreover have "\<not> access_ok (disk s) (sst_path s)"
  proof -
    have l: "20 < length (sst_path s)" by (simp add: sst_path_def s(3) wal(2))
    have "sst_path s \<noteq> WAL_DIR tiny_options" using l wal(1) by auto
    then have "files d (sst_path s) = None" by (rule files)
    moreover have "sst_path s \<notin> dirs d" using long [of "sst_path s"] l by auto
    ultimately show ?thesis by (simp add: access_ok_def w(3))
  qed
  ultimately show thesis using that s by blast
qed

lemma tiny_uncached:
  assumes "options s = tiny_options"
  shows "cache_map (env_hash e) (put_shards e s k v sample_shards) k = None"
proof -
  have "shard e k < length sample_shards" "sample_shards ! shard e k = []"
    using sharding_index_less [of "env_hash e" k] by (simp_all add: sample_shards_def shard_def)
  then show ?thesis
    using assms by (simp add: put_shards_def cache_map_def shard_list_def shard_def remember_def tiny_options_def)
qed

subsection \<open>Properties\<close>

text \<open>
  A Delete in a table that has reached its limit does the same: the table goes to a file, and
  every key that is not cached, the deleted one included, makes Get abort.
\<close>

theorem db_delete_rolls_over:
  assumes "db_ok e s M ls" and "length key < 2 ^ 24" and "key \<noteq> []"
    and "(of_nat (table_bytes (M(c_str key \<mapsto> []))) :: u64) \<ge> MEM_TABLE_MAX_SIZE (options s)"
    and "card (dom (M(c_str key \<mapsto> []))) < 2 ^ 27"
    and "converts e" and "sizes_filter e" and "storage_free s" and "\<not> access_ok (disk s) (sst_path s)"
  shows "\<exists>s'. DBImpl_Delete e coin key s = Inr (Success, s') \<and> LISST_NUM (options s') = LISST_NUM (options s) + 1 \<and>
    (\<forall>out now. DBImpl_Get e now key (Some out) s' = Inl Assert_Failed)"
proof -
  obtain s' where s': "DBImpl_Delete e coin key s = Inr (Success, s')" "rolled_over e key s (erase_shards e (c_str key) ls) s'"
    using Delete_rolls_over [OF assms(1-8), of coin] by blast
  have cr: "cache_rep (unat (CACHE_SIZE (options s))) (db_cache s) ls" using assms(1) by (simp add: db_ok_def)
  have "cache_map (env_hash e) (erase_shards e (c_str key) ls) (c_str key) = None"
    using cache_map_erase [OF cr, of "env_hash e" "c_str key"] by (simp add: erase_shards_def shard_def)
  with rolled_over_lost [OF assms(1) s'(2) assms(9,3)] s' show ?thesis
    by (intro exI [of _ s']) (simp add: rolled_over_def)
qed



end
