(* ===== verification/Db_Engine.thy ===== *)
theory Db_Engine
  imports Db_Rollover Db_Sessions
begin

section \<open>The engine against its specification\<close>

text \<open>
  Any sequence of \<open>Put\<close>, \<open>Delete\<close> and \<open>Get\<close> on a database (\<open>DBImpl\<close> of \<open>src/db/db_impl.cpp\<close>), through as
  many changes of the table as it brings about, against an executable specification of a few
  lines: the entries of the active table, the entries of the cache shards, the number of
  the next table file and the tables that were full. The specification says when a table is full, which calls are refused
  and which \<open>Get\<close> aborts; skip list, log, cache heap and files are behind it.
\<close>

subsection \<open>The specification\<close>

definition entries_bytes :: "(bytes \<times> bytes) list \<Rightarrow> nat" where
  "entries_bytes kvs = (\<Sum>(k, v) \<leftarrow> kvs. length k + length v)"

record engine =
  e_table :: "(bytes \<times> bytes) list"
  e_shards :: "(bytes \<times> bytes) list list"
  e_number :: u32
  e_dumped :: "(bytes \<times> bytes) list list"

definition new_engine :: "Options \<Rightarrow> engine" where
  "new_engine opts = \<lparr>e_table = [], e_shards = replicate (unat SHARDING_NUM) [], e_number = LISST_NUM opts,
     e_dumped = []\<rparr>"

definition at_shard ::
  "(bytes \<Rightarrow> u64) \<Rightarrow> bytes \<Rightarrow> ((bytes \<times> bytes) list \<Rightarrow> (bytes \<times> bytes) list) \<Rightarrow> engine \<Rightarrow> engine" where
  "at_shard h k f E =
     (let i = sharding_index h k in E\<lparr>e_shards := (e_shards E)[i := f (e_shards E ! i)]\<rparr>)"

definition settle :: "bool \<Rightarrow> engine \<Rightarrow> engine" where
  "settle full E =
     (if full then E\<lparr>e_table := [], e_number := e_number E + 1, e_dumped := e_dumped E @ [e_table E]\<rparr> else E)"

definition store :: "bytes \<Rightarrow> bytes \<Rightarrow> engine \<Rightarrow> engine" where
  "store k v E = E\<lparr>e_table := alist_upsert k v (e_table E)\<rparr>"

fun spec_write :: "(bytes \<Rightarrow> u64) \<Rightarrow> Options \<Rightarrow> write_op \<Rightarrow> engine \<Rightarrow> DBStatus \<times> engine" where
  "spec_write h opts (Put_op coin now k v) E =
     (let E1 = store (c_str k) (c_str v) E
      in if k = [] \<or> v = [] then (InvalidArgs, E1)
         else (Success, settle (unat (MEM_TABLE_MAX_SIZE opts) < entries_bytes (e_table E1))
                 (at_shard h k (remember (unat (CACHE_SIZE opts)) k v) E1)))"
| "spec_write h opts (Delete_op coin k) E =
     (if k = [] then (InvalidArgs, E)
      else let E1 = store (c_str k) [] E
        in (Success, settle (unat (MEM_TABLE_MAX_SIZE opts) \<le> entries_bytes (e_table E1))
              (at_shard h (c_str k) (alist_delete (c_str k)) E1)))"

text \<open>A read has a time, a key and the string in which its result is returned.\<close>

datatype call = Write write_op | Read u64 bytes bytes

type_synonym reply = "DBStatus \<times> bytes option"

fun spec_call :: "(bytes \<Rightarrow> u64) \<Rightarrow> Options \<Rightarrow> call \<Rightarrow> engine \<Rightarrow> (reply \<times> engine) res" where
  "spec_call h opts (Write w) E = (let (st, E') = spec_write h opts w E in Inr ((st, None), E'))"
| "spec_call h opts (Read now k out) E =
     (if k = [] then Inr ((InvalidArgs, Some out), E)
      else case cache_map h (e_shards E) (c_str k) of
        Some v \<Rightarrow> Inr ((Success, Some v), at_shard h (c_str k) (touch (c_str k)) E)
      | None \<Rightarrow> (case map_of (e_table E) (c_str k) of
            Some v \<Rightarrow> Inr ((Success, Some v), E)
          | None \<Rightarrow> Inl Assert_Failed))"

fun do_call :: "env \<Rightarrow> call \<Rightarrow> db_impl \<Rightarrow> (reply \<times> db_impl) res" where
  "do_call e (Write w) s = bind_res (run_op e w s) (\<lambda>(st, s'). Inr ((st, None), s'))"
| "do_call e (Read now k out) s =
     bind_res (DBImpl_Get e now k (Some out) s) (\<lambda>(st, v, s'). Inr ((st, v), s'))"

fun run_calls :: "('c \<Rightarrow> 's \<Rightarrow> ('r \<times> 's) res) \<Rightarrow> 'c list \<Rightarrow> 's \<Rightarrow> ('r list \<times> 's) res" where
  "run_calls f [] s = Inr ([], s)"
| "run_calls f (c # cs) s =
     bind_res (f c s) (\<lambda>(r, s1). bind_res (run_calls f cs s1) (\<lambda>(rs, s2). Inr (r # rs, s2)))"

subsection \<open>Simulation\<close>

text \<open>
  A relation between states that one call keeps is kept by any number of them, with the same
  replies and the same fault. The relation has a budget from which every call takes its cost.
\<close>

locale simulation =
  fixes conc :: "'c \<Rightarrow> 's \<Rightarrow> ('r \<times> 's) res"
    and spec :: "'c \<Rightarrow> 'a \<Rightarrow> ('r \<times> 'a) res"
    and rel :: "nat \<Rightarrow> 's \<Rightarrow> 'a \<Rightarrow> bool"
    and fits :: "'c \<Rightarrow> bool"
    and cost :: "'c \<Rightarrow> nat"
  assumes step: "rel (cost c + n) s a \<Longrightarrow> fits c \<Longrightarrow>
      case spec c a of Inl f \<Rightarrow> conc c s = Inl f
      | Inr (r, a') \<Rightarrow> \<exists>s'. conc c s = Inr (r, s') \<and> rel n s' a'"
begin

lemma runs:
  assumes "rel (sum_list (map cost cs) + n) s a" and "\<forall>c \<in> set cs. fits c"
  shows "case run_calls spec cs a of Inl f \<Rightarrow> run_calls conc cs s = Inl f
      | Inr (rs, a') \<Rightarrow> \<exists>s'. run_calls conc cs s = Inr (rs, s') \<and> rel n s' a'"
  using assms
proof (induction cs arbitrary: s a)
  case Nil
  then show ?case by simp
next
  case (Cons c cs)
  let ?n = "sum_list (map cost cs) + n"
  from step [of c ?n s a] Cons.prems have one: "case spec c a of Inl f \<Rightarrow> conc c s = Inl f
      | Inr (r, a') \<Rightarrow> \<exists>s'. conc c s = Inr (r, s') \<and> rel ?n s' a'" by (simp add: add.assoc)
  show ?case
  proof (cases "spec c a")
    case (Inl f)
    with one show ?thesis by simp
  next
    case (Inr p)
    obtain r a1 where p: "p = (r, a1)" by (cases p)
    with one Inr obtain s1 where s1: "conc c s = Inr (r, s1)" "rel ?n s1 a1" by auto
    from Cons.IH [OF s1(2)] Cons.prems(2) Inr p s1(1) show ?thesis
      by (auto split: sum.splits prod.splits)
  qed
qed

end

subsection \<open>Entries\<close>

lemma entries_bytes_simps [simp]:
  "entries_bytes [] = 0" "entries_bytes ((k, v) # kvs) = length k + length v + entries_bytes kvs"
  "entries_bytes (xs @ ys) = entries_bytes xs + entries_bytes ys"
  by (simp_all add: entries_bytes_def)

lemma table_bytes_entries:
  "distinct (map fst kvs) \<Longrightarrow> table_bytes (map_of kvs) = entries_bytes kvs"
proof (induction kvs)
  case Nil
  then show ?case by (simp add: table_bytes_def)
next
  case (Cons e kvs)
  obtain k v where e: "e = (k, v)" by (cases e)
  have k: "k \<notin> dom (map_of kvs)" using Cons.prems by (simp add: e dom_map_of_conv_image_fst)
  have "(\<Sum>j \<in> dom (map_of kvs). length j + length (the (((map_of kvs)(k \<mapsto> v)) j))) = table_bytes (map_of kvs)"
    unfolding table_bytes_def using k by (intro sum.cong) (auto simp: fun_upd_apply)
  moreover have "table_bytes ((map_of kvs)(k \<mapsto> v)) = length k + length v +
      (\<Sum>j \<in> dom (map_of kvs). length j + length (the (((map_of kvs)(k \<mapsto> v)) j)))"
    unfolding table_bytes_def using k by (simp add: finite_dom_map_of sum.insert_if)
  ultimately have "table_bytes ((map_of kvs)(k \<mapsto> v)) = length k + length v + entries_bytes kvs"
    using Cons by simp
  then show ?case unfolding e map_of.simps fst_conv snd_conv entries_bytes_simps .
qed

lemma entries_bytes_filter: "entries_bytes (filter P kvs) \<le> entries_bytes kvs"
  by (induction kvs) (auto simp: entries_bytes_def)

lemma upsert_split:
  obtains xs ys where "alist_upsert k v kvs = xs @ (k, v) # ys" and "alist_delete k kvs = xs @ ys"
proof
  let ?P = "\<lambda>(a, _). a < k" and ?l = "alist_delete k kvs"
  show "alist_upsert k v kvs = takeWhile ?P ?l @ (k, v) # dropWhile ?P ?l"
    by (simp add: alist_upsert_def alist_insert_def)
  show "?l = takeWhile ?P ?l @ dropWhile ?P ?l" by simp
qed

lemma entries_bytes_upsert: "entries_bytes (alist_upsert k v kvs) \<le> entries_bytes kvs + length k + length v"
proof -
  obtain xs ys where "alist_upsert k v kvs = xs @ (k, v) # ys" "alist_delete k kvs = xs @ ys" by (rule upsert_split)
  with entries_bytes_filter [of "\<lambda>(a, _). a \<noteq> k" kvs] show ?thesis by (simp add: alist_delete_def)
qed

lemma length_upsert: "length (alist_upsert k v kvs) \<le> Suc (length kvs)"
proof -
  obtain xs ys where "alist_upsert k v kvs = xs @ (k, v) # ys" "alist_delete k kvs = xs @ ys" by (rule upsert_split)
  moreover have "length (alist_delete k kvs) \<le> length kvs" by (simp add: alist_delete_def)
  ultimately show ?thesis by simp
qed

lemma distinct_upsert:
  assumes "distinct (map fst kvs)"
  shows "distinct (map fst (alist_upsert k v kvs))"
proof -
  obtain xs ys where s: "alist_upsert k v kvs = xs @ (k, v) # ys" "alist_delete k kvs = xs @ ys" by (rule upsert_split)
  have "distinct (map fst (alist_delete k kvs))" using assms by (simp add: alist_delete_def distinct_map_filter)
  moreover have "k \<notin> fst ` set (alist_delete k kvs)" by (auto simp: alist_delete_def)
  ultimately show ?thesis unfolding s by auto
qed

subsection \<open>Storage through a run\<close>

text \<open>
  The storage directory stays free for every table file that may come, and the fixed name under
  which \<open>Get\<close> looks stays unused. Files that are neither the log nor a table keep the contents
  they had in \<open>d0\<close>.
\<close>

definition storage_clear :: "fs \<Rightarrow> db_impl \<Rightarrow> bool" where
  "storage_clear d0 s \<longleftrightarrow> STORAGE_DIR (options s) \<noteq> [] \<and>
     (\<forall>q \<in> set (ancestors (STORAGE_DIR (options s))). files (disk s) q = None) \<and>
     (\<forall>n. table_path ((options s)\<lparr>LISST_NUM := n\<rparr>) \<notin> dirs (disk s) \<and>
          table_path ((options s)\<lparr>LISST_NUM := n\<rparr>) \<noteq> fw_path (wal_writer s)) \<and>
     \<not> access_ok (disk s) (sst_path s) \<and>
     (\<forall>p. p \<noteq> fw_path (wal_writer s) \<and> (\<forall>n. p \<noteq> table_path ((options s)\<lparr>LISST_NUM := n\<rparr>)) \<longrightarrow>
          files (disk s) p = files d0 p)"

lemma storage_clear_free:
  assumes "storage_clear d0 s"
  shows "storage_free s"
proof -
  have "(options s)\<lparr>LISST_NUM := LISST_NUM (options s)\<rparr> = options s" by simp
  with assms show ?thesis unfolding storage_clear_def storage_free_def by metis
qed

lemma storage_clear_log:
  assumes clear: "storage_clear d0 s" and log: "wrote_log e key s s'" and opt: "options s' = options s"
    and ok: "fw_ok (wal_writer s, disk s)"
  shows "storage_clear d0 s'"
proof -
  let ?w = "fw_path (wal_writer s)"
  have same: "fw_path (wal_writer s') = ?w" "dirs (disk s') = dirs (disk s)"
    "p \<noteq> ?w \<Longrightarrow> files (disk s') p = files (disk s) p" for p
    using log by (simp_all add: wrote_log_def same_file_def)
  have some: "files (disk s) ?w \<noteq> None" using ok by (simp add: fw_ok_def)
  have "sst_path s \<noteq> ?w" using clear some by (auto simp: storage_clear_def access_ok_def)
  moreover have "q \<noteq> ?w" if "q \<in> set (ancestors (STORAGE_DIR (options s)))" for q
    using clear some that by (auto simp: storage_clear_def)
  moreover have "sst_path s' = sst_path s" by (simp add: sst_path_def opt)
  ultimately show ?thesis
    using clear same(3) unfolding storage_clear_def same(1,2) opt by (auto simp: access_ok_def same(2))
qed

lemma storage_clear_roll:
  assumes clear: "storage_clear d0 s" and roll: "rolled_over e key s ls s'" and ok: "fw_ok (wal_writer s, disk s)"
  shows "storage_clear d0 s'"
proof -
  let ?w = "fw_path (wal_writer s)" and ?D = "STORAGE_DIR (options s)"
  have opt: "options s' = (options s)\<lparr>LISST_NUM := LISST_NUM (options s) + 1\<rparr>"
    and same: "fw_path (wal_writer s') = ?w" "dirs (disk s') \<subseteq> dirs (disk s) \<union> set (ancestors ?D)"
    "p \<noteq> table_path (options s) \<Longrightarrow> p \<noteq> ?w \<Longrightarrow> files (disk s') p = files (disk s) p" for p
    using roll by (simp_all add: rolled_over_def)
  have some: "files (disk s) ?w \<noteq> None" using ok by (simp add: fw_ok_def)
  have tp: "table_path ((options s)\<lparr>LISST_NUM := LISST_NUM (options s)\<rparr>) = table_path (options s)" by simp
  have long: "p \<notin> set (ancestors ?D)" if "length ?D < length p" for p
    using ancestors_shorter [of p ?D] that by auto
  have lens: "length ?D < length (sst_path s)" "length ?D < length (table_path ((options s)\<lparr>LISST_NUM := n\<rparr>))" for n
    by (simp_all add: sst_path_def table_path_def)
  have sp: "sst_path s' = sst_path s" by (simp add: sst_path_def opt)
  have "sst_path s \<noteq> ?w" using clear some by (auto simp: storage_clear_def access_ok_def)
  with same(3) table_path_not_sst [of "options s"] have "files (disk s') (sst_path s) = files (disk s) (sst_path s)"
    by (simp add: sst_path_def)
  moreover have "sst_path s \<notin> dirs (disk s')"
    using clear same(2) long [OF lens(1)] by (auto simp: storage_clear_def access_ok_def)
  ultimately have gone: "\<not> access_ok (disk s') (sst_path s')"
    using clear by (simp add: sp storage_clear_def access_ok_def)
  have anc: "files (disk s') q = None" if q: "q \<in> set (ancestors ?D)" for q
  proof -
    have "q \<noteq> table_path (options s)" using long [OF lens(2) [of "LISST_NUM (options s)"]] q tp by auto
    moreover have "q \<noteq> ?w" using clear some q by (auto simp: storage_clear_def)
    ultimately show ?thesis using same(3) clear q by (simp add: storage_clear_def)
  qed
  have tab: "table_path ((options s)\<lparr>LISST_NUM := n\<rparr>) \<notin> dirs (disk s')" for n
    using clear same(2) long [OF lens(2) [of n]] by (auto simp: storage_clear_def)
  have rest: "files (disk s') p = files d0 p" if p: "p \<noteq> ?w" "\<forall>n. p \<noteq> table_path ((options s)\<lparr>LISST_NUM := n\<rparr>)" for p
  proof -
    have "p \<noteq> table_path (options s)" using p(2) tp by metis
    with same(3) p clear show ?thesis by (simp add: storage_clear_def)
  qed
  show ?thesis
    using clear gone anc tab rest unfolding storage_clear_def same(1) opt by simp
qed

subsection \<open>The engine implements the specification\<close>

text \<open>
  The table never has so many entries, nor so many bytes, that a cast loses anything, when at
  most \<open>n\<close> calls follow.
\<close>

definition budget :: "nat \<Rightarrow> engine \<Rightarrow> bool" where
  "budget n E \<longleftrightarrow> distinct (map fst (e_table E)) \<and> length (e_table E) + n < 2 ^ 27 \<and>
     entries_bytes (e_table E) + n * 2 ^ 33 < 2 ^ 64"

definition engine_rel :: "env \<Rightarrow> Options \<Rightarrow> fs \<Rightarrow> nat \<Rightarrow> db_impl \<Rightarrow> engine \<Rightarrow> bool" where
  "engine_rel e opts d0 n s E \<longleftrightarrow>
     converts e \<and> sizes_filter e \<and> db_ok e s (map_of (e_table E)) (e_shards E) \<and>
     options s = opts\<lparr>LISST_NUM := e_number E\<rparr> \<and> budget n E \<and> storage_clear d0 s"

fun call_fits :: "call \<Rightarrow> bool" where
  "call_fits (Write w) \<longleftrightarrow> length (op_key w) < 2 ^ 24 \<and> length (op_value w) < 2 ^ 32 - 1"
| "call_fits (Read now k out) \<longleftrightarrow> True"

lemma engine_simps [simp]:
  "e_table (at_shard h k f E) = e_table E" "e_number (at_shard h k f E) = e_number E"
  "e_shards (store k v E) = e_shards E" "e_number (store k v E) = e_number E"
  "e_table (settle b E) = (if b then [] else e_table E)" "e_shards (settle b E) = e_shards E"
  "e_number (settle b E) = (if b then e_number E + 1 else e_number E)"
  "e_dumped (settle b E) = (if b then e_dumped E @ [e_table E] else e_dumped E)"
  "e_dumped (at_shard h k f E) = e_dumped E" "e_dumped (store k v E) = e_dumped E"
  "map_of (e_table (store k v E)) = (map_of (e_table E))(k \<mapsto> v)"
  by (simp_all add: at_shard_def store_def settle_def Let_def)

lemma e_shards_at: "e_shards (at_shard h k f E) = (e_shards E)[sharding_index h k := f (e_shards E ! sharding_index h k)]"
  by (simp add: at_shard_def Let_def)

lemma budget_mono: "budget (Suc n) E \<Longrightarrow> budget n E"
  by (simp add: budget_def)

lemma budget_empty: "n < 2 ^ 27 \<Longrightarrow> e_table E = [] \<Longrightarrow> budget n E"
  by (simp add: budget_def)

lemma budget_budget: "budget n E \<Longrightarrow> n < 2 ^ 27"
  by (simp add: budget_def)

lemma budget_store:
  assumes E: "budget (Suc n) E" and len: "length k < 2 ^ 24" "length v < 2 ^ 32 - 1"
  shows "budget n (store (c_str k) (c_str v) E)"
proof -
  let ?t = "alist_upsert (c_str k) (c_str v) (e_table E)"
  have "entries_bytes ?t \<le> entries_bytes (e_table E) + length k + length v"
    using entries_bytes_upsert [of "c_str k" "c_str v" "e_table E"] length_c_str [of k] length_c_str [of v] by linarith
  moreover have "length k + length v \<le> 2 ^ 33" using len by simp
  ultimately have "entries_bytes ?t + n * 2 ^ 33 < 2 ^ 64" using E by (simp add: budget_def)
  moreover have "length ?t + n < 2 ^ 27"
    using length_upsert [of "c_str k" "c_str v" "e_table E"] E by (simp add: budget_def)
  ultimately show ?thesis using E by (simp add: budget_def store_def distinct_upsert)
qed

text \<open>What the code compares with the limit is the number of bytes of the entries.\<close>

lemma budget_bytes:
  assumes "budget n E"
  shows "unat (of_nat (table_bytes (map_of (e_table E))) :: u64) = entries_bytes (e_table E)"
    and "card (dom (map_of (e_table E))) < 2 ^ 27"
proof -
  have d: "distinct (map fst (e_table E))" using assms by (simp add: budget_def)
  show "unat (of_nat (table_bytes (map_of (e_table E))) :: u64) = entries_bytes (e_table E)"
    using assms by (simp add: table_bytes_entries [OF d] budget_def unat_of_nat)
  have "card (dom (map_of (e_table E))) = length (e_table E)"
    using distinct_card [OF d] by (simp add: dom_map_of_conv_image_fst)
  then show "card (dom (map_of (e_table E))) < 2 ^ 27" using assms by (simp add: budget_def)
qed

lemma engine_rel_log:
  assumes rel: "engine_rel e opts d0 (Suc n) s E" and log: "wrote_log e key s s'" and opt: "options s' = options s"
    and ok: "db_ok e s' (map_of (e_table E')) (e_shards E')" and "budget n E'" and "e_number E' = e_number E"
  shows "engine_rel e opts d0 n s' E'"
proof -
  have "storage_clear d0 s'"
    using rel by (intro storage_clear_log [OF _ log opt]) (simp_all add: engine_rel_def db_ok_def)
  then show ?thesis using assms by (simp add: engine_rel_def)
qed

lemma engine_rel_roll:
  assumes rel: "engine_rel e opts d0 (Suc n) s E" and roll: "rolled_over e key s (e_shards E') s'"
    and "e_table E' = []" and "e_number E' = e_number E + 1"
  shows "engine_rel e opts d0 n s' E'"
proof -
  have "storage_clear d0 s'"
    using rel by (intro storage_clear_roll [OF _ roll]) (simp_all add: engine_rel_def db_ok_def)
  moreover have "budget n E'" using rel by (intro budget_empty assms(3)) (simp add: engine_rel_def budget_def)
  ultimately show ?thesis using assms by (simp add: engine_rel_def rolled_over_def)
qed

text \<open>
  The common end of a write: the log has its record, the table its entry, and a table that is
  full is replaced.
\<close>

definition settles :: "env \<Rightarrow> db_impl \<Rightarrow> bytes \<Rightarrow> DBStatus \<Rightarrow> engine \<Rightarrow> bool \<Rightarrow> (DBStatus \<times> db_impl) res \<Rightarrow> bool" where
  "settles e s key st E full r \<longleftrightarrow> (\<exists>s3.
     r = (if full then bind_res (renew_table e s3) (\<lambda>s4. Inr (st, s4)) else Inr (st, s3)) \<and>
     db_ok e s3 (map_of (e_table E)) (e_shards E) \<and> options s3 = options s \<and> wrote_log e key s s3)"

lemma put_settles:
  assumes rel: "engine_rel e opts d0 (Suc n) s E" and len: "length k < 2 ^ 24" "length v < 2 ^ 32 - 1"
    and kv: "k \<noteq> []" "v \<noteq> []"
  shows "let E1 = store (c_str k) (c_str v) E
         in settles e s k Success (at_shard (env_hash e) k (remember (unat (CACHE_SIZE opts)) k v) E1)
              (unat (MEM_TABLE_MAX_SIZE opts) < entries_bytes (e_table E1)) (DBImpl_Put e coin now k v s)"
proof -
  let ?E1 = "store (c_str k) (c_str v) E"
  let ?E2 = "at_shard (env_hash e) k (remember (unat (CACHE_SIZE opts)) k v) ?E1"
  have ok: "db_ok e s (map_of (e_table E)) (e_shards E)" and opt: "options s = opts\<lparr>LISST_NUM := e_number E\<rparr>"
    using rel by (simp_all add: engine_rel_def)
  have fit: "budget n ?E1" using rel len by (intro budget_store) (simp_all add: engine_rel_def)
  obtain s3 where s3: "DBImpl_Put e coin now k v s =
      (if mem_usage_bits s3 > MEM_TABLE_MAX_SIZE (options s)
       then bind_res (renew_table e s3) (\<lambda>s4. Inr (Success, s4)) else Inr (Success, s3))"
    "db_ok e s3 (map_of (e_table ?E1)) (e_shards ?E2)" "options s3 = options s" "wrote_log e k s s3"
    by (rule Put_up_to_limit [OF ok len kv, of coin now]) (auto simp: put_shards_def shard_def e_shards_at opt)
  have "mem_usage_bits s3 = of_nat (table_bytes (map_of (e_table ?E1)))"
    using s3(2) by (intro mem_usage_bits_room) (simp add: db_ok_def)
  then have "mem_usage_bits s3 > MEM_TABLE_MAX_SIZE (options s) \<longleftrightarrow>
      unat (MEM_TABLE_MAX_SIZE opts) < entries_bytes (e_table ?E1)"
    using budget_bytes(1) [OF fit] by (simp add: word_less_nat_alt opt)
  with s3 show ?thesis unfolding settles_def Let_def by (intro exI [of _ s3]) simp
qed

lemma delete_settles:
  assumes rel: "engine_rel e opts d0 (Suc n) s E" and len: "length k < 2 ^ 24" and k: "k \<noteq> []"
  shows "let E1 = store (c_str k) [] E
         in settles e s k Success (at_shard (env_hash e) (c_str k) (alist_delete (c_str k)) E1)
              (unat (MEM_TABLE_MAX_SIZE opts) \<le> entries_bytes (e_table E1)) (DBImpl_Delete e coin k s)"
proof -
  let ?E1 = "store (c_str k) [] E"
  let ?E2 = "at_shard (env_hash e) (c_str k) (alist_delete (c_str k)) ?E1"
  have ok: "db_ok e s (map_of (e_table E)) (e_shards E)" and opt: "options s = opts\<lparr>LISST_NUM := e_number E\<rparr>"
    using rel by (simp_all add: engine_rel_def)
  have fit: "budget n ?E1" using budget_store [of n E k "[]"] rel len by (simp add: engine_rel_def)
  obtain s3 where s3: "DBImpl_Delete e coin k s =
      (if mem_usage_bits s3 \<ge> MEM_TABLE_MAX_SIZE (options s)
       then bind_res (renew_table e s3) (\<lambda>s4. Inr (Success, s4)) else Inr (Success, s3))"
    "db_ok e s3 (map_of (e_table ?E1)) (e_shards ?E2)" "options s3 = options s" "wrote_log e k s s3"
    by (rule Delete_up_to_limit [OF ok len k, of coin]) (auto simp: erase_shards_def shard_def e_shards_at)
  have "mem_usage_bits s3 = of_nat (table_bytes (map_of (e_table ?E1)))"
    using s3(2) by (intro mem_usage_bits_room) (simp add: db_ok_def)
  then have "mem_usage_bits s3 \<ge> MEM_TABLE_MAX_SIZE (options s) \<longleftrightarrow>
      unat (MEM_TABLE_MAX_SIZE opts) \<le> entries_bytes (e_table ?E1)"
    using budget_bytes(1) [OF fit] by (simp add: word_le_nat_alt opt)
  with s3 show ?thesis unfolding settles_def Let_def by (intro exI [of _ s3]) simp
qed

text \<open>A write does nothing at all, or logs its key, stores its value and settles.\<close>

definition stores_in :: "write_op \<Rightarrow> engine \<Rightarrow> engine \<Rightarrow> bool" where
  "stores_in w E E2 \<longleftrightarrow> e_table E2 = alist_upsert (c_str (op_key w)) (c_str (op_value w)) (e_table E) \<and>
     e_number E2 = e_number E \<and> e_dumped E2 = e_dumped E"

lemma stores_in_simps [simp]:
  "stores_in w E (store (c_str (op_key w)) (c_str (op_value w)) E)"
  "stores_in w E (at_shard h k f E2) \<longleftrightarrow> stores_in w E E2"
  by (simp_all add: stores_in_def store_def)

fun op_logged :: "write_op \<Rightarrow> bool" where
  "op_logged (Put_op coin now k v) \<longleftrightarrow> True"
| "op_logged (Delete_op coin k) \<longleftrightarrow> k \<noteq> []"

lemma write_skipped:
  "\<not> op_logged w \<Longrightarrow> run_op e w s = Inr (InvalidArgs, s) \<and> spec_write h opts w E = (InvalidArgs, E)"
  by (cases w) (simp_all add: DBImpl_Delete_def)

lemma write_settles:
  assumes rel: "engine_rel e opts d0 (Suc n) s E" and fits: "call_fits (Write w)" and log: "op_logged w"
  obtains st E2 full where "spec_write (env_hash e) opts w E = (st, settle full E2)"
    and "settles e s (op_key w) st E2 full (run_op e w s)" and "stores_in w E E2"
proof (cases w)
  case (Put_op coin now k v)
  have ok: "db_ok e s (map_of (e_table E)) (e_shards E)" using rel by (simp add: engine_rel_def)
  have len: "length k < 2 ^ 24" "length v < 2 ^ 32 - 1" using fits Put_op by simp_all
  have put: "stores_in w E (store (c_str k) (c_str v) E)" using stores_in_simps(1) [of w E] Put_op by simp
  show ?thesis
  proof (cases "k = [] \<or> v = []")
    case True
    let ?E1 = "store (c_str k) (c_str v) E"
    have "settles e s k InvalidArgs ?E1 False (DBImpl_Put e coin now k v s)"
      using Put_invalid_logs [OF ok len True, of coin now] by (simp add: settles_def)
    with that [of InvalidArgs False ?E1] put True Put_op show ?thesis by (simp add: settle_def)
  next
    case False
    let ?E2 = "at_shard (env_hash e) k (remember (unat (CACHE_SIZE opts)) k v) (store (c_str k) (c_str v) E)"
    from False put_settles [OF rel len, of coin now] put Put_op show ?thesis
      by (intro that [of Success _ ?E2]) (auto simp: Let_def)
  qed
next
  case (Delete_op coin k)
  have put: "stores_in w E (store (c_str k) [] E)" using stores_in_simps(1) [of w E] Delete_op by simp
  let ?E2 = "at_shard (env_hash e) (c_str k) (alist_delete (c_str k)) (store (c_str k) [] E)"
  from delete_settles [OF rel, of k coin] fits log put Delete_op show ?thesis
    by (intro that [of Success _ ?E2]) (auto simp: Let_def)
qed

lemma stores_in_budget:
  assumes "stores_in w E E2" and "budget (Suc n) E" and "call_fits (Write w)"
  shows "budget n E2"
  using budget_store [OF assms(2), of "op_key w" "op_value w"] assms(1,3) by (simp add: budget_def stores_in_def store_def)

lemma stores_in_some: "stores_in w E E2 \<Longrightarrow> map_of (e_table E2) \<noteq> Map.empty"
  by (simp add: stores_in_def update_nonempty)

lemma engine_settles:
  assumes rel: "engine_rel e opts d0 (Suc n) s E" and st: "stores_in w E E2" and fits: "call_fits (Write w)"
    and r: "settles e s key stat E2 full r"
  shows "\<exists>s'. r = Inr (stat, s') \<and> engine_rel e opts d0 n s' (settle full E2)"
proof -
  obtain s3 where s3: "r = (if full then bind_res (renew_table e s3) (\<lambda>s4. Inr (stat, s4)) else Inr (stat, s3))"
    "db_ok e s3 (map_of (e_table E2)) (e_shards E2)" "options s3 = options s" "wrote_log e key s s3"
    using r by (auto simp: settles_def)
  have fit: "budget n E2" using stores_in_budget [OF st _ fits] rel by (simp add: engine_rel_def)
  have num: "e_number E2 = e_number E" using st by (simp add: stores_in_def)
  show ?thesis
  proof (cases full)
    case False
    with engine_rel_log [OF rel s3(4,3,2) fit num] s3(1) show ?thesis by (simp add: settle_def)
  next
    case True
    have conv: "converts e" "sizes_filter e" "storage_free s" "fw_ok (wal_writer s, disk s)"
      using rel storage_clear_free by (auto simp: engine_rel_def db_ok_def)
    from renew_rolls_over [OF s3(2) conv(4) stores_in_some [OF st] budget_bytes(2) [OF fit] s3(4,3) conv(1-3)]
    obtain s' where "renew_table e s3 = Inr s'" "rolled_over e key s (e_shards E2) s'" by blast
    with engine_rel_roll [OF rel, of key "settle full E2" s'] True num s3(1) show ?thesis by auto
  qed
qed

lemma engine_write:
  assumes rel: "engine_rel e opts d0 (Suc n) s E" and fits: "call_fits (Write w)"
  shows "\<exists>s'. run_op e w s = Inr (fst (spec_write (env_hash e) opts w E), s') \<and>
           engine_rel e opts d0 n s' (snd (spec_write (env_hash e) opts w E))"
proof (cases "op_logged w")
  case False
  with write_skipped [of w e s "env_hash e" opts E] rel budget_mono show ?thesis by (auto simp: engine_rel_def)
next
  case True
  obtain st E2 full where w: "spec_write (env_hash e) opts w E = (st, settle full E2)"
    "settles e s (op_key w) st E2 full (run_op e w s)" "stores_in w E E2"
    by (rule write_settles [OF rel fits True])
  with engine_settles [OF rel w(3) fits w(2)] show ?thesis by simp
qed

lemma engine_put:
  assumes "engine_rel e opts d0 (Suc n) s E" and "length k < 2 ^ 24" and "length v < 2 ^ 32 - 1"
  shows "\<exists>s'. DBImpl_Put e coin now k v s = Inr (fst (spec_write (env_hash e) opts (Put_op coin now k v) E), s') \<and>
           engine_rel e opts d0 n s' (snd (spec_write (env_hash e) opts (Put_op coin now k v) E))"
  using engine_write [of e opts d0 n s E "Put_op coin now k v"] assms by simp

lemma engine_delete:
  assumes "engine_rel e opts d0 (Suc n) s E" and "length k < 2 ^ 24"
  shows "\<exists>s'. DBImpl_Delete e coin k s = Inr (fst (spec_write (env_hash e) opts (Delete_op coin k) E), s') \<and>
           engine_rel e opts d0 n s' (snd (spec_write (env_hash e) opts (Delete_op coin k) E))"
  using engine_write [of e opts d0 n s E "Delete_op coin k"] assms by simp

lemma storage_clear_cache [simp]: "storage_clear d0 (s\<lparr>db_cache := cs\<rparr>) \<longleftrightarrow> storage_clear d0 s"
  by (simp add: storage_clear_def sst_path_def)

lemma budget_shard [simp]: "budget n (at_shard h k f E) \<longleftrightarrow> budget n E"
  by (simp add: budget_def)

lemma engine_get:
  assumes rel: "engine_rel e opts d0 (Suc n) s E"
  shows "case spec_call (env_hash e) opts (Read now k out) E of
           Inl f \<Rightarrow> do_call e (Read now k out) s = Inl f
         | Inr (r, E') \<Rightarrow> \<exists>s'. do_call e (Read now k out) s = Inr (r, s') \<and> engine_rel e opts d0 n s' E'"
proof (cases "k = []")
  case True
  then show ?thesis using rel budget_mono by (auto simp: DBImpl_Get_def engine_rel_def)
next
  case k: False
  have ok: "db_ok e s (map_of (e_table E)) (e_shards E)" using rel by (simp add: engine_rel_def)
  then have cr: "cache_rep (unat (CACHE_SIZE (options s))) (db_cache s) (e_shards E)" and abs: "mt_abs (mem_table s) (map_of (e_table E))"
    by (simp_all add: db_ok_def)
  have same: "engine_rel e opts d0 n s E" using rel budget_mono by (auto simp: engine_rel_def)
  note con = cache_contains_rep [OF cr, of "env_hash e" "c_str k"]
  show ?thesis
  proof (cases "cache_map (env_hash e) (e_shards E) (c_str k)")
    case (Some v)
    let ?E = "at_shard (env_hash e) (c_str k) (touch (c_str k)) E"
    obtain a cs where c: "cache_get (env_hash e) (c_str k) (db_cache s) = Inr (Some a, cs)"
      "cache_node_val (env_hash e) (c_str k) cs a = Inr v"
      "cache_rep (unat (CACHE_SIZE (options s))) cs (e_shards ?E)"
      using cache_get_touches [OF cr Some] by (auto simp: e_shards_at)
    let ?s = "s\<lparr>db_cache := cs\<rparr>"
    have "DBImpl_Get e now k (Some out) s = Inr (Success, Some v, ?s)"
      using Some con c(1,2) k by (simp add: DBImpl_Get_def)
    moreover have "engine_rel e opts d0 n ?s ?E"
      using same c(3) by (simp add: engine_rel_def db_ok_def)
    ultimately show ?thesis using k Some by simp
  next
    case None
    show ?thesis
    proof (cases "map_of (e_table E) (c_str k)")
      case (Some v)
      with None con k mt.has_abs [OF abs, of k] mt.get_abs [OF abs, of "c_str k"]
      have "DBImpl_Get e now k (Some out) s = Inr (Success, Some v, s)" by (simp add: DBImpl_Get_def)
      with None Some k same show ?thesis by simp
    next
      case gone: None
      have "db_view e (map_of (e_table E)) (e_shards E) (c_str k) = None" using None gone by (simp add: db_view_def)
      from Get_unknown [OF ok k this, of now out] rel have "DBImpl_Get e now k (Some out) s = Inl Assert_Failed"
        by (simp add: SSTParser_def engine_rel_def storage_clear_def)
      with None gone k show ?thesis by simp
    qed
  qed
qed

lemma engine_step:
  assumes rel: "engine_rel e opts d0 (Suc n) s E" and fits: "call_fits c"
  shows "case spec_call (env_hash e) opts c E of
           Inl f \<Rightarrow> do_call e c s = Inl f
         | Inr (r, E') \<Rightarrow> \<exists>s'. do_call e c s = Inr (r, s') \<and> engine_rel e opts d0 n s' E'"
proof (cases c)
  case (Read now k out)
  then show ?thesis using engine_get [OF rel, of now k out] by (simp only:)
next
  case (Write w)
  from engine_write [OF rel, of w] fits have "\<exists>s'. run_op e w s = Inr (fst (spec_write (env_hash e) opts w E), s') \<and>
      engine_rel e opts d0 n s' (snd (spec_write (env_hash e) opts w E))" by (simp only: Write)
  with Write show ?thesis by (auto simp: split_def Let_def)
qed

interpretation engine: simulation "do_call e" "spec_call (env_hash e) opts" "engine_rel e opts d0" call_fits "\<lambda>_. 1"
  for e opts d0
  by unfold_locales (rule engine_step, simp_all)

lemma engine_runs:
  assumes "engine_rel e opts d0 (length cs) s E" and "\<forall>c \<in> set cs. call_fits c"
  shows "case run_calls (spec_call (env_hash e) opts) cs E of Inl f \<Rightarrow> run_calls (do_call e) cs s = Inl f
      | Inr (rs, E') \<Rightarrow> \<exists>s'. run_calls (do_call e) cs s = Inr (rs, s') \<and> engine_rel e opts d0 0 s' E'"
  using engine.runs [of e opts d0 cs 0 s E] assms by (simp add: sum_list_triv)

text \<open>What must hold of the file system when the database is opened.\<close>

definition fresh_at :: "Options \<Rightarrow> fs \<Rightarrow> bool" where
  "fresh_at opts d \<longleftrightarrow> opens_at opts d \<and> STORAGE_DIR opts \<noteq> [] \<and>
     (\<forall>q \<in> set (ancestors (STORAGE_DIR opts)). files d q = None \<and> q \<noteq> WAL_DIR opts) \<and>
     (\<forall>n. table_path (opts\<lparr>LISST_NUM := n\<rparr>) \<notin> insert (WAL_DIR opts) (opened_dirs opts d)) \<and>
     files d (STORAGE_DIR opts @ str ''level_0_sst_0.sst'') = None \<and>
     STORAGE_DIR opts @ str ''level_0_sst_0.sst'' \<notin> insert (WAL_DIR opts) (opened_dirs opts d)"

lemma engine_opens:
  assumes env: "full_writes (env_wr e)" "converts e" "sizes_filter e" and at: "fresh_at opts d" and n: "n < 2 ^ 27"
  shows "\<exists>s. DBImpl opts d = Inr s \<and> engine_rel e opts d n s (new_engine opts) \<and> fw_path (wal_writer s) = WAL_DIR opts"
proof -
  have op: "opens_at opts d" using at by (simp add: fresh_at_def)
  obtain s where s: "DBImpl opts d = Inr s" "fw_path (wal_writer s) = WAL_DIR opts"
    "dirs (disk s) = opened_dirs opts d" "files (disk s) = (files d)(WAL_DIR opts \<mapsto> log_content opts d)"
    using DBImpl_disk [OF op] by blast
  have ok: "db_ok e s Map.empty (replicate (unat SHARDING_NUM) [])" "options s = opts"
    using DBImpl_opens [OF env(1), of opts d] op s(1) by (auto simp: opens_at_def)
  have "storage_clear d s"
    using at unfolding storage_clear_def s(2-4) ok(2) by (auto simp: fresh_at_def access_ok_def sst_path_def ok(2) s(3,4))
  with s(1,2) ok env n show ?thesis by (auto simp: engine_rel_def new_engine_def budget_def)
qed

lemma run_calls_invariant:
  assumes "run_calls f cs a = Inr (rs, a')" and "J a"
    and "\<And>c a r a'. c \<in> set cs \<Longrightarrow> J a \<Longrightarrow> f c a = Inr (r, a') \<Longrightarrow> J a'"
  shows "J a'"
  using assms
proof (induction cs arbitrary: a rs)
  case (Cons c cs)
  from Cons.prems(1) obtain r a1 rs1 where a1: "f c a = Inr (r, a1)" "run_calls f cs a1 = Inr (rs1, a')"
    by (auto simp: bind_res_Inr_iff)
  have "J a1" by (rule Cons.prems(3) [OF _ Cons.prems(2) a1(1)]) simp
  show ?case
  proof (rule Cons.IH [OF a1(2) \<open>J a1\<close>])
    show "J b'" if "x \<in> set cs" "J b" "f x b = Inr (q, b')" for x b q b'
      by (rule Cons.prems(3) [OF _ that(2,3)]) (simp add: that(1))
  qed
qed simp

subsection \<open>What follows from the specification\<close>

fun write_status :: "write_op \<Rightarrow> DBStatus" where
  "write_status (Put_op coin now k v) = (if k = [] \<or> v = [] then InvalidArgs else Success)"
| "write_status (Delete_op coin k) = (if k = [] then InvalidArgs else Success)"

lemma spec_write_status: "fst (spec_write h opts w E) = write_status w"
  by (cases w) (simp_all add: Let_def)

lemma spec_writes_succeed:
  "\<exists>E'. run_calls (spec_call h opts) (map Write ws) E = Inr (map (\<lambda>w. (write_status w, None)) ws, E')"
proof (induction ws arbitrary: E)
  case (Cons w ws)
  obtain st E1 where "spec_write h opts w E = (st, E1)" by (cases "spec_write h opts w E")
  with Cons [of E1] spec_write_status [of h opts w E] show ?case by auto
qed simp

text \<open>A call that is not a \<open>Put\<close> of an empty key or value.\<close>

fun call_valid :: "call \<Rightarrow> bool" where
  "call_valid (Write w) \<longleftrightarrow> (case w of Put_op coin now k v \<Rightarrow> k \<noteq> [] \<and> v \<noteq> [] | Delete_op coin k \<Rightarrow> True)"
| "call_valid (Read now k out) \<longleftrightarrow> True"

lemma spec_call_bounded:
  assumes "spec_call h opts c E = Inr (r, E')" and "call_valid c"
    and "entries_bytes (e_table E) \<le> unat (MEM_TABLE_MAX_SIZE opts)"
  shows "entries_bytes (e_table E') \<le> unat (MEM_TABLE_MAX_SIZE opts)"
proof (cases c)
  case (Read now k out)
  with assms show ?thesis by (auto split: if_splits option.splits)
next
  case (Write w)
  with assms show ?thesis by (cases w) (auto simp: Let_def split: if_splits)
qed

lemma engine_sizes:
  assumes "engine_rel e opts d0 n s E"
  shows "MemTable_GetMemUsage (mem_table s) = int (entries_bytes (e_table E))"
    and "MemTable_GetSize (mem_table s) = int (length (e_table E))"
    and "\<forall>c \<in> set (db_cache s). length (nodes c) \<le> unat (CACHE_SIZE opts)"
proof -
  have abs: "mt_abs (mem_table s) (map_of (e_table E))" and d: "distinct (map fst (e_table E))"
    and rep: "cache_rep (unat (CACHE_SIZE (options s))) (db_cache s) (e_shards E)"
    and "options s = opts\<lparr>LISST_NUM := e_number E\<rparr>"
    using assms unfolding engine_rel_def db_ok_def budget_def by blast+
  then have cr: "cache_rep (unat (CACHE_SIZE opts)) (db_cache s) (e_shards E)" by simp
  show "MemTable_GetMemUsage (mem_table s) = int (entries_bytes (e_table E))"
    by (simp add: mem_usage_table [OF abs] table_bytes_entries [OF d])
  show "MemTable_GetSize (mem_table s) = int (length (e_table E))"
    using distinct_card [OF d] by (simp add: table_entries [OF abs] dom_map_of_conv_image_fst)
  have "length (nodes c) \<le> unat (CACHE_SIZE opts)" if c: "c \<in> set (db_cache s)" for c
  proof -
    obtain i where i: "i < length (db_cache s)" "db_cache s ! i = c" using c by (meson in_set_conv_nth)
    have caps: "map cap (db_cache s) = replicate (unat SHARDING_NUM) (unat (CACHE_SIZE opts))"
      and "list_all2 lru_rep (db_cache s) (e_shards E)" using cr by (simp_all add: cache_rep_def)
    with i have rep: "lru_rep c (e_shards E ! i)" by (auto dest: list_all2_nthD)
    have len: "length (db_cache s) = unat SHARDING_NUM" using caps by (metis length_map length_replicate)
    have "cap c = unat (CACHE_SIZE opts)" using arg_cong [OF caps, of "\<lambda>xs. xs ! i"] i len by simp
    moreover have "length (nodes c) = length (e_shards E ! i)" using rep by (auto simp: lru_rep_def)
    ultimately show ?thesis using lru.rep_fits [OF rep] by simp
  qed
  then show "\<forall>c \<in> set (db_cache s). length (nodes c) \<le> unat (CACHE_SIZE opts)" by blast
qed

lemma upsert_new_bytes:
  assumes "map_of kvs k = None"
  shows "entries_bytes (alist_upsert k v kvs) = entries_bytes kvs + length k + length v"
proof -
  obtain xs ys where s: "alist_upsert k v kvs = xs @ (k, v) # ys" "alist_delete k kvs = xs @ ys" by (rule upsert_split)
  have "kvs = xs @ ys" using s(2) alist_delete_absent [OF assms] by simp
  with s(1) show ?thesis by simp
qed

text \<open>\<open>Put\<close> with an empty value never looks at the size of the table.\<close>

lemma spec_invalid_puts:
  assumes "distinct ks" and "\<forall>k \<in> set ks. k \<noteq> [] \<and> no_nul k \<and> map_of (e_table E) k = None"
  shows "\<exists>E'. run_calls (spec_call h opts) (map (\<lambda>k. Write (Put_op coin now k [])) ks) E =
             Inr (map (\<lambda>k. (InvalidArgs, None)) ks, E') \<and>
           e_number E' = e_number E \<and> entries_bytes (e_table E') = entries_bytes (e_table E) + sum_list (map length ks)"
  using assms
proof (induction ks arbitrary: E)
  case (Cons k ks)
  let ?E = "store k [] E"
  have k: "c_str k = k" "map_of (e_table E) k = None" using Cons.prems(2) by simp_all
  have "\<forall>j \<in> set ks. j \<noteq> [] \<and> no_nul j \<and> map_of (e_table ?E) j = None" using Cons.prems by auto
  from Cons.IH [OF _ this] Cons.prems(1) upsert_new_bytes [OF k(2), of "[]"] k(1) show ?case
    by (auto simp: Let_def store_def)
qed simp

subsection \<open>Concrete options\<close>

lemma sample_fresh:
  assumes "STORAGE_DIR opts = str ''./output/db_storage''" and "WAL_DIR opts = str ''./output/wal_log.txt''"
  shows "fresh_at opts sample_fs"
proof -
  have len: "length (STORAGE_DIR opts) = 19" "length (WAL_DIR opts) = 20" by (simp_all add: assms)
  have "opened_dirs opts sample_fs \<subseteq> set (ancestors (str ''./output''))"
    by (simp add: opened_dirs_def sample_fs_def assms(2) parent_dir_def str_def)
  then have short: "length p \<le> 8" if "p \<in> opened_dirs opts sample_fs" for p
    using ancestors_shorter [of p "str ''./output''"] that by auto
  have out: "p \<notin> insert (WAL_DIR opts) (opened_dirs opts sample_fs)" if "20 < length p" for p
    using short [of p] that len(2) by auto
  have "opens_at opts sample_fs"
    by (simp add: opens_at_def sample_fs_def assms(2) str_def parent_free_def parent_dir_def)
  moreover have "table_path (opts\<lparr>LISST_NUM := n\<rparr>) \<notin> insert (WAL_DIR opts) (opened_dirs opts sample_fs)" for n
    by (rule out) (simp add: table_path_def BuildSSTPath_def len(1))
  moreover have "STORAGE_DIR opts @ str ''level_0_sst_0.sst'' \<notin> insert (WAL_DIR opts) (opened_dirs opts sample_fs)"
    by (rule out) (simp add: len(1))
  moreover have "q \<noteq> WAL_DIR opts" if "q \<in> set (ancestors (STORAGE_DIR opts))" for q
    using ancestors_shorter [OF that] len by auto
  moreover have "STORAGE_DIR opts \<noteq> []" using len(1) by auto
  ultimately show ?thesis by (simp add: fresh_at_def sample_fs_def)
qed

lemma sample_fresh_options [simp]: "fresh_at MakeOptionsForDebugging sample_fs" "fresh_at tiny_options sample_fs"
  by (rule sample_fresh; simp add: MakeOptionsForDebugging_def tiny_options_def)+

lemma sample_writes [simp]: "full_writes (env_wr sample_env)"
  by (simp add: sample_env_def full_writes_all_written)

subsection \<open>Properties\<close>









end
