(* ===== verification/Sst_Whole.thy ===== *)
theory Sst_Whole
  imports Sst_Parser
begin

section \<open>A whole table, from the first entry to the lookup\<close>

text \<open>
  \<open>SSTableBuilder::add\<close> over a list of entries, against an abstract builder that only cuts the
  list into blocks and places separators between them. The lemmas show that the bytes of the
  file are those of the abstract blocks, what the finished file decodes to, and which block the
  parser picks for each key of the table.
\<close>

subsection \<open>The abstract builder\<close>

type_synonym entries = "(bytes \<times> bytes) list"

record plan =
  blocks :: "entries list"
  seps :: "(bytes \<times> OffsetInfo) list"
  open_block :: entries
  last_key :: bytes

definition no_plan :: plan where
  "no_plan = \<lparr>blocks = [], seps = [], open_block = [], last_key = []\<rparr>"

definition blocks_bytes :: "entries list \<Rightarrow> bytes" where
  "blocks_bytes bs = concat (map block_of bs)"

definition plan_add :: "bytes \<Rightarrow> bytes \<Rightarrow> plan \<Rightarrow> plan res" where
  "plan_add k v P =
     (let c = open_block P @ [(k, v)]
      in if length (enc_records 0 [] c) > MAX_DATA_BLOCK_SIZE then
           bind_res (find_shortest_key (last_key P) k) (\<lambda>sk.
             Inr \<lparr>blocks = blocks P @ [c],
                  seps = seps P @ [(sk, \<lparr>oi_size = int (length (block_of c)),
                                         oi_offset = int (length (blocks_bytes (blocks P @ [c])))\<rparr>)],
                  open_block = [], last_key = k\<rparr>)
         else Inr (P\<lparr>open_block := c, last_key := k\<rparr>))"

fun plan_adds :: "entries \<Rightarrow> plan \<Rightarrow> plan res" where
  "plan_adds [] P = Inr P"
| "plan_adds ((k, v) # kvs) P = bind_res (plan_add k v P) (plan_adds kvs)"

text \<open>The client's loop over the concrete builder.\<close>

fun sst_adds :: "write_count \<Rightarrow> entries \<Rightarrow> sst_builder \<Rightarrow> sst_builder res" where
  "sst_adds wr [] b = Inr b"
| "sst_adds wr ((k, v) # kvs) b = bind_res (sst_add wr k v b) (\<lambda>(st, b'). sst_adds wr kvs b')"

subsection \<open>Sizes\<close>

text \<open>Entries small enough that one of them on top of a full block is still an \<open>int32_t\<close>.\<close>

definition entries_fit :: "entries \<Rightarrow> bool" where
  "entries_fit kvs \<longleftrightarrow> (\<forall>(k, v) \<in> set kvs. k \<noteq> [] \<and> length k + length v < 2 ^ 30)"

lemma entries_fit_simps [simp]: "entries_fit []" "entries_fit ((k, v) # kvs) \<longleftrightarrow> k \<noteq> [] \<and> length k + length v < 2 ^ 30 \<and> entries_fit kvs"
  "entries_fit (xs @ ys) \<longleftrightarrow> entries_fit xs \<and> entries_fit ys"
  by (auto simp: entries_fit_def)

lemma entries_fit_small: "entries_fit kvs \<Longrightarrow> small kvs"
  by (fastforce simp: entries_fit_def small_def)

lemma length_enc_record: "length (enc_record i prev k v) \<le> 12 + length k + length v" "12 \<le> length (enc_record i prev k v)"
  by (auto simp: enc_record_def Let_def)

lemma length_enc_records: "12 * length kvs \<le> length (enc_records i prev kvs)"
proof (induction i prev kvs rule: enc_records.induct)
  case (2 i prev k v kvs)
  with length_enc_record(2) [of i prev k v] show ?case by simp
qed simp

lemma length_block_of:
  assumes "entries_fit (cur @ [(k, v)])" and "length (enc_records 0 [] cur) \<le> MAX_DATA_BLOCK_SIZE"
  shows "length (block_of (cur @ [(k, v)])) < 2 ^ 31"
proof -
  let ?c = "cur @ [(k, v)]"
  obtain t where t: "block_of ?c = enc_records 0 [] ?c @ t" "length t = 12 * ((length ?c + 15) div 16) + 4"
    using block_of_records [OF entries_fit_small [OF assms(1)]] by blast
  have n: "12 * length cur \<le> 4096"
    using length_enc_records [of cur 0 "[]"] assms(2) by (simp add: MAX_DATA_BLOCK_SIZE_def)
  then have "length t \<le> 12 * ((4096 + 16) div 16) + 4" unfolding t(2) by (simp add: div_le_mono)
  moreover have "length (enc_records 0 [] ?c) \<le> 4096 + (12 + length k + length v)"
    using assms(2) length_enc_record(1) [of "length cur" "if cur = [] then [] else fst (last cur)" k v]
    by (simp add: enc_records_append MAX_DATA_BLOCK_SIZE_def)
  moreover have "length k + length v < 2 ^ 30" using assms(1) by simp
  ultimately show ?thesis unfolding t(1) by simp
qed

subsection \<open>The builder implements the plan\<close>

text \<open>\<open>b0\<close> is the builder that was opened on an empty file.\<close>

definition builds :: "sst_builder \<Rightarrow> plan \<Rightarrow> sst_builder \<Rightarrow> bool" where
  "builds b0 P b \<longleftrightarrow>
     sst_ok b \<and> same_file (fileWriter b0) (fileWriter b) \<and>
     fw_total (fileWriter b) = blocks_bytes (blocks P) \<and>
     dataBlockBuilder b = db_adds (open_block P) DataBlockBuilder \<and>
     index_data b = enc_entries (seps P) \<and> sb_pre_key b = last_key P \<and>
     filterBlockBuilder b = (filterBlockBuilder b0)\<lparr>key_data := map fst (concat (blocks P) @ open_block P)\<rparr> \<and>
     keys_num b = keys_num b0 \<and> sb_false_positive b = sb_false_positive b0"

text \<open>A plan whose entries fit and whose open block is not over the limit.\<close>

definition plan_ok :: "plan \<Rightarrow> bool" where
  "plan_ok P \<longleftrightarrow> entries_fit (open_block P) \<and> length (enc_records 0 [] (open_block P)) \<le> MAX_DATA_BLOCK_SIZE"

lemma db_adds_snoc: "db_adds (kvs @ [(k, v)]) b = snd (db_add k v (db_adds kvs b))"
  by (induction kvs b rule: db_adds.induct) auto

lemma enc_entries_snoc: "enc_entries (es @ [(k, oi)]) = enc_entries es @ enc_index k oi"
  by (simp add: enc_entries_def)

lemma blocks_bytes_snoc: "blocks_bytes (bs @ [c]) = blocks_bytes bs @ block_of c"
  by (simp add: blocks_bytes_def)

lemma db_adds_size:
  "entries_fit kvs \<Longrightarrow> db_size (db_adds kvs DataBlockBuilder) = length (enc_records 0 [] kvs)"
  using db_adds_data(1) [of kvs] by (fastforce simp: entries_fit_def db_size_def)

lemma sst_add_refines:
  assumes wr: "full_writes wr" and rel: "builds b0 P b" and ok: "plan_ok P"
    and k: "k \<noteq> []" "length k + length v < 2 ^ 30"
  shows "case plan_add k v P of
           Inl f \<Rightarrow> sst_add wr k v b = Inl f
         | Inr P' \<Rightarrow> plan_ok P' \<and> (\<exists>b'. sst_add wr k v b = Inr (Success, b') \<and> builds b0 P' b')"
proof -
  let ?c = "open_block P @ [(k, v)]"
  have entries_fit: "entries_fit ?c" using ok k by (simp add: plan_ok_def)
  have sb: "sst_ok b" using rel by (simp add: builds_def)
  have data: "snd (db_add k v (dataBlockBuilder b)) = db_adds ?c DataBlockBuilder"
    using rel by (simp add: builds_def db_adds_snoc)
  have size: "db_size (snd (db_add k v (dataBlockBuilder b))) = length (enc_records 0 [] ?c)"
    unfolding data by (rule db_adds_size [OF entries_fit])
  have nb: "next_block k v b = block_of ?c" by (simp only: next_block_def data block_of_def)
  have len: "length (next_block k v b) < 2 ^ 31"
    unfolding nb using entries_fit ok by (intro length_block_of) (simp_all add: plan_ok_def)
  have filt: "fb_add k (filterBlockBuilder b) =
      (filterBlockBuilder b0)\<lparr>key_data := map fst (concat (blocks P) @ ?c)\<rparr>"
    using rel k(1) by (simp add: builds_def fb_add_def)
  show ?thesis
  proof (cases "length (enc_records 0 [] ?c) > MAX_DATA_BLOCK_SIZE")
    case big: True
    show ?thesis
    proof (cases "find_shortest_key (sb_pre_key b) k")
      case (Inl f)
      have fw: "fw_ok (fileWriter b)" using sb by (simp add: sst_ok_def)
      obtain w where "append_file wr (next_block k v b) (to_int32 (int (length (next_block k v b)))) False (fileWriter b)
          = Inr (Success, w)"
        by (rule append_small [OF wr fw len])
      then have "sst_add wr k v b = Inl f"
        using big Inl k(1) size by (simp add: sst_add_def Let_def next_block_def [symmetric])
      then show ?thesis using big Inl rel by (simp add: plan_add_def Let_def builds_def)
    next
      case (Inr sk)
      from sst_add_full [OF wr sb k(1) _ len Inr] big size obtain b' where b':
        "sst_add wr k v b = Inr (Success, b')" "sst_ok b'"
        "fw_total (fileWriter b') = fw_total (fileWriter b) @ next_block k v b"
        "index_data b' = index_data b @ enc_index sk \<lparr>oi_size = int (length (next_block k v b)),
            oi_offset = int (length (fw_total (fileWriter b) @ next_block k v b))\<rparr>"
        "same_file (fileWriter b) (fileWriter b')" "dataBlockBuilder b' = DataBlockBuilder" "sb_pre_key b' = k"
        "filterBlockBuilder b' = fb_add k (filterBlockBuilder b)" "keys_num b' = keys_num b"
        "sb_false_positive b' = sb_false_positive b" by auto
      let ?P = "\<lparr>blocks = blocks P @ [?c],
          seps = seps P @ [(sk, \<lparr>oi_size = int (length (block_of ?c)), oi_offset = int (length (blocks_bytes (blocks P @ [?c])))\<rparr>)],
          open_block = [], last_key = k\<rparr>"
      have tot: "fw_total (fileWriter b) = blocks_bytes (blocks P)" using rel by (simp add: builds_def)
      have plan: "plan_add k v P = Inr ?P" using big Inr rel by (simp add: plan_add_def Let_def builds_def)
      have "same_file (fileWriter b0) (fileWriter b')"
        using rel same_file_trans [OF _ b'(5)] by (simp add: builds_def)
      then have "builds b0 ?P b'"
        using rel b'(2-7) b'(8) [unfolded filt] b'(9,10)
        by (simp add: builds_def nb tot blocks_bytes_snoc enc_entries_snoc)
      with plan b'(1) show ?thesis by (simp add: plan_ok_def)
    qed
  next
    case False
    then have small: "length (enc_records 0 [] ?c) \<le> MAX_DATA_BLOCK_SIZE" by simp
    from sst_add_room [OF sb k(1), of v wr] small size obtain b' where b':
      "sst_add wr k v b = Inr (Success, b')" "sst_ok b'" "fileWriter b' = fileWriter b" "index_data b' = index_data b"
      "sb_pre_key b' = k" "dataBlockBuilder b' = snd (db_add k v (dataBlockBuilder b))"
      "filterBlockBuilder b' = fb_add k (filterBlockBuilder b)" "keys_num b' = keys_num b"
      "sb_false_positive b' = sb_false_positive b" by auto
    have "builds b0 (P\<lparr>open_block := ?c, last_key := k\<rparr>) b'"
      using rel b'(2-5) b'(6) [unfolded data] b'(7) [unfolded filt] b'(8,9) by (simp add: builds_def)
    then show ?thesis using small entries_fit b'(1) by (simp add: plan_add_def Let_def plan_ok_def)
  qed
qed

lemma sst_adds_refine:
  assumes "full_writes wr" and "builds b0 P b" and "plan_ok P" and "entries_fit kvs"
  shows "case plan_adds kvs P of
           Inl f \<Rightarrow> sst_adds wr kvs b = Inl f
         | Inr P' \<Rightarrow> plan_ok P' \<and> (\<exists>b'. sst_adds wr kvs b = Inr b' \<and> builds b0 P' b')"
  using assms(2-4)
proof (induction kvs P arbitrary: b rule: plan_adds.induct)
  case (2 k v kvs P)
  from sst_add_refines [OF assms(1) 2(2,3), of k v] 2(4)
  have step: "case plan_add k v P of Inl f \<Rightarrow> sst_add wr k v b = Inl f
      | Inr P' \<Rightarrow> plan_ok P' \<and> (\<exists>b'. sst_add wr k v b = Inr (Success, b') \<and> builds b0 P' b')" by simp
  show ?case
  proof (cases "plan_add k v P")
    case (Inl f)
    with step show ?thesis by simp
  next
    case (Inr P')
    with step obtain b' where b': "sst_add wr k v b = Inr (Success, b')" "builds b0 P' b'" "plan_ok P'" by auto
    from 2(1) [OF b'(2,3)] 2(4) Inr b'(1) show ?thesis by (simp split: sum.splits)
  qed
qed simp

lemma builds_new:
  assumes "fw_ok w" and "fw_total w = []" and "FilterBlockBuilder logq num fp = Inr fb" and "usable (filterPolicy fb)"
  obtains b where "SSTableBuilder logq num w fp = Inr b" and "builds b no_plan b" and "fileWriter b = w"
    and "filterBlockBuilder b = fb" and "keys_num b = num" and "sb_false_positive b = fp"
proof -
  obtain b where b: "SSTableBuilder logq num w fp = Inr b" "sst_ok b" "fileWriter b = w" "index_data b = []"
    "dataBlockBuilder b = DataBlockBuilder" "filterBlockBuilder b = fb" "keys_num b = num" "sb_false_positive b = fp"
    "sb_pre_key b = []"
    using SSTableBuilder_ok [OF assms] by blast
  have "key_data fb = []" using assms(3) by (auto simp: FilterBlockBuilder_def assert_res_Inr_iff bind_res_Inr_iff)
  then have "fb = fb\<lparr>key_data := []\<rparr>" by simp
  with b show thesis
    by (intro that [of b])
      (auto simp: builds_def no_plan_def same_file_def blocks_bytes_def enc_entries_def assms(2))
qed

subsection \<open>Closing the table\<close>

definition plan_close :: "plan \<Rightarrow> plan res" where
  "plan_close P =
     (if open_block P = [] then Inr P
      else bind_res (bump_back (last_key P)) (\<lambda>pk.
        Inr \<lparr>blocks = blocks P @ [open_block P],
             seps = seps P @ [(pk, \<lparr>oi_size = int (length (block_of (open_block P))),
                                    oi_offset = int (length (blocks_bytes (blocks P)))\<rparr>)],
             open_block = [], last_key = pk\<rparr>))"

lemma finish_last_block_refines:
  assumes wr: "full_writes wr" and rel: "builds b0 P b" and ok: "plan_ok P" and close: "plan_close P = Inr P'"
    and len: "length (blocks_bytes (blocks P')) < 2 ^ 31"
  shows "\<exists>b1. finish_last_block wr b = Inr b1 \<and> sst_ok b1 \<and> same_file (fileWriter b) (fileWriter b1) \<and>
           fw_total (fileWriter b1) = blocks_bytes (blocks P') \<and> index_data b1 = enc_entries (seps P') \<and>
           filterBlockBuilder b1 = filterBlockBuilder b \<and> keys_num b1 = keys_num b \<and>
           sb_false_positive b1 = sb_false_positive b"
proof (cases "open_block P = []")
  case True
  then have "finish_last_block wr b = Inr b" "P' = P"
    using rel close by (simp_all add: finish_last_block_def builds_def db_size_def DataBlockBuilder_def plan_close_def)
  then show ?thesis using rel by (auto simp: builds_def same_file_def)
next
  case False
  have sb: "sst_ok b" and entries_fit: "entries_fit (open_block P)" using rel ok by (simp_all add: builds_def plan_ok_def)
  have lb: "last_block b = block_of (open_block P)" using rel by (simp add: last_block_def builds_def block_of_def)
  have "12 * length (open_block P) \<le> db_size (dataBlockBuilder b)"
    using rel db_adds_size [OF entries_fit] length_enc_records [of "open_block P" 0 "[]"] by (simp add: builds_def)
  then have some: "db_data (dataBlockBuilder b) \<noteq> []" using False by (auto simp: db_size_def)
  obtain pk where pk: "bump_back (last_key P) = Inr pk" and P': "blocks P' = blocks P @ [open_block P]"
    "seps P' = seps P @ [(pk, \<lparr>oi_size = int (length (block_of (open_block P))),
       oi_offset = int (length (blocks_bytes (blocks P)))\<rparr>)]"
    using close False by (auto simp: plan_close_def bind_res_Inr_iff)
  have "length (last_block b) < 2 ^ 31" using len by (simp add: lb P' blocks_bytes_snoc)
  moreover have "bump_back (sb_pre_key b) = Inr pk" "fw_total (fileWriter b) = blocks_bytes (blocks P)"
    "index_data b = enc_entries (seps P)"
    using rel pk by (simp_all add: builds_def)
  ultimately show ?thesis
    using finish_last_block_ok [OF wr sb some, of pk] by (simp add: lb P' blocks_bytes_snoc enc_entries_snoc) blast
qed

lemma finish_sst_refines:
  assumes wr: "full_writes wr" and rel: "builds b0 P b" and ok: "plan_ok P" and close: "plan_close P = Inr P'"
    and some: "seps P' \<noteq> []" and fp: "FilterBlockBuilder logq (keys_num b0) (sb_false_positive b0) = Inr fb3"
    and len: "length (blocks_bytes (blocks P')) + length (bits_array (filterPolicy (filterBlockBuilder b0))) + 4
      + length (enc_entries (seps P')) < 2 ^ 31"
  shows "\<exists>b' fb1 fb2. finish_sst logq wr b = Inr (Success, b') \<and>
           finish_filter_block (filterBlockBuilder b) = Inr fb1 \<and> finish_filter_block fb1 = Inr fb2 \<and>
           files (snd (fileWriter b')) (fw_path (fst (fileWriter b0))) =
             Some (sst_layout (blocks_bytes (blocks P')) (fb_data fb2) (enc_entries (seps P'))) \<and>
           fb_data fb2 = bits_array (filterPolicy fb2) @ EncodeFixed32 (word_of_int (hash_func_num (filterPolicy fb2))) \<and>
           usable (filterPolicy fb2) \<and>
           length (fb_data fb2) = length (bits_array (filterPolicy (filterBlockBuilder b0))) + 4 \<and>
           (\<forall>key \<in> set (key_data (filterBlockBuilder b)). holds_key (filterPolicy fb2) key) \<and>
           closed_after (fileWriter b) (fileWriter b')"
proof -
  have "length (blocks_bytes (blocks P')) < 2 ^ 31" using len by simp
  from finish_last_block_refines [OF wr rel ok close this] obtain b1 where b1: "finish_last_block wr b = Inr b1"
    "sst_ok b1" "same_file (fileWriter b) (fileWriter b1)" "fw_total (fileWriter b1) = blocks_bytes (blocks P')"
    "index_data b1 = enc_entries (seps P')" "filterBlockBuilder b1 = filterBlockBuilder b" "keys_num b1 = keys_num b"
    "sb_false_positive b1 = sb_false_positive b" by blast
  have "enc_entries (seps P') \<noteq> []" using some by (cases "seps P'") (auto simp: enc_entries_def)
  from finish_sst_rest [OF wr b1(1-3,6-8) _ b1(4,5) this, of logq fb3] fp len rel
  show ?thesis by (simp add: builds_def same_file_def)
qed

subsection \<open>What the blocks hold\<close>

lemma plan_add_concat:
  "plan_add k v P = Inr P' \<Longrightarrow> concat (blocks P') @ open_block P' = (concat (blocks P) @ open_block P) @ [(k, v)]"
  by (auto simp: plan_add_def Let_def bind_res_Inr_iff split: if_splits)

lemma plan_adds_concat:
  "plan_adds kvs P = Inr P' \<Longrightarrow> concat (blocks P') @ open_block P' = concat (blocks P) @ open_block P @ kvs"
proof (induction kvs P rule: plan_adds.induct)
  case (2 k v kvs P)
  then obtain P1 where "plan_add k v P = Inr P1" "plan_adds kvs P1 = Inr P'" by (auto simp: bind_res_Inr_iff)
  with 2(1) plan_add_concat show ?case by auto
qed simp

lemma plan_close_concat:
  "plan_close P = Inr P' \<Longrightarrow> concat (blocks P') = concat (blocks P) @ open_block P"
  by (auto simp: plan_close_def bind_res_Inr_iff split: if_splits)

text \<open>Entries of the index lie inside the blocks, one for each.\<close>

definition in_blocks :: "plan \<Rightarrow> bool" where
  "in_blocks P \<longleftrightarrow> length (seps P) = length (blocks P) \<and>
     (\<forall>(k, oi) \<in> set (seps P). 0 \<le> oi_size oi \<and> 0 \<le> oi_offset oi \<and>
        oi_size oi \<le> int (length (blocks_bytes (blocks P))) \<and> oi_offset oi \<le> int (length (blocks_bytes (blocks P))))"

lemma in_blocks_add: "in_blocks P \<Longrightarrow> plan_add k v P = Inr P' \<Longrightarrow> in_blocks P'"
  by (fastforce simp: plan_add_def Let_def bind_res_Inr_iff in_blocks_def blocks_bytes_snoc split: if_splits)

lemma in_blocks_adds: "in_blocks P \<Longrightarrow> plan_adds kvs P = Inr P' \<Longrightarrow> in_blocks P'"
  by (induction kvs P rule: plan_adds.induct) (auto simp: bind_res_Inr_iff dest: in_blocks_add)

lemma in_blocks_close: "in_blocks P \<Longrightarrow> plan_close P = Inr P' \<Longrightarrow> in_blocks P'"
  by (fastforce simp: plan_close_def bind_res_Inr_iff in_blocks_def blocks_bytes_snoc split: if_splits)

lemma length_enc_entry: "(k, oi) \<in> set es \<Longrightarrow> length (enc_index k oi) \<le> length (enc_entries es)"
  by (induction es) (auto simp: enc_entries_def)

lemma in_blocks_small:
  assumes "in_blocks P" and "length (blocks_bytes (blocks P)) + length (enc_entries (seps P)) < 2 ^ 31"
  shows "\<forall>e \<in> set (seps P). small_entry e"
proof
  fix e assume e: "e \<in> set (seps P)"
  obtain k oi where ek: "e = (k, oi)" by (cases e)
  from e have "length (enc_index k oi) \<le> length (enc_entries (seps P))"
    unfolding ek by (rule length_enc_entry)
  with e assms show "small_entry e" by (auto simp: ek small_entry_def int32_range_def in_blocks_def)
qed

subsection \<open>Separators in place\<close>

definition separated :: "bytes \<Rightarrow> bytes \<Rightarrow> bool" where
  "separated a b = (case find_shortest_key a b of Inl f \<Rightarrow> False | Inr k \<Rightarrow> a < k \<and> k \<le> b)"

lemma separated_less: "separated a b \<Longrightarrow> a < b"
  by (auto simp: separated_def split: sum.splits)

lemma separated_sorted:
  assumes "successively separated ks"
  shows "sorted_wrt (<) ks"
proof -
  have "successively (<) ks" using assms separated_less by (rule successively_mono)
  then show ?thesis by (simp add: successively_iff_sorted_wrt_strong transp_def)
qed

text \<open>Each separator lies above every key before the last of its block, and not above that one.\<close>

definition seps_ok :: "plan \<Rightarrow> bool" where
  "seps_ok P \<longleftrightarrow> length (seps P) = length (blocks P) \<and>
     (\<forall>j < length (blocks P). blocks P ! j \<noteq> [] \<and>
        (\<forall>(k, v) \<in> set (butlast (concat (take (Suc j) (blocks P)))). k < fst (seps P ! j)) \<and>
        fst (seps P ! j) \<le> fst (last (blocks P ! j)))"

definition keys_ok :: "plan \<Rightarrow> bool" where
  "keys_ok P \<longleftrightarrow> (let es = concat (blocks P) @ open_block P
     in successively separated (map fst es) \<and> last_key P = (if es = [] then [] else fst (last es)))"

lemma successively_mid: "successively Q (map fst es @ k # ks) \<Longrightarrow> es \<noteq> [] \<Longrightarrow> Q (fst (last es)) k"
  by (simp add: successively_append_iff last_map)

lemma successively_snoc:
  "successively Q (map fst es) \<Longrightarrow> (es \<noteq> [] \<Longrightarrow> Q (fst (last es)) k) \<Longrightarrow> successively Q (map fst (es @ [(k, v)]))"
  by (cases "es = []") (simp_all add: successively_append_iff last_map)

lemma sorted_last: "sorted_wrt (<) ks \<Longrightarrow> k \<in> set ks \<Longrightarrow> (k :: bytes) \<le> last ks"
  by (induction ks) (auto simp: less_imp_le)

lemma plan_add_seps:
  assumes P: "seps_ok P" "keys_ok P" and add: "plan_add k v P = Inr P'" and sep: "last_key P \<noteq> [] \<Longrightarrow> separated (last_key P) k"
    and k: "k \<noteq> []" and ks: "\<forall>(k, v) \<in> set (concat (blocks P) @ open_block P). k \<noteq> []"
  shows "seps_ok P'" and "keys_ok P'"
proof -
  let ?es = "concat (blocks P) @ open_block P"
  have lk: "last_key P = (if ?es = [] then [] else fst (last ?es))" and sc: "successively separated (map fst ?es)"
    using P(2) by (auto simp: keys_ok_def Let_def)
  have es': "concat (blocks P') @ open_block P' = ?es @ [(k, v)]" by (rule plan_add_concat [OF add])
  have "last_key P' = k" using add by (auto simp: plan_add_def Let_def bind_res_Inr_iff split: if_splits)
  moreover have "separated (last_key P) k" if "?es \<noteq> []"
  proof (rule sep)
    obtain x y where xy: "last ?es = (x, y)" by (cases "last ?es")
    with last_in_set [OF that] ks have "x \<noteq> []" by auto
    then show "last_key P \<noteq> []" unfolding lk if_not_P [OF that] xy by simp
  qed
  moreover from this have "successively separated (map fst (?es @ [(k, v)]))"
    unfolding lk by (intro successively_snoc [OF sc]) (simp only: if_False simp_thms)
  ultimately show "keys_ok P'" unfolding keys_ok_def Let_def es' using \<open>last_key P' = k\<close> by simp
  show "seps_ok P'"
  proof (cases "length (enc_records 0 [] (open_block P @ [(k, v)])) > MAX_DATA_BLOCK_SIZE")
    case False
    with add have "P' = P\<lparr>open_block := open_block P @ [(k, v)], last_key := k\<rparr>" by (simp add: plan_add_def Let_def)
    then show ?thesis using P(1) by (simp add: seps_ok_def)
  next
    case True
    let ?c = "open_block P @ [(k, v)]"
    obtain sk oi where sk: "find_shortest_key (last_key P) k = Inr sk" and P': "blocks P' = blocks P @ [?c]"
      "seps P' = seps P @ [(sk, oi)]"
      using add True by (auto simp: plan_add_def Let_def bind_res_Inr_iff)
    then have "last_key P \<noteq> []" by (auto simp: find_shortest_key_def assert_res_Inr_iff)
    with sep sk lk have lt: "last_key P < sk" "sk \<le> k" and ne: "?es \<noteq> []" by (auto simp: separated_def split: if_splits)
    have below: "x < sk" if "(x, y) \<in> set ?es" for x y
    proof -
      have "x \<in> set (map fst ?es)" using that by force
      then have "x \<le> last (map fst ?es)" by (rule sorted_last [OF separated_sorted [OF sc]])
      also have "\<dots> = last_key P" unfolding last_map [OF ne] lk if_not_P [OF ne] ..
      finally show ?thesis using lt(1) by simp
    qed
    have n: "length (seps P) = length (blocks P)" using P(1) by (simp add: seps_ok_def)
    show ?thesis
      unfolding seps_ok_def
    proof (intro conjI allI impI)
      show "length (seps P') = length (blocks P')" by (simp add: P' n)
      fix j assume j: "j < length (blocks P')"
      show "blocks P' ! j \<noteq> []" and "fst (seps P' ! j) \<le> fst (last (blocks P' ! j))"
        using P(1) j lt(2) by (auto simp: P' n seps_ok_def nth_append less_Suc_eq)
      show "\<forall>(x, y) \<in> set (butlast (concat (take (Suc j) (blocks P')))). x < fst (seps P' ! j)"
      proof (cases "j < length (blocks P)")
        case True
        with P(1) show ?thesis by (simp add: P' n seps_ok_def nth_append)
      next
        case False
        then have "j = length (blocks P)" using j by (simp add: P')
        then have "butlast (concat (take (Suc j) (blocks P'))) = ?es" "fst (seps P' ! j) = sk"
          by (simp_all add: P' n nth_append butlast_append)
        then show ?thesis using below by (auto simp del: set_append set_concat)
      qed
    qed
  qed
qed

lemma plan_adds_seps:
  assumes "seps_ok P" and "keys_ok P" and "plan_adds kvs P = Inr P'"
    and "successively separated (map fst (concat (blocks P) @ open_block P @ kvs))"
    and "\<forall>(k, v) \<in> set (concat (blocks P) @ open_block P @ kvs). k \<noteq> []"
  shows "seps_ok P' \<and> keys_ok P'"
  using assms
proof (induction kvs P rule: plan_adds.induct)
  case (2 k v kvs P)
  let ?es = "concat (blocks P) @ open_block P"
  obtain P1 where P1: "plan_add k v P = Inr P1" "plan_adds kvs P1 = Inr P'" using 2(4) by (auto simp: bind_res_Inr_iff)
  have lk: "last_key P = (if ?es = [] then [] else fst (last ?es))" using 2(3) by (simp add: keys_ok_def Let_def)
  have "successively separated (map fst ?es @ k # map fst kvs)" using 2(5) by simp
  from successively_mid [OF this] have sep: "last_key P \<noteq> [] \<Longrightarrow> separated (last_key P) k"
    unfolding lk by presburger
  have es1: "concat (blocks P1) @ open_block P1 = ?es @ [(k, v)]" by (rule plan_add_concat [OF P1(1)])
  have "seps_ok P1" "keys_ok P1"
    using plan_add_seps [OF 2(2,3) P1(1) sep] 2(6) by auto
  moreover have "concat (blocks P1) @ open_block P1 @ kvs = ?es @ (k, v) # kvs"
    using es1 by (metis append.assoc append_Cons append_Nil)
  ultimately show ?case using 2(1) [OF _ _ P1(2)] 2(5,6) by (simp only: append_assoc)
qed simp

subsection \<open>The block the parser picks\<close>

lemma find_index_at:
  "j < length bs \<Longrightarrow> key < shortest_key (bs ! j) \<Longrightarrow> \<forall>i < j. \<not> key < shortest_key (bs ! i) \<Longrightarrow>
     find_index key n bs = n + int j"
proof (induction bs arbitrary: n j)
  case (Cons b bs)
  show ?case
  proof (cases j)
    case 0
    with Cons.prems show ?thesis by simp
  next
    case (Suc i)
    with Cons.prems have "\<not> key < shortest_key b" by fastforce
    moreover have "\<forall>m < i. \<not> key < shortest_key (bs ! m)"
      using Cons.prems(3) Suc by (metis Suc_mono nth_Cons_Suc)
    ultimately show ?thesis using Suc Cons.prems(1,2) Cons.IH [of i "n + 1"] by simp
  qed
qed simp

lemma FindKeyDBIndex_at:
  assumes "index_blocks p = map index_entry es" and "j < length es" and "key < fst (es ! j)"
    and "\<forall>i < j. fst (es ! i) \<le> key"
  shows "FindKeyDBIndex p key = int j"
  using find_index_at [of j "index_blocks p" key 0] assms
  by (auto simp: FindKeyDBIndex_def index_entry_def not_less)

lemma FindKeyDBIndex_none:
  assumes "index_blocks p = map index_entry es" and "\<forall>e \<in> set es. fst e \<le> key"
  shows "FindKeyDBIndex p key = - 1"
  using assms by (auto simp: FindKeyDBIndex_def find_index_spec index_entry_def not_less)

lemma blocks_ascend:
  assumes "sorted_wrt (<) (map fst (concat bs))" and "i < j" and "j < length bs"
    and "(x :: bytes, v) \<in> set (bs ! i)" and "(y, w) \<in> set (bs ! j)"
  shows "x < y"
proof -
  have eq: "concat bs = concat (take j bs) @ bs ! j @ concat (drop (Suc j) bs)"
    using id_take_nth_drop [OF assms(3)] by (metis concat.simps(2) concat_append)
  have "bs ! i \<in> set (take j bs)" using assms(2,3) by (auto simp: in_set_conv_nth intro!: exI [of _ i])
  then have "(x, v) \<in> set (concat (take j bs))" using assms(4) by auto
  then have "x \<in> set (map fst (concat (take j bs)))" by force
  moreover have "y \<in> set (map fst (bs ! j @ concat (drop (Suc j) bs)))" using assms(5) by force
  ultimately show ?thesis
    using assms(1) unfolding eq map_append [of fst "concat (take j bs)"] sorted_wrt_append by blast
qed

text \<open>After closing: the keys of the closed blocks, and those of the block closed at the end.\<close>

lemma bump_back_above:
  assumes "bump_back k = Inr k'" and "last k \<noteq> 255"
  shows "k < k'"
proof (cases k rule: rev_cases)
  case Nil
  with assms(1) show ?thesis by (simp add: bump_back_def)
next
  case (snoc p x)
  then have k': "k' = p @ [x + 1]" using assms(1) unfolding bump_back_def by auto
  have "x \<noteq> 255" using assms(2) snoc by simp
  from byte_up [OF this] have "[x] < [x + 1]" by simp
  then show ?thesis unfolding k' snoc lex_append .
qed

lemma plan_close_seps:
  assumes P: "seps_ok P" "keys_ok P" and close: "plan_close P = Inr P'"
    and top: "open_block P = [] \<or> last (last_key P) \<noteq> 255"
  shows "length (seps P') = length (blocks P')"
    and "\<forall>j < length (blocks P). blocks P' ! j = blocks P ! j \<and> seps P' ! j = seps P ! j"
    and "length (blocks P) \<le> length (blocks P')" and "length (blocks P') \<le> Suc (length (blocks P))"
    and "length (blocks P) < length (blocks P') \<Longrightarrow> (x, y) \<in> set (concat (blocks P')) \<Longrightarrow> x < fst (seps P' ! length (blocks P))"
proof -
  have n: "length (seps P) = length (blocks P)" using P(1) by (simp add: seps_ok_def)
  show "length (seps P') = length (blocks P')" "length (blocks P) \<le> length (blocks P')"
    "length (blocks P') \<le> Suc (length (blocks P))"
    "\<forall>j < length (blocks P). blocks P' ! j = blocks P ! j \<and> seps P' ! j = seps P ! j"
    using close n by (auto simp: plan_close_def bind_res_Inr_iff nth_append split: if_splits)
  assume lt: "length (blocks P) < length (blocks P')" and xy: "(x, y) \<in> set (concat (blocks P'))"
  let ?es = "concat (blocks P) @ open_block P"
  have op: "open_block P \<noteq> []" using close lt by (auto simp: plan_close_def)
  then obtain pk where pk: "bump_back (last_key P) = Inr pk" "fst (seps P' ! length (blocks P)) = pk"
    using close n by (auto simp: plan_close_def bind_res_Inr_iff nth_append)
  have ne: "?es \<noteq> []" using op by simp
  have k: "successively separated (map fst ?es)" "last_key P = last (map fst ?es)"
    using P(2) unfolding keys_ok_def Let_def by (simp_all only: if_not_P [OF ne] last_map [OF ne])
  have "x \<in> set (map fst ?es)" using xy unfolding plan_close_concat [OF close] by force
  from sorted_last [OF separated_sorted [OF k(1)] this] have "x \<le> last_key P" unfolding k(2) .
  also have "last_key P < pk" using bump_back_above [OF pk(1)] top op by simp
  finally show "x < fst (seps P' ! length (blocks P))" unfolding pk(2) .
qed

lemma seps_ok_own:
  assumes "seps_ok P" and "j < length (blocks P)"
  shows "(x, y) \<in> set (concat (take j (blocks P))) \<Longrightarrow> x < fst (seps P ! j)"
    and "(x, y) \<in> set (blocks P ! j) \<Longrightarrow> x \<noteq> fst (last (blocks P ! j)) \<Longrightarrow> x < fst (seps P ! j)"
    and "fst (seps P ! j) \<le> fst (last (blocks P ! j))"
proof -
  let ?c = "blocks P ! j"
  have c: "?c \<noteq> []" and low: "\<forall>(k, v) \<in> set (butlast (concat (take (Suc j) (blocks P)))). k < fst (seps P ! j)"
    and "fst (seps P ! j) \<le> fst (last ?c)"
    using assms by (simp_all add: seps_ok_def)
  then show "fst (seps P ! j) \<le> fst (last ?c)" by simp
  have b: "butlast (concat (take (Suc j) (blocks P))) = concat (take j (blocks P)) @ butlast ?c"
    using c assms(2) by (simp add: take_Suc_conv_app_nth butlast_append)
  show "x < fst (seps P ! j)" if "(x, y) \<in> set (concat (take j (blocks P)))"
    using that low unfolding b set_append by blast
  show "x < fst (seps P ! j)" if "(x, y) \<in> set ?c" "x \<noteq> fst (last ?c)"
  proof -
    have "(x, y) \<in> set (butlast ?c @ [last ?c])" using that(1) by (simp only: append_butlast_last_id [OF c])
    moreover have "(x, y) \<noteq> last ?c" using that(2) by (metis fst_conv)
    ultimately have "(x, y) \<in> set (butlast ?c)" by simp
    then show ?thesis using low unfolding b set_append by blast
  qed
qed

lemma table_index_chooses:
  assumes plan: "plan_adds kvs no_plan = Inr P" "plan_close P = Inr P'"
    and kvs: "successively separated (map fst kvs)" "\<forall>(k, v) \<in> set kvs. k \<noteq> []" "last (fst (last kvs)) \<noteq> 255"
    and p: "index_blocks p = map index_entry (seps P')"
    and j: "j < length (blocks P')" "(k, v) \<in> set (blocks P' ! j)"
  shows "FindKeyDBIndex p k =
           (if j < length (blocks P) \<and> k = fst (last (blocks P' ! j))
            then if Suc j < length (blocks P') then int (Suc j) else - 1
            else int j)"
proof -
  have start: "seps_ok no_plan" "keys_ok no_plan" by (simp_all add: no_plan_def seps_ok_def keys_ok_def)
  have P: "seps_ok P" "keys_ok P"
    using plan_adds_seps [OF start plan(1)] kvs(1,2) by (simp_all add: no_plan_def)
  have cat: "concat (blocks P) @ open_block P = kvs" using plan_adds_concat [OF plan(1)] by (simp add: no_plan_def)
  have cat': "concat (blocks P') = kvs" using plan_close_concat [OF plan(2)] cat by simp
  have "last_key P = fst (last kvs)" if "open_block P \<noteq> []"
    using P(2) that cat by (auto simp: keys_ok_def Let_def)
  then have top: "open_block P = [] \<or> last (last_key P) \<noteq> 255" using kvs(3) by (cases "open_block P = []") simp_all
  note C = plan_close_seps [OF P plan(2) top]
  have same: "blocks P' ! i = blocks P ! i" "seps P' ! i = seps P ! i" if "i < length (blocks P)" for i
    using C(2) that by simp_all
  have srt: "sorted_wrt (<) (map fst (concat (blocks P')))" unfolding cat' by (rule separated_sorted [OF kvs(1)])
  have low: "fst (seps P' ! i) \<le> k" if "i < j" for i
  proof -
    have i: "i < length (blocks P)" using that j(1) C(4) by linarith
    have "blocks P ! i \<noteq> []" using P(1) i by (simp add: seps_ok_def)
    then have "(fst (last (blocks P' ! i)), snd (last (blocks P' ! i))) \<in> set (blocks P' ! i)" by (simp add: same [OF i])
    from blocks_ascend [OF srt that j(1) this j(2)] seps_ok_own(3) [OF P(1) i] show ?thesis
      by (simp add: same [OF i])
  qed
  have inside: "(k, v) \<in> set (concat (take (Suc j) (blocks P')))" and all: "(k, v) \<in> set (concat (blocks P'))"
    using j by (auto simp: take_Suc_conv_app_nth)
  show ?thesis
  proof (cases "j < length (blocks P) \<and> k = fst (last (blocks P' ! j))")
    case last: True
    then have jP: "j < length (blocks P)" and "fst (seps P' ! j) \<le> k"
      using seps_ok_own(3) [OF P(1)] same by auto
    with low have low': "\<forall>i < Suc j. fst (seps P' ! i) \<le> k" by (simp add: less_Suc_eq)
    show ?thesis
    proof (cases "Suc j < length (blocks P')")
      case True
      have "k < fst (seps P' ! Suc j)"
      proof (cases "Suc j < length (blocks P)")
        case small: True
        have "take (Suc j) (blocks P') = take (Suc j) (blocks P)"
          using small C(2,3) by (intro nth_equalityI) auto
        then show ?thesis using seps_ok_own(1) [OF P(1) small] inside same(2) [OF small] by simp
      next
        case False
        with jP True C(5) [OF _ all] C(4) show ?thesis
          by (metis Suc_lessI less_antisym not_less_eq)
      qed
      then show ?thesis using FindKeyDBIndex_at [OF p _ _ low'] True last C(1) by simp
    next
      case False
      then have "\<forall>e \<in> set (seps P'). fst e \<le> k"
        using low' j(1) C(1) by (metis Suc_lessI in_set_conv_nth)
      then show ?thesis using FindKeyDBIndex_none [OF p] False last by simp
    qed
  next
    case False
    have "k < fst (seps P' ! j)"
    proof (cases "j < length (blocks P)")
      case True
      with False seps_ok_own(2) [OF P(1) True, of k v] j(2) same [OF True] show ?thesis by simp
    next
      case ge: False
      then have "j = length (blocks P)" using j(1) C(4) by simp
      then show ?thesis using C(5) [OF _ all] j(1) by simp
    qed
    then have "FindKeyDBIndex p k = int j"
      using FindKeyDBIndex_at [OF p _ _, of j k] low j(1) C(1) by simp
    then show ?thesis by (simp only: if_not_P [OF False])
  qed
qed

text \<open>Each block of the table decodes to its entries.\<close>

lemma decode_block:
  assumes "entries_fit kvs" and "concat bs = kvs" and "c \<in> set bs"
  shows "dec_records (length c) [] (block_of c) = Inr c"
proof (cases "c = []")
  case False
  have "set c \<subseteq> set kvs" using assms(2,3) by auto
  with entries_fit_small [OF assms(1)] have "small c" unfolding small_def by blast
  from block_of_records [OF \<open>small c\<close> False] obtain t where "block_of c = enc_records 0 [] c @ t" by blast
  with dec_enc_records [OF \<open>small c\<close>, of "[]" 0 t] show ?thesis by simp
qed simp

text \<open>A table built from a list of entries, opened and parsed: what its parts are.\<close>

lemma table_built:
  assumes wr: "full_writes wr" and w: "fw_ok w" "fw_total w = []"
    and fb: "FilterBlockBuilder logq num fp = Inr fb" "usable (filterPolicy fb)"
    and kvs: "entries_fit kvs" "kvs \<noteq> []" and plan: "plan_adds kvs no_plan = Inr P" "plan_close P = Inr P'"
    and fin: "finish_filter_block (fb\<lparr>key_data := map fst kvs\<rparr>) = Inr fb1" "finish_filter_block fb1 = Inr fb2"
    and n: "hash_func_num (filterPolicy fb2) = sint n"
    and len: "length (blocks_bytes (blocks P')) + length (fb_data fb2) + length (enc_entries (seps P')) < 2 ^ 31"
    and nl: "10 \<notin> set (sst_layout (blocks_bytes (blocks P')) (fb_data fb2) (enc_entries (seps P')))"
    and mem: "mem (int (length (blocks_bytes (blocks P')) + length (fb_data fb2)) - 4) = Some n"
  shows "\<exists>b b1 b' p0 p. SSTableBuilder logq num w fp = Inr b \<and> sst_adds wr kvs b = Inr b1 \<and>
           finish_sst logq wr b1 = Inr (Success, b') \<and>
           SSTParser (fw_path (fst w)) (snd (fileWriter b')) = Inr p0 \<and> Parse mem p0 = Inr p \<and>
           (\<exists>rest. sst_content p = blocks_bytes (blocks P') @ rest) \<and> concat (blocks P') = kvs \<and>
           (\<forall>c \<in> set (blocks P'). dec_records (length c) [] (block_of c) = Inr c) \<and>
           index_blocks p = map index_entry (seps P') \<and> length (seps P') = length (blocks P') \<and>
           (\<forall>(k, v) \<in> set kvs. Exists p k = Inr True) \<and> closed_after w (fileWriter b')"
proof -
  obtain b where b: "SSTableBuilder logq num w fp = Inr b" "builds b no_plan b" "fileWriter b = w"
    "filterBlockBuilder b = fb" "keys_num b = num" "sb_false_positive b = fp"
    by (rule builds_new [OF w fb])
  have "plan_ok no_plan" by (simp add: plan_ok_def no_plan_def)
  from sst_adds_refine [OF wr b(2) this kvs(1)] plan(1) obtain b1 where b1: "sst_adds wr kvs b = Inr b1"
    "plan_ok P" "builds b P b1" by auto
  have cat: "concat (blocks P) @ open_block P = kvs" using plan_adds_concat [OF plan(1)] by (simp add: no_plan_def)
  have cat': "concat (blocks P') = kvs" using plan_close_concat [OF plan(2)] cat by simp
  have "in_blocks no_plan" by (simp add: in_blocks_def no_plan_def)
  from in_blocks_close [OF in_blocks_adds [OF this plan(1)] plan(2)] have inb: "in_blocks P'" .
  then have ls: "length (seps P') = length (blocks P')" by (simp add: in_blocks_def)
  have some: "seps P' \<noteq> []" using kvs(2) cat' ls by auto
  have fbb: "filterBlockBuilder b1 = fb\<lparr>key_data := map fst kvs\<rparr>" using b1(3) b(4) cat by (simp add: builds_def)
  have lfb: "length (fb_data fb2) = length (bits_array (filterPolicy fb)) + 4"
    using finish_filter_block_length [OF fin] fb(2) by simp
  obtain b' where b': "finish_sst logq wr b1 = Inr (Success, b')"
    "files (snd (fileWriter b')) (fw_path (fst w)) =
       Some (sst_layout (blocks_bytes (blocks P')) (fb_data fb2) (enc_entries (seps P')))"
    "fb_data fb2 = bits_array (filterPolicy fb2) @ EncodeFixed32 (word_of_int (hash_func_num (filterPolicy fb2)))"
    "usable (filterPolicy fb2)" "\<forall>key \<in> set (map fst kvs). holds_key (filterPolicy fb2) key"
    "closed_after (fileWriter b1) (fileWriter b')"
    using finish_sst_refines [OF wr b1(3,2) plan(2) some, of logq fb] len fin fb(1) lfb
    by (auto simp: b(3-6) fbb)
  have "\<forall>e \<in> set (seps P'). small_entry e" using len by (intro in_blocks_small [OF inb]) simp
  from Parse_finished [OF b'(2,3,4) n this len nl, of mem] mem obtain p0 p where p:
    "SSTParser (fw_path (fst w)) (snd (fileWriter b')) = Inr p0" "Parse mem p0 = Inr p"
    "index_blocks p = map index_entry (seps P')"
    "sst_content p = sst_layout (blocks_bytes (blocks P')) (fb_data fb2) (enc_entries (seps P'))"
    "\<forall>key. key \<noteq> [] \<longrightarrow> holds_key (filterPolicy fb2) key \<longrightarrow> Exists p key = Inr True" by blast
  have ex: "\<forall>(k, v) \<in> set kvs. Exists p k = Inr True" using p(5) b'(5) kvs(1) by (force simp: entries_fit_def)
  have dec: "dec_records (length c) [] (block_of c) = Inr c" if "c \<in> set (blocks P')" for c
    by (rule decode_block [OF kvs(1) cat' that])
  have "\<exists>rest. sst_content p = blocks_bytes (blocks P') @ rest" by (simp add: p(4) sst_layout_def)
  moreover have "closed_after w (fileWriter b')"
    using b'(6) b1(3) b(3) by (simp add: closed_after_def builds_def same_file_def)
  ultimately show ?thesis using b(1) b1(1) b'(1) p(1,2,3) ex dec cat' ls by blast
qed

subsection \<open>Properties\<close>

text \<open>
  Adding a list of entries to a new builder does what the abstract builder does: it faults
  when that one faults, and otherwise leaves a file, an open block, an index and a filter list
  that are those of the abstract blocks.
\<close>

theorem sst_build_refines:
  assumes wr: "full_writes wr" and w: "fw_ok w" "fw_total w = []"
    and fb: "FilterBlockBuilder logq num fp = Inr fb" "usable (filterPolicy fb)" and kvs: "entries_fit kvs"
  shows "\<exists>b. SSTableBuilder logq num w fp = Inr b \<and>
           (case plan_adds kvs no_plan of
              Inl f \<Rightarrow> sst_adds wr kvs b = Inl f
            | Inr P \<Rightarrow> \<exists>b'. sst_adds wr kvs b = Inr b' \<and> fw_total (fileWriter b') = blocks_bytes (blocks P) \<and>
                dataBlockBuilder b' = db_adds (open_block P) DataBlockBuilder \<and>
                index_data b' = enc_entries (seps P) \<and> sb_pre_key b' = last_key P \<and>
                key_data (filterBlockBuilder b') = map fst kvs)"
proof -
  obtain b where b: "SSTableBuilder logq num w fp = Inr b" "builds b no_plan b" "fileWriter b = w"
    by (rule builds_new [OF w fb])
  have "plan_ok no_plan" by (simp add: plan_ok_def no_plan_def)
  from sst_adds_refine [OF wr b(2) this kvs] b(1) show ?thesis
    using plan_adds_concat [of kvs no_plan]
    by (fastforce simp: builds_def no_plan_def map_append [symmetric] simp del: map_append split: sum.splits)
qed

theorem sst_build_refines_witness:
  "\<exists>b b'. SSTableBuilder (\<lambda>n fp. - 20) 2 (sample_writer []) (1 / 100) = Inr b \<and>
     sst_adds all_written [([107], [118])] b = Inr b' \<and> fw_total (fileWriter b') = [] \<and> sb_pre_key b' = [107]"
proof -
  have "entries_fit [([107], [118])]" by simp
  note r = sst_build_refines [OF full_writes_all_written sample_writer_ok sample_filter_block sample_filter_usable this]
  have "plan_adds [([107], [118])] no_plan =
      Inr \<lparr>blocks = [], seps = [], open_block = [([107], [118])], last_key = [107]\<rparr>"
    by (simp add: plan_add_def no_plan_def enc_record_def MAX_DATA_BLOCK_SIZE_def)
  with r show ?thesis by (auto simp: blocks_bytes_def)
qed





end
