(* ===== verification/Db_Tables.thy ===== *)
theory Db_Tables
  imports Db_Rollover Sst_Whole
begin

section \<open>From the write to the table file\<close>

text \<open>
  The whole way of the data: \<open>Put\<close> and \<open>MemTableToSST\<close> of \<open>src/db/db_impl.cpp\<close> with a full table,
  the table builder on the entries of the skip list, the file, and the table parser on that file.
  \<open>ConvertToL1SST\<close> is declared as turning the table into a table file with the builder it is
  given; that it does so by adding the entries that the table's iterator yields and finishing
  the builder is a hypothesis here.
\<close>

definition converts_by_adding :: "env \<Rightarrow> bool" where
  "converts_by_adding e \<longleftrightarrow> (\<forall>m path b kvs. mi_entries m = Some kvs \<longrightarrow>
     env_convert e m path b =
       bind_res (sst_adds (env_wr e) kvs b) (\<lambda>b1.
       bind_res (finish_sst (env_logq e) (env_wr e) b1) (\<lambda>(st, b2). Inr b2)))"

text \<open>A sorted list of entries is determined by its map.\<close>

lemma sorted_entries_unique:
  assumes xs: "sorted_wrt (<) (map fst xs)" and ys: "sorted_wrt (<) (map fst ys)"
    and eq: "map_of xs = map_of (ys :: ('k :: linorder \<times> 'v) list)"
  shows "xs = ys"
proof -
  have d: "sorted (map fst xs)" "distinct (map fst xs)" "sorted (map fst ys)" "distinct (map fst ys)"
    using xs ys by (simp_all add: strict_sorted_iff)
  have set: "set xs = set ys" using eq d(2,4) by (metis map_of_eq_Some_iff subrelI subset_antisym)
  have "inj_on fst (set xs \<union> set ys)" using d(2) by (simp add: distinct_map set)
  from map_sorted_distinct_set_unique [OF this d set] show ?thesis .
qed

lemma mt_abs_rep:
  assumes "mt_abs m (map_of kvs)" and "sorted_wrt (<) (map fst kvs)"
  shows "mt_rep m kvs"
proof -
  obtain kvs' where k: "mt_rep m kvs'" "map_of kvs = map_of kvs'" using assms(1) by (auto simp: mt_abs_def)
  from sorted_entries_unique [OF assms(2) mt_rep_sorted [OF k(1)] k(2)] k(1) show ?thesis by simp
qed

lemma renew_writes_table:
  assumes ok: "db_ok e s (map_of kvs) ls" and kvs: "sorted_wrt (<) (map fst kvs)" "entries_fit kvs" "kvs \<noteq> []" "length kvs < 2 ^ 31"
    and conv: "converts_by_adding e" and free: "storage_free s" and new: "files (disk s) (table_path (options s)) = None"
    and fb: "FilterBlockBuilder (env_logq e) (int (length kvs)) (1 / 100) = Inr fb" "usable (filterPolicy fb)"
    and plan: "plan_adds kvs no_plan = Inr P" "plan_close P = Inr P'"
    and fin: "finish_filter_block (fb\<lparr>key_data := map fst kvs\<rparr>) = Inr fb1" "finish_filter_block fb1 = Inr fb2"
    and n: "hash_func_num (filterPolicy fb2) = sint n"
    and len: "length (blocks_bytes (blocks P')) + length (fb_data fb2) + length (enc_entries (seps P')) < 2 ^ 31"
    and nl: "10 \<notin> set (sst_layout (blocks_bytes (blocks P')) (fb_data fb2) (enc_entries (seps P')))"
    and mem: "env_mem e (int (length (blocks_bytes (blocks P')) + length (fb_data fb2)) - 4) = Some n"
  shows "\<exists>s' p0 p. renew_table e s = Inr s' \<and> mem_table s' = MemTable \<and>
           SSTParser (table_path (options s)) (disk s') = Inr p0 \<and> Parse (env_mem e) p0 = Inr p \<and>
           (\<exists>rest. sst_content p = blocks_bytes (blocks P') @ rest) \<and> concat (blocks P') = kvs \<and>
           (\<forall>c \<in> set (blocks P'). dec_records (length c) [] (block_of c) = Inr c) \<and>
           index_blocks p = map index_entry (seps P') \<and> (\<forall>(k, v) \<in> set kvs. Exists p k = Inr True)"
proof -
  let ?p = "table_path (options s)"
  have wr: "full_writes (env_wr e)" and abs: "mt_abs (mem_table s) (map_of kvs)" using ok by (simp_all add: db_ok_def)
  have rep: "mt_rep (mem_table s) kvs" by (rule mt_abs_rep [OF abs kvs(1)])
  have size: "to_int32 (MemTable_GetSize (mem_table s)) = int (length kvs)"
    using mt_rep_counts(1) [OF rep] kvs(4) by simp
  have slash: "47 \<in> set ?p" by (simp add: table_path_def str_def)
  have p: "?p \<notin> dirs (disk s)" "parent_free ?p (disk s)"
    using free by (simp_all add: storage_free_def parent_free_def)
  obtain w d where w: "FileWriter ?p True (disk s) = Inr (w, d)" "fw_ok (w, d)" "fw_total (w, d) = []"
    by (rule FileWriter_opens [OF p(1) slash p(2), of True]) (use new in simp)
  have path: "fw_path (fst (w, d)) = ?p" using FileWriter_effect(1) [OF w(1)] by simp
  from table_built [OF wr w(2,3) fb kvs(2,3) plan fin n len nl, where mem = "env_mem e", OF mem]
  obtain b b1 b' p0 q where b: "SSTableBuilder (env_logq e) (int (length kvs)) (w, d) (1 / 100) = Inr b"
    "sst_adds (env_wr e) kvs b = Inr b1" "finish_sst (env_logq e) (env_wr e) b1 = Inr (Success, b')"
    "SSTParser ?p (snd (fileWriter b')) = Inr p0" "Parse (env_mem e) p0 = Inr q"
    "\<exists>rest. sst_content q = blocks_bytes (blocks P') @ rest" "concat (blocks P') = kvs"
    "\<forall>c \<in> set (blocks P'). dec_records (length c) [] (block_of c) = Inr c"
    "index_blocks q = map index_entry (seps P')" "\<forall>(k, v) \<in> set kvs. Exists q k = Inr True"
    "closed_after (w, d) (fileWriter b')"
    unfolding path by blast
  have "env_convert e (mem_table s) ?p b = Inr b'"
    using conv mi_entries_rep [OF rep] b(2,3) by (simp add: converts_by_adding_def)
  moreover have "destroy_file (env_wr e) (fileWriter b') = Inr (fileWriter b')"
    using b(11) by (simp add: destroy_file_def sync_file_def flush_file_def closed_after_def)
  moreover obtain w2 d2 where wd: "fileWriter b' = (w2, d2)" by (cases "fileWriter b'")
  ultimately have "renew_table e s = Inr (s\<lparr>options := (options s)\<lparr>LISST_NUM := LISST_NUM (options s) + 1\<rparr>,
      disk := d2, mem_table := MemTable\<rparr>)" (is "_ = Inr ?s")
    unfolding renew_table_def MemTableToSST_def Let_def table_path_def [symmetric] size by (simp add: w(1) b(1))
  with b(4-10) show ?thesis unfolding wd by (intro exI [of _ ?s] exI [of _ p0] exI [of _ q]) simp
qed

subsection \<open>A concrete environment\<close>

text \<open>
  The environment of \<open>Db_Correct\<close> with a conversion that adds the entries and finishes, and with
  the number of hash functions of a filter for one key in its memory.
\<close>

definition adding_env :: env where
  "adding_env = sample_env\<lparr>env_mem := \<lambda>a. Some 11, env_convert := \<lambda>m path b.
     bind_res (option_res Undefined_Behaviour (mi_entries m)) (\<lambda>kvs.
     bind_res (sst_adds all_written kvs b) (\<lambda>b1.
     bind_res (finish_sst (\<lambda>n fp. - 10 * n) all_written b1) (\<lambda>(st, b2). Inr b2)))\<rparr>"

lemma adding_env_converts: "converts_by_adding adding_env"
  by (simp add: converts_by_adding_def adding_env_def sample_env_def)

definition one_filter :: filter_block where
  "one_filter =
     \<lparr>filterPolicy = \<lparr>hash_func_num = 11, bits_per_key = 16, bits_array = [0, 0]\<rparr>, key_data = [], fb_data = []\<rparr>"

definition one_finished :: filter_block where
  "one_finished =
     \<lparr>filterPolicy = \<lparr>hash_func_num = 11, bits_per_key = 16, bits_array = [63, 248]\<rparr>, key_data = [[107]],
      fb_data = [63, 248, 11, 0, 0, 0]\<rparr>"

lemma one_filter_block:
  "FilterBlockBuilder (\<lambda>n fp. - 10 * n) 1 (1 / 100) = Inr one_filter"
  by (simp add: FilterBlockBuilder_def BloomFilter_def one_filter_def cdiv_def clamp_hash_num_def Let_def eval_nat_numeral)

lemma one_filter_usable: "usable (filterPolicy one_filter)"
  by (simp add: usable_def one_filter_def)

lemma adding_env_logq: "env_logq adding_env = (\<lambda>n fp. - 10 * n)"
  by (simp add: adding_env_def sample_env_def)

lemma one_filter_finished:
  "finish_filter_block (one_filter\<lparr>key_data := [[107]]\<rparr>) = Inr one_finished"
  "finish_filter_block one_finished = Inr one_finished"
  by code_simp+

lemma one_layout:
  "10 \<notin> set (sst_layout sample_block (fb_data one_finished)
     (enc_entries [([108], \<lparr>oi_size = int (length sample_block), oi_offset = 0\<rparr>)]))"
  by code_simp

subsection \<open>Properties\<close>



end
