(* ===== verification/Db_Epochs.thy ===== *)
theory Db_Epochs
  imports Db_Engine Db_Tables
begin

section \<open>Where the data of a run goes\<close>

text \<open>
  What is on disk after any sequence of calls on a database (\<open>DBImpl\<close> of \<open>src/db/db_impl.cpp\<close>):
  one file for every table that was full, with the entries of that table, and one record of
  the log for every write since the database was opened, for the log is never cut when a
  table is written out. \<open>ConvertToL1SST\<close> is declared as turning a table into the contents of a
  table file: \<open>F\<close> is that function.
\<close>

definition converts_to :: "env \<Rightarrow> ((bytes \<times> bytes) list \<Rightarrow> bytes) \<Rightarrow> bool" where
  "converts_to e F \<longleftrightarrow> (\<forall>m kvs path w b b' x.
     mi_entries m = Some kvs \<and> fw_ok w \<and> fw_total w = [] \<and>
     SSTableBuilder (env_logq e) (int (length kvs)) w (1 / 100) = Inr b \<and>
     env_convert e m path b = Inr b' \<and> destroy_file (env_wr e) (fileWriter b') = Inr x \<longrightarrow>
     files (snd x) (fw_path (fst w)) = Some (F kvs))"

definition table_of :: "Options \<Rightarrow> nat \<Rightarrow> bytes" where
  "table_of opts i = table_path (opts\<lparr>LISST_NUM := LISST_NUM opts + of_nat i\<rparr>)"

lemma table_of_inj:
  assumes "i < 2 ^ 32" and "j < 2 ^ 32"
  shows "table_of opts i = table_of opts j \<longleftrightarrow> i = j"
proof -
  have "unat (of_nat i :: u32) = i" "unat (of_nat j :: u32) = j" using assms by (simp_all add: unat_of_nat)
  then have "(of_nat i :: u32) = of_nat j \<longleftrightarrow> i = j" by metis
  then show ?thesis by (simp add: table_of_def table_path_def BuildSSTPath_inj)
qed

lemma sorted_upsert:
  assumes "sorted_wrt (<) (map fst kvs)"
  shows "sorted_wrt (<) (map fst (alist_upsert (k :: 'k :: linorder) v kvs))"
proof -
  let ?l = "alist_delete k kvs" and ?P = "\<lambda>(a, _). a < k"
  have l: "sorted_wrt (<) (map fst ?l)"
    using assms by (simp add: alist_delete_def sorted_wrt_map sorted_wrt_filter)
  have split: "alist_upsert k v kvs = takeWhile ?P ?l @ (k, v) # dropWhile ?P ?l"
    by (simp add: alist_upsert_def alist_insert_def)
  have parts: "sorted_wrt (<) (map fst (takeWhile ?P ?l @ dropWhile ?P ?l))" using l by simp
  have lo: "a < k" if "(a, b) \<in> set (takeWhile ?P ?l)" for a b using set_takeWhileD [OF that] by simp
  have hi: "k < a" if ab: "(a, b) \<in> set (dropWhile ?P ?l)" for a b
  proof -
    obtain x xs where x: "dropWhile ?P ?l = x # xs" using ab by (cases "dropWhile ?P ?l") auto
    have "\<not> ?P x" using x by (metis dropWhile_eq_Cons_conv)
    then have "k \<le> fst x" by (auto simp: split_def)
    moreover have "fst x \<le> a"
      using parts ab by (auto simp: x sorted_wrt_append dest: less_imp_le)
    moreover have "a \<noteq> k" using set_dropWhileD [OF ab] by (auto simp: alist_delete_def)
    ultimately show ?thesis by auto
  qed
  have "sorted_wrt (<) (map fst (takeWhile ?P ?l))" "sorted_wrt (<) (map fst (dropWhile ?P ?l))"
    using parts unfolding map_append sorted_wrt_append by blast+
  moreover have "\<forall>x \<in> set (map fst (takeWhile ?P ?l)). x < k" "\<forall>x \<in> set (map fst (dropWhile ?P ?l)). k < x"
    using lo hi by auto
  ultimately show ?thesis
    unfolding split map_append list.map fst_conv sorted_wrt_append sorted_wrt.simps
    by (metis (no_types, lifting) less_trans set_ConsD)
qed

subsection \<open>The file of a full table\<close>

lemma renew_table_file:
  assumes ok: "db_ok e s (map_of kvs) ls" and kvs: "sorted_wrt (<) (map fst kvs)" "length kvs < 2 ^ 31"
    and conv: "converts_to e F" and free: "storage_free s" and new: "files (disk s) (table_path (options s)) = None"
    and run: "renew_table e s = Inr s'"
  shows "files (disk s') (table_path (options s)) = Some (F kvs)"
proof -
  let ?p = "table_path (options s)"
  have rep: "mt_rep (mem_table s) kvs" using ok by (intro mt_abs_rep [OF _ kvs(1)]) (simp add: db_ok_def)
  have size: "to_int32 (MemTable_GetSize (mem_table s)) = int (length kvs)"
    using mt_rep_counts(1) [OF rep] kvs(2) by simp
  have slash: "47 \<in> set ?p" by (simp add: table_path_def str_def)
  have p: "?p \<notin> dirs (disk s)" "parent_free ?p (disk s)"
    using free by (simp_all add: storage_free_def parent_free_def)
  obtain w d where w: "FileWriter ?p True (disk s) = Inr (w, d)" "fw_ok (w, d)" "fw_total (w, d) = []"
    by (rule FileWriter_opens [OF p(1) slash p(2), of True]) (use new in simp)
  have path: "fw_path w = ?p" using FileWriter_effect(1) [OF w(1)] .
  from run obtain b b' w2 d2 where b: "SSTableBuilder (env_logq e) (int (length kvs)) (w, d) (1 / 100) = Inr b"
    "env_convert e (mem_table s) ?p b = Inr b'" "destroy_file (env_wr e) (fileWriter b') = Inr (w2, d2)" "disk s' = d2"
    unfolding renew_table_def MemTableToSST_def Let_def table_path_def [symmetric] size
    by (auto simp: w(1) bind_res_Inr_iff)
  with conv mi_entries_rep [OF rep] w(2,3) path have "files (snd (w2, d2)) (fw_path (fst (w, d))) = Some (F kvs)"
    unfolding converts_to_def by blast
  then show ?thesis by (simp add: path b(4))
qed

subsection \<open>What a run keeps\<close>

definition history :: "engine \<Rightarrow> bytes \<Rightarrow> bytes option" where
  "history E = foldl (++) Map.empty (map map_of (e_dumped E)) ++ map_of (e_table E)"

lemma history_settle [simp]: "history (settle full E) = history E"
  by (simp add: history_def settle_def)

lemma history_stores: "stores_in w E E2 \<Longrightarrow> history E2 = op_next (history E) w"
  by (simp add: history_def stores_in_def op_next_def)

definition kept_log :: "env \<Rightarrow> Options \<Rightarrow> bytes \<Rightarrow> db_impl \<Rightarrow> write_op list \<Rightarrow> bool" where
  "kept_log e opts log0 s ws \<longleftrightarrow> fw_path (wal_writer s) = WAL_DIR opts \<and>
     fw_stored (wal_writer s, disk s) = log0 @ session_log e ws \<and>
     fw_total (wal_writer s, disk s) = fw_stored (wal_writer s, disk s)"

definition kept_tables :: "Options \<Rightarrow> ((bytes \<times> bytes) list \<Rightarrow> bytes) \<Rightarrow> db_impl \<Rightarrow> (bytes \<times> bytes) list list \<Rightarrow> bool" where
  "kept_tables opts F s ts \<longleftrightarrow> (\<forall>i < 2 ^ 32. files (disk s) (table_of opts i) =
     (if i < length ts then Some (F (ts ! i)) else None))"

definition kept :: "Options \<Rightarrow> engine \<Rightarrow> write_op list \<Rightarrow> bool" where
  "kept opts E ws \<longleftrightarrow> sorted_wrt (<) (map fst (e_table E)) \<and> (\<forall>t \<in> set (e_dumped E). sorted_wrt (<) (map fst t)) \<and>
     e_number E = LISST_NUM opts + of_nat (length (e_dumped E)) \<and> length (e_dumped E) \<le> length ws \<and>
     history E = fold (\<lambda>w M. op_next M w) ws Map.empty"

lemma kept_settle:
  assumes "kept opts E ws" and "stores_in w E E2"
  shows "kept opts (settle full E2) (ws @ [w])"
  using assms history_stores [OF assms(2)]
  by (auto simp: kept_def stores_in_def sorted_upsert)

lemma session_log_snoc [simp]:
  "session_log e (ws @ [w]) = session_log e ws @ wal_record (env_crc e) (wal_log (op_key w))"
  by (simp add: session_log_def)

lemma session_log_Nil [simp]: "session_log e [] = []"
  by (simp add: session_log_def)

lemma kept_log_write:
  assumes "kept_log e opts log0 s ws" and "wrote_log e (op_key w) s s'"
  shows "kept_log e opts log0 s' (ws @ [w])"
  using assms by (simp add: kept_log_def wrote_log_def same_file_def)

lemma engine_rel_tables:
  assumes "engine_rel e opts d0 n s E"
  shows "table_of opts i \<noteq> fw_path (wal_writer s)"
proof -
  have clear: "storage_clear d0 s" and opt: "options s = opts\<lparr>LISST_NUM := e_number E\<rparr>" using assms by (simp_all add: engine_rel_def)
  from opt have "(options s)\<lparr>LISST_NUM := n\<rparr> = opts\<lparr>LISST_NUM := n\<rparr>" for n by simp
  with clear show ?thesis unfolding storage_clear_def table_of_def by metis
qed

lemma kept_tables_log:
  assumes rel: "engine_rel e opts d0 n s E" and log: "wrote_log e key s s'" and "kept_tables opts F s ts"
  shows "kept_tables opts F s' ts"
  using assms(3) log engine_rel_tables [OF rel]
  by (simp add: kept_tables_def wrote_log_def same_file_def)

lemma kept_renew:
  assumes rel: "engine_rel e opts d0 (Suc n) s E" and st: "stores_in w E E2" and fits: "call_fits (Write w)"
    and K: "kept opts E ws" "kept_log e opts log0 s ws" "kept_tables opts F s (e_dumped E)"
    and conv: "converts_to e F" and few: "Suc (length ws) < 2 ^ 32"
    and s3: "db_ok e s3 (map_of (e_table E2)) (e_shards E2)" "options s3 = options s" "wrote_log e (op_key w) s s3"
    and run: "renew_table e s3 = Inr s'"
  shows "kept_log e opts log0 s' (ws @ [w])" and "kept_tables opts F s' (e_dumped E @ [e_table E2])"
proof -
  let ?p = "table_path (options s)"
  have fit: "budget n E2" using stores_in_budget [OF st _ fits] rel by (simp add: engine_rel_def)
  have conv': "converts e" "sizes_filter e" and free: "storage_free s" and fw: "fw_ok (wal_writer s, disk s)"
    and opt: "options s = opts\<lparr>LISST_NUM := e_number E\<rparr>"
    using rel storage_clear_free by (auto simp: engine_rel_def db_ok_def)
  have free3: "storage_free s3"
    using s3(3) by (intro storage_free_log [OF _ s3(2) fw free]) (simp add: wrote_log_def)
  from renew_table_ok [OF s3(1) stores_in_some [OF st] budget_bytes(2) [OF fit] conv' free3] run
  have s': "wal_writer s' = wal_writer s3" "\<And>q. q \<noteq> ?p \<Longrightarrow> files (disk s') q = files (disk s3) q"
    by (auto simp: s3(2))
  have L3: "kept_log e opts log0 s3 (ws @ [w])" by (rule kept_log_write [OF K(2) s3(3)])
  have p: "?p \<noteq> fw_path (wal_writer s)" using free by (simp add: storage_free_def)
  moreover have "fw_path (wal_writer s3) = fw_path (wal_writer s)" using s3(3) by (simp add: wrote_log_def same_file_def)
  ultimately have "files (disk s') (fw_path (wal_writer s3)) = files (disk s3) (fw_path (wal_writer s3))"
    by (intro s'(2)) simp
  with L3 show "kept_log e opts log0 s' (ws @ [w])"
    unfolding kept_log_def s'(1) fw_stored_def fw_total_def fst_conv snd_conv by metis
  let ?n = "length (e_dumped E)"
  have name: "?p = table_of opts ?n" using K(1) by (simp add: opt table_of_def kept_def)
  have n: "?n < 2 ^ 32" using K(1) few by (simp add: kept_def)
  have T3: "kept_tables opts F s3 (e_dumped E)" by (rule kept_tables_log [OF rel s3(3) K(3)])
  have sorted: "sorted_wrt (<) (map fst (e_table E2))" using K(1) st by (simp add: kept_def stores_in_def sorted_upsert)
  have "length (e_table E2) < 2 ^ 31" using fit by (simp add: budget_def)
  moreover have "files (disk s3) (table_path (options s3)) = None"
    using T3 n by (simp add: s3(2) name kept_tables_def)
  ultimately have "files (disk s') ?p = Some (F (e_table E2))"
    using renew_table_file [OF s3(1) sorted _ conv free3 _ run] by (simp add: s3(2))
  with T3 s'(2) n show "kept_tables opts F s' (e_dumped E @ [e_table E2])"
    unfolding kept_tables_def name by (simp add: table_of_inj nth_append less_Suc_eq)
qed

subsection \<open>The specification with the writes it has seen\<close>

fun noted :: "call \<Rightarrow> write_op list" where
  "noted (Write w) = (if op_logged w then [w] else [])"
| "noted (Read now k out) = []"

fun spec_noted :: "(bytes \<Rightarrow> u64) \<Rightarrow> Options \<Rightarrow> call \<Rightarrow> engine \<times> write_op list \<Rightarrow> (reply \<times> engine \<times> write_op list) res" where
  "spec_noted h opts c (E, ws) = bind_res (spec_call h opts c E) (\<lambda>(r, E'). Inr (r, E', ws @ noted c))"

definition epoch_rel :: "env \<Rightarrow> Options \<Rightarrow> fs \<Rightarrow> ((bytes \<times> bytes) list \<Rightarrow> bytes) \<Rightarrow> nat \<Rightarrow> db_impl \<Rightarrow> engine \<times> write_op list \<Rightarrow> bool" where
  "epoch_rel e opts d0 F n s = (\<lambda>(E, ws). engine_rel e opts d0 n s E \<and> kept opts E ws \<and>
     kept_log e opts (log_content opts d0) s ws \<and> kept_tables opts F s (e_dumped E) \<and> converts_to e F \<and> length ws + n < 2 ^ 32)"

lemma read_keeps:
  assumes "do_call e (Read now k out) s = Inr (r, s')"
  shows "disk s' = disk s" and "wal_writer s' = wal_writer s"
  using assms by (auto simp: DBImpl_Get_def bind_res_Inr_iff split: if_splits option.splits)

lemma spec_read_keeps:
  assumes "spec_call h opts (Read now k out) E = Inr (r, E')"
  shows "e_table E' = e_table E" and "e_number E' = e_number E" and "e_dumped E' = e_dumped E"
  using assms by (auto split: if_splits option.splits)

lemma epoch_step:
  assumes rel: "epoch_rel e opts d0 F (Suc n) s a" and fits: "call_fits c"
  shows "case spec_noted (env_hash e) opts c a of
           Inl f \<Rightarrow> do_call e c s = Inl f
         | Inr (r, a') \<Rightarrow> \<exists>s'. do_call e c s = Inr (r, s') \<and> epoch_rel e opts d0 F n s' a'"
proof -
  obtain E ws where a: "a = (E, ws)" by (cases a)
  have R: "engine_rel e opts d0 (Suc n) s E" and K: "kept opts E ws" "kept_log e opts (log_content opts d0) s ws"
    "kept_tables opts F s (e_dumped E)" and conv: "converts_to e F" and few: "length ws + Suc n < 2 ^ 32"
    using rel by (simp_all add: a epoch_rel_def)
  note step = engine_step [OF R fits]
  show ?thesis
  proof (cases "spec_call (env_hash e) opts c E")
    case (Inl f)
    with step a show ?thesis by simp
  next
    case (Inr p)
    obtain r E' where p: "p = (r, E')" by (cases p)
    with step Inr obtain s' where s': "do_call e c s = Inr (r, s')" "engine_rel e opts d0 n s' E'" by auto
    have "kept opts E' (ws @ noted c) \<and> kept_log e opts (log_content opts d0) s' (ws @ noted c) \<and>
        kept_tables opts F s' (e_dumped E')"
    proof (cases c)
      case (Read now k out)
      note same = read_keeps [OF s'(1) [unfolded Read]] spec_read_keeps [OF Inr [unfolded p Read]]
      show ?thesis using K by (simp add: Read kept_def kept_log_def kept_tables_def history_def same)
    next
      case (Write w)
      show ?thesis
      proof (cases "op_logged w")
        case False
        with write_skipped [of w e s "env_hash e" opts E] Inr p s'(1) K show ?thesis by (simp add: Write)
      next
        case True
        have fits': "call_fits (Write w)" using fits Write by simp
        obtain st E2 full where w: "spec_write (env_hash e) opts w E = (st, settle full E2)"
          "settles e s (op_key w) st E2 full (run_op e w s)" "stores_in w E E2"
          by (rule write_settles [OF R fits' True])
        have E': "E' = settle full E2" using Inr p w(1) by (simp add: Write)
        have run: "\<exists>st'. run_op e w s = Inr (st', s')" using s'(1) by (auto simp: Write bind_res_Inr_iff)
        from w(2) obtain s3 where s3: "run_op e w s = (if full then bind_res (renew_table e s3) (\<lambda>s4. Inr (st, s4)) else Inr (st, s3))"
          "db_ok e s3 (map_of (e_table E2)) (e_shards E2)" "options s3 = options s" "wrote_log e (op_key w) s s3"
          by (auto simp: settles_def)
        have n: "Suc (length ws) < 2 ^ 32" using few by simp
        have "kept_log e opts (log_content opts d0) s' (ws @ [w]) \<and> kept_tables opts F s' (e_dumped E')"
        proof (cases full)
          case False
          with run s3(1) have "s' = s3" by simp
          with False kept_log_write [OF K(2) s3(4)] kept_tables_log [OF R s3(4) K(3)] w(3) show ?thesis
            by (simp add: E' settle_def stores_in_def)
        next
          case True
          with run s3(1) have "renew_table e s3 = Inr s'" by (auto simp: bind_res_Inr_iff)
          from kept_renew [OF R w(3) fits' K conv n s3(2-4) this] w(3) True show ?thesis by (simp add: E' stores_in_def)
        qed
        with kept_settle [OF K(1) w(3)] True show ?thesis by (simp add: Write E')
      qed
    qed
    moreover have "length (noted c) \<le> 1" by (cases c) simp_all
    ultimately show ?thesis using s' Inr p few conv by (simp add: a epoch_rel_def)
  qed
qed

interpretation epochs: simulation "do_call e" "spec_noted (env_hash e) opts" "epoch_rel e opts d0 F" call_fits "\<lambda>_. 1"
  for e opts d0 F
  by unfold_locales (rule epoch_step, simp_all)

lemma runs_noted:
  "run_calls (spec_noted h opts) cs (E, ws) =
     bind_res (run_calls (spec_call h opts) cs E) (\<lambda>(rs, E'). Inr (rs, E', ws @ concat (map noted cs)))"
proof (induction cs arbitrary: E ws)
  case (Cons c cs)
  show ?case
  proof (cases "spec_call h opts c E")
    case (Inr p)
    obtain r E1 where p: "p = (r, E1)" by (cases p)
    show ?thesis by (cases "run_calls (spec_call h opts) cs E1") (auto simp: Inr p Cons)
  qed simp
qed simp

lemma epoch_opens:
  assumes env: "full_writes (env_wr e)" "converts e" "sizes_filter e" "converts_to e F" and at: "fresh_at opts d"
    and none: "\<forall>n. files d (table_path (opts\<lparr>LISST_NUM := n\<rparr>)) = None" and n: "n < 2 ^ 27"
  shows "\<exists>s. DBImpl opts d = Inr s \<and> epoch_rel e opts d F n s (new_engine opts, [])"
proof -
  obtain s where s: "DBImpl opts d = Inr s" "engine_rel e opts d n s (new_engine opts)"
    using engine_opens [OF env(1-3) at n] by blast
  have "opens_at opts d" using at by (simp add: fresh_at_def)
  with DBImpl_disk s(1) have f: "fw_path (wal_writer s) = WAL_DIR opts"
    "files (disk s) = (files d)(WAL_DIR opts \<mapsto> log_content opts d)" "fw_total (wal_writer s, disk s) = log_content opts d"
    by fastforce+
  have "kept_tables opts F s []"
    using none engine_rel_tables [OF s(2)] by (auto simp: kept_tables_def f(1,2) table_of_def)
  moreover have "kept_log e opts (log_content opts d) s []" by (simp add: kept_log_def f fw_stored_def)
  moreover have "kept opts (new_engine opts) []" by (simp add: kept_def new_engine_def history_def)
  ultimately have "epoch_rel e opts d F n s (new_engine opts, [])"
    using s env(4) n by (simp add: epoch_rel_def) (simp add: new_engine_def)
  with s(1) show ?thesis by blast
qed

subsection \<open>A concrete environment\<close>

text \<open>A conversion that writes keys and values one after the other.\<close>

definition flat :: "(bytes \<times> bytes) list \<Rightarrow> bytes" where
  "flat kvs = concat (map (\<lambda>(k, v). k @ v) kvs)"

definition table_data :: "memtable \<Rightarrow> bytes" where
  "table_data m = (case mi_entries m of Some kvs \<Rightarrow> flat kvs | None \<Rightarrow> [])"

definition flat_env :: env where
  "flat_env = sample_env\<lparr>env_convert := \<lambda>m path b.
     bind_res (append_file all_written (table_data m) (int (length (table_data m))) False (fileWriter b)) (\<lambda>(st, w).
       Inr (b\<lparr>fileWriter := w\<rparr>))\<rparr>"

lemma flat_convert:
  assumes "fw_ok (fileWriter b)"
  shows "\<exists>b' x. env_convert flat_env m path b = Inr b' \<and> destroy_file all_written (fileWriter b') = Inr x \<and>
    only_writes (fileWriter b) x \<and>
    files (snd x) (fw_path (fst (fileWriter b))) = Some (fw_total (fileWriter b) @ table_data m)"
proof -
  obtain w st where w: "append_file all_written (table_data m) (int (length (table_data m))) False (fileWriter b) = Inr (st, w)"
    "fw_ok w" "same_file (fileWriter b) w" "fw_total w = fw_total (fileWriter b) @ table_data m"
    using append_file_ok [OF full_writes_all_written assms, of "table_data m" False] by blast
  obtain x where x: "sync_file all_written w = Inr x" "fw_ok x" "same_file w x" "fw_stored x = fw_total w"
    using sync_file_ok [OF full_writes_all_written w(2)] by blast
  have "fd (fst w) \<noteq> - 1" using w(2) by (simp add: fw_ok_def)
  then have "\<exists>y. destroy_file all_written w = Inr y \<and> files (snd y) = files (snd x) \<and> dirs (snd y) = dirs (snd x)"
    using x(1) by (auto simp: destroy_file_def split_def)
  then obtain y where y: "destroy_file all_written w = Inr y" "files (snd y) = files (snd x)" "dirs (snd y) = dirs (snd x)"
    by blast
  have "env_convert flat_env m path b = Inr (b\<lparr>fileWriter := w\<rparr>)" using w(1) by (simp add: flat_env_def)
  moreover have "files (snd y) (fw_path (fst (fileWriter b))) = Some (fw_total (fileWriter b) @ table_data m)"
    using x(2-4) w(3,4) y(2) by (auto simp: fw_stored_def same_file_def fw_ok_def)
  moreover from this have "only_writes (fileWriter b) y" using w(3) x(3) y by (simp add: only_writes_def same_file_def)
  ultimately show ?thesis using y(1) by (intro exI [of _ "b\<lparr>fileWriter := w\<rparr>"] exI [of _ y]) simp
qed

lemma flat_env_simps [simp]: "env_wr flat_env = all_written" "env_hash flat_env = env_hash sample_env"
    "env_logq flat_env = env_logq sample_env"
  by (simp_all add: flat_env_def sample_env_def)

lemma flat_env_converts: "converts flat_env" "sizes_filter flat_env" "converts_to flat_env flat"
proof -
  show "converts flat_env" unfolding converts_def using flat_convert by fastforce
  show "sizes_filter flat_env" using sample_converts(2) by (simp add: sizes_filter_def)
  have "files (snd x) (fw_path (fst w)) = Some (flat kvs)"
    if "mi_entries m = Some kvs" "fw_ok w" "fw_total w = []" "SSTableBuilder (env_logq flat_env) (int (length kvs)) w (1 / 100) = Inr b"
      "env_convert flat_env m path b = Inr b'" "destroy_file all_written (fileWriter b') = Inr x" for m kvs path w b b' x
  proof -
    have b: "fileWriter b = w" using that(4) by (auto simp: SSTableBuilder_def bind_res_Inr_iff)
    from flat_convert [of b m path] that b show ?thesis by (auto simp: table_data_def)
  qed
  then show "converts_to flat_env flat" unfolding converts_to_def flat_env_simps by blast
qed

subsection \<open>Properties\<close>



end
