(* ===== verification/Server.thy ===== *)
theory Server
  imports Db_Threads
begin

section \<open>The server\<close>

text \<open>
  \<open>LSMServer\<close> of \<open>src/server/server.cpp\<close>: parsing of a request in the RESP format, the three
  command handlers and the dispatch. The network library is not under the repository; a
  request is the string that \<open>onMessage\<close> takes from the buffer and a response the string it
  sends. \<open>std::stoi\<close>, \<open>find\<close> and \<open>substr\<close> behave as the standard says, also where the code
  relies on \<open>npos + 1\<close> being zero.
\<close>

definition crlf :: bytes where
  "crlf = [13, 10]"

definition is_space :: "byte \<Rightarrow> bool" where
  "is_space b \<longleftrightarrow> b = 32 \<or> (9 \<le> b \<and> b \<le> 13)"

text \<open>\<open>std::stoi\<close>; \<open>None\<close> when it throws.\<close>

definition stoi :: "bytes \<Rightarrow> int option" where
  "stoi s =
     (let s1 = dropWhile is_space s;
          neg = (s1 \<noteq> [] \<and> hd s1 = 45);
          s2 = (if s1 \<noteq> [] \<and> (hd s1 = 45 \<or> hd s1 = 43) then tl s1 else s1);
          ds = takeWhile is_digit s2;
          v = (if neg then - int (digits_value 0 ds) else int (digits_value 0 ds))
      in if ds = [] \<or> v < - (2 ^ 31) \<or> v \<ge> 2 ^ 31 then None else Some v)"

text \<open>\<open>request.find(c, pos) + 1\<close> for the newline character \<open>c\<close>.\<close>

definition next_line :: "bytes \<Rightarrow> nat \<Rightarrow> nat" where
  "next_line request pos =
     (let n = length (takeWhile (\<lambda>b. b \<noteq> 10) (drop pos request))
      in if pos + n < length request then pos + n + 1 else 0)"

text \<open>\<open>request.substr(pos, len)\<close>: a negative \<open>len\<close> is a huge unsigned count.\<close>

definition substr :: "bytes \<Rightarrow> nat \<Rightarrow> int \<Rightarrow> bytes" where
  "substr request pos len = (if len < 0 then drop pos request else take (nat len) (drop pos request))"

fun resp_loop :: "bytes \<Rightarrow> nat \<Rightarrow> nat \<Rightarrow> bytes list \<Rightarrow> bytes list" where
  "resp_loop request 0 pos args = args"
| "resp_loop request (Suc n) pos args =
     (if pos \<ge> length request \<or> request ! pos \<noteq> 36 then args
      else
        (case stoi (drop (pos + 1) request) of
           None \<Rightarrow> args
         | Some len \<Rightarrow>
             (let pos1 = next_line request pos;
                  args1 = args @ [substr request pos1 len]
              in resp_loop request n (next_line request pos1) args1)))"

definition parseRESP :: "bytes \<Rightarrow> bytes list" where
  "parseRESP request =
     (if request = [] \<or> hd request \<noteq> 42 then []
      else
        (case stoi (drop 1 request) of
           None \<Rightarrow> []
         | Some numElements \<Rightarrow> resp_loop request (nat numElements) (next_line request 0) []))"

subsection \<open>Commands\<close>

definition quote :: bytes where
  "quote = [39]"

definition arg_error :: "string \<Rightarrow> bytes" where
  "arg_error cmd =
     str ''-ERR wrong number of arguments for '' @ quote @ str cmd @ quote @ str '' command'' @ crlf"

definition err_reply :: "DBStatus \<Rightarrow> bytes" where
  "err_reply st = str ''-ERR '' @ err_msg st @ crlf"

definition handleSet :: "env \<Rightarrow> coins \<Rightarrow> u64 \<Rightarrow> bytes list \<Rightarrow> DB \<Rightarrow> (bytes \<times> DB) res" where
  "handleSet e coin now args db =
     (if length args \<noteq> 3 then Inr (arg_error ''SET'', db)
      else
        bind_res (DB_Put e coin now (args ! 1) (args ! 2) db) (\<lambda>(st, db').
          if status_eq st Success then Inr (str ''+OK'' @ crlf, db') else Inr (err_reply st, db')))"

definition bulk :: "bytes \<Rightarrow> bytes" where
  "bulk v = str ''$'' @ to_string (length v) @ crlf @ v @ crlf"

definition handleGet :: "env \<Rightarrow> u64 \<Rightarrow> bytes list \<Rightarrow> DB \<Rightarrow> (bytes \<times> DB) res" where
  "handleGet e now args db =
     (if length args \<noteq> 2 then Inr (arg_error ''GET'', db)
      else
        bind_res (DB_Get e now (args ! 1) (Some []) db) (\<lambda>(st, out, db').
          if status_eq st Success then Inr (bulk (case out of None \<Rightarrow> [] | Some v \<Rightarrow> v), db')
          else if status_eq st NotFound then Inr (str ''$-1'' @ crlf, db')
          else Inr (err_reply st, db')))"

text \<open>The loop of \<open>handleDel\<close> over the keys that are left.\<close>

fun del_loop :: "env \<Rightarrow> coins \<Rightarrow> u64 \<Rightarrow> bytes list \<Rightarrow> nat \<Rightarrow> DB \<Rightarrow> (nat \<times> DB) res" where
  "del_loop e coin now [] deleted db = Inr (deleted, db)"
| "del_loop e coin now (k # ks) deleted db =
     bind_res (DB_Put e coin now k [] db) (\<lambda>(st, db').
       del_loop e coin now ks (if status_eq st Success then deleted + 1 else deleted) db')"

definition handleDel :: "env \<Rightarrow> coins \<Rightarrow> u64 \<Rightarrow> bytes list \<Rightarrow> DB \<Rightarrow> (bytes \<times> DB) res" where
  "handleDel e coin now args db =
     (if length args < 2 then Inr (arg_error ''DEL'', db)
      else
        bind_res (del_loop e coin now (tl args) 0 db) (\<lambda>(deleted, db').
          Inr (str '':'' @ to_string deleted @ crlf, db')))"

text \<open>\<open>command_handlers_\<close>: the handler registered for a name.\<close>

datatype command = SET | GET | DEL

definition initCommandHandlers :: "bytes \<Rightarrow> command option" where
  "initCommandHandlers = [str ''SET'' \<mapsto> SET, str ''GET'' \<mapsto> GET, str ''DEL'' \<mapsto> DEL]"

fun run_handler :: "command \<Rightarrow> env \<Rightarrow> coins \<Rightarrow> u64 \<Rightarrow> bytes list \<Rightarrow> DB \<Rightarrow> (bytes \<times> DB) res" where
  "run_handler SET e coin now args db = handleSet e coin now args db"
| "run_handler GET e coin now args db = handleGet e now args db"
| "run_handler DEL e coin now args db = handleDel e coin now args db"

definition handleRequest :: "env \<Rightarrow> coins \<Rightarrow> u64 \<Rightarrow> bytes \<Rightarrow> DB \<Rightarrow> (bytes \<times> DB) res" where
  "handleRequest e coin now request db =
     (if request = [] then Inr (str ''-ERR Protocol error: expected '' @ quote @ str ''*'' @ quote @ crlf, db)
      else if request = str ''PING'' @ crlf then Inr (str ''+PONG'' @ crlf, db)
      else
        (let args = parseRESP request
         in if args = [] then Inr (str ''-ERR Protocol error'' @ crlf, db)
            else
              (case initCommandHandlers (hd args) of
                 Some c \<Rightarrow> run_handler c e coin now args db
               | None \<Rightarrow> Inr (str ''-ERR unknown command '' @ quote @ hd args @ quote @ crlf, db))))"

text \<open>
  The server starts with a database opened with the debugging options. Every time bytes arrive
  on a connection, \<open>onMessage\<close> takes all of the buffer, whatever it holds, handles it as one
  request and sends the response; \<open>serve\<close> does so for the pieces in which the bytes arrive.
\<close>

definition LSMServer :: "fs \<Rightarrow> DB res" where
  "LSMServer d = DB_open MakeOptionsForDebugging d"

definition onMessage :: "env \<Rightarrow> coins \<Rightarrow> u64 \<Rightarrow> bytes \<Rightarrow> DB \<Rightarrow> (bytes \<times> bytes \<times> DB) res" where
  "onMessage e coin now buf db =
     (let msg = buf
      in bind_res (handleRequest e coin now msg db) (\<lambda>(response, db'). Inr (response, [], db')))"

fun serve :: "env \<Rightarrow> coins \<Rightarrow> u64 \<Rightarrow> bytes \<Rightarrow> bytes list \<Rightarrow> DB \<Rightarrow> (bytes list \<times> DB) res" where
  "serve e coin now buf [] db = Inr ([], db)"
| "serve e coin now buf (piece # pieces) db =
     bind_res (onMessage e coin now (buf @ piece) db) (\<lambda>(response, buf', db').
     bind_res (serve e coin now buf' pieces db') (\<lambda>(responses, db'').
       Inr (response # responses, db'')))"

subsection \<open>Parsing what a client sends\<close>

definition enc_arg :: "bytes \<Rightarrow> bytes" where
  "enc_arg a = str ''$'' @ to_string (length a) @ crlf @ a @ crlf"

definition enc_request :: "bytes list \<Rightarrow> bytes" where
  "enc_request args = str ''*'' @ to_string (length args) @ crlf @ concat (map enc_arg args)"

lemma to_string_hd: "is_digit (hd (to_string n))"
  using to_string_digits [of n] to_string_nonempty [of n] by (metis list.set_sel(1))

lemma digit_not: "is_digit b \<Longrightarrow> b \<noteq> 45 \<and> b \<noteq> 43 \<and> \<not> is_space b \<and> b \<noteq> 10"
  by (auto simp: is_digit_def is_space_def word_le_nat_alt)

lemma stoi_to_string:
  assumes "n < 2 ^ 31" and "\<not> is_digit x"
  shows "stoi (to_string n @ x # xs) = Some (int n)"
proof -
  let ?s = "to_string n @ x # xs"
  have h: "hd ?s = hd (to_string n)" "?s \<noteq> []" by simp_all
  have sp: "dropWhile is_space ?s = ?s"
    using digit_not [OF to_string_hd [of n]] h by (cases ?s) auto
  have sg: "hd ?s \<noteq> 45" "hd ?s \<noteq> 43" using digit_not [OF to_string_hd [of n]] h(1) by simp_all
  have ds: "takeWhile is_digit ?s = to_string n" using assms(2) by (simp add: takeWhile_append)
  show ?thesis
    unfolding stoi_def Let_def sp using sg h(2) assms(1) by (simp add: ds)
qed

lemma next_line_at:
  assumes "request = xs @ ys @ 10 # zs" and "10 \<notin> set ys" and "pos = length xs"
  shows "next_line request pos = length xs + length ys + 1"
proof -
  have "takeWhile (\<lambda>b. b \<noteq> 10) (ys @ 10 # zs) = ys" using assms(2) by (auto simp: takeWhile_append)
  then show ?thesis using assms(1,3) by (simp add: next_line_def)
qed

lemma no_newline_number: "10 \<notin> set (to_string n)"
  using to_string_digits [of n] digit_not by blast

lemma str_byte: "str ''$'' = [36]" "str ''*'' = [42]"
  by (simp_all add: str_def)

text \<open>The loop takes the arguments that are there and goes on behind them.\<close>

lemma resp_loop_args:
  assumes "\<forall>a \<in> set as. 10 \<notin> set a \<and> length a < 2 ^ 31"
    and "request = xs @ concat (map enc_arg as) @ ys" and "pos = length xs"
  shows "resp_loop request (length as + m) pos args =
           resp_loop request m (length (xs @ concat (map enc_arg as))) (args @ as)"
  using assms
proof (induction as arbitrary: xs pos args)
  case Nil
  then show ?case by simp
next
  case (Cons a as)
  let ?n = "to_string (length a)" and ?rest = "concat (map enc_arg as) @ ys"
  have a: "10 \<notin> set a" "length a < 2 ^ 31" using Cons.prems(1) by simp_all
  have r: "request = xs @ 36 # ?n @ 13 # 10 # a @ 13 # 10 # ?rest"
    using Cons.prems(2) by (simp add: enc_arg_def [of a] crlf_def str_byte)
  have "drop (pos + 1) request = ?n @ 13 # 10 # a @ 13 # 10 # ?rest"
    using r Cons.prems(3) by simp
  moreover have "stoi (?n @ 13 # 10 # a @ 13 # 10 # ?rest) = Some (int (length a))"
    by (rule stoi_to_string [OF a(2)]) (simp add: is_digit_def)
  ultimately have len: "stoi (drop (pos + 1) request) = Some (int (length a))" by simp
  have "request = xs @ (36 # ?n @ [13]) @ 10 # a @ 13 # 10 # ?rest" using r by simp
  from next_line_at [OF this _ Cons.prems(3)] no_newline_number
  have p1: "next_line request pos = length (xs @ 36 # ?n @ [13, 10])" by simp
  have "request = (xs @ 36 # ?n @ [13, 10]) @ (a @ [13]) @ 10 # ?rest" using r by simp
  from next_line_at [OF this _ refl] a(1)
  have p2: "next_line request (next_line request pos) = length (xs @ enc_arg a)"
    unfolding p1 by (simp add: enc_arg_def crlf_def str_byte)
  have sub: "substr request (next_line request pos) (int (length a)) = a"
  proof -
    have "request = (xs @ 36 # ?n @ [13, 10]) @ a @ 13 # 10 # ?rest" using r by simp
    then show ?thesis unfolding p1 substr_def by (metis append_eq_conv_conj nat_int not_less of_nat_0_le_iff)
  qed
  have at: "pos < length request" "request ! pos = 36" using r Cons.prems(3) by (simp_all add: nth_append)
  have "resp_loop request (length (a # as) + m) pos args =
      resp_loop request (length as + m) (next_line request (next_line request pos)) (args @ [a])"
    using at len sub by (simp add: Let_def)
  also have "\<dots> = resp_loop request m (length ((xs @ enc_arg a) @ concat (map enc_arg as))) ((args @ [a]) @ as)"
    by (rule Cons.IH [of "xs @ enc_arg a"]) (use Cons.prems(1,2) p2 in simp_all)
  finally show ?case by simp
qed

text \<open>An array that announces \<open>n\<close> elements, followed by some of them and other bytes.\<close>

definition enc_array :: "nat \<Rightarrow> bytes list \<Rightarrow> bytes" where
  "enc_array n as = str ''*'' @ to_string n @ crlf @ concat (map enc_arg as)"

lemma enc_request_array: "enc_request as = enc_array (length as) as"
  by (simp add: enc_request_def enc_array_def)

lemma parseRESP_star:
  "req \<noteq> [] \<Longrightarrow> hd req = 42 \<Longrightarrow> stoi (drop 1 req) = Some (int n) \<Longrightarrow>
     parseRESP req = resp_loop req n (next_line req 0) []"
  by (simp add: parseRESP_def)

lemma parseRESP_array:
  assumes "\<forall>a \<in> set as. 10 \<notin> set a \<and> length a < 2 ^ 31" and "length as + m < 2 ^ 31"
  shows "parseRESP (enc_array (length as + m) as @ ys) =
    resp_loop (enc_array (length as + m) as @ ys) m (length (enc_array (length as + m) as)) as"
proof -
  let ?n = "to_string (length as + m)" and ?rest = "concat (map enc_arg as) @ ys"
  let ?req = "enc_array (length as + m) as @ ys" and ?h = "42 # to_string (length as + m) @ [13, 10]"
  have r: "?req = 42 # ?n @ 13 # 10 # ?rest" by (simp add: enc_array_def crlf_def str_byte)
  have num: "stoi (drop 1 ?req) = Some (int (length as + m))"
    unfolding r using stoi_to_string [OF assms(2), of 13 "10 # ?rest"] by (simp add: is_digit_def)
  have p: "next_line ?req 0 = length ?h"
    unfolding r
    using next_line_at [of "42 # ?n @ 13 # 10 # ?rest" "[]" "42 # ?n @ [13]" ?rest 0] no_newline_number
    by simp
  have "?req = ?h @ concat (map enc_arg as) @ ys" by (simp add: r)
  from resp_loop_args [OF assms(1) this p, of m "[]"]
  have "resp_loop ?req (length as + m) (next_line ?req 0) [] =
      resp_loop ?req m (length (enc_array (length as + m) as)) as"
    by (simp add: enc_array_def crlf_def str_byte)
  moreover have "?req \<noteq> []" "hd ?req = 42" by (simp_all add: enc_array_def str_byte)
  ultimately show ?thesis using parseRESP_star [OF _ _ num] by metis
qed

lemma parseRESP_behind:
  assumes "\<forall>a \<in> set as. 10 \<notin> set a \<and> length a < 2 ^ 31" and "length as < 2 ^ 31"
  shows "parseRESP (enc_request as @ ys) = as"
  using parseRESP_array [of as 0 ys] assms by (simp add: enc_request_array)

lemma parseRESP_request:
  assumes "\<forall>a \<in> set as. 10 \<notin> set a \<and> length a < 2 ^ 31" and "length as < 2 ^ 31"
  shows "parseRESP (enc_request as) = as"
  using parseRESP_behind [OF assms, of "[]"] by simp

text \<open>When the bytes end before all announced elements have come, the rest is dropped.\<close>

lemma resp_loop_end: "length request \<le> pos \<Longrightarrow> resp_loop request m pos args = args"
  by (cases m) simp_all

lemma parseRESP_short:
  assumes "\<forall>a \<in> set as. 10 \<notin> set a \<and> length a < 2 ^ 31" and "length as + m < 2 ^ 31"
  shows "parseRESP (enc_array (length as + m) as) = as"
  using parseRESP_array [OF assms, of "[]"] by (simp add: resp_loop_end)

subsection \<open>Replies\<close>

definition server_ok :: "env \<Rightarrow> DB \<Rightarrow> (bytes \<Rightarrow> bytes option) \<Rightarrow> (bytes \<times> bytes) list list \<Rightarrow> bool" where
  "server_ok e db M ls \<longleftrightarrow> db_ok e (impl db) M ls"

lemma handleSet_stores:
  assumes ok: "server_ok e db M ls" and "length k < 2 ^ 24" and "length v < 2 ^ 32 - 1" and "k \<noteq> []" and "v \<noteq> []"
    and "has_room (impl db) (M(c_str k \<mapsto> c_str v))"
  shows "\<exists>db'. handleSet e coin now [cmd, k, v] db = Inr (str ''+OK'' @ crlf, db') \<and>
           server_ok e db' (M(c_str k \<mapsto> c_str v)) (put_shards e (impl db) k v ls) \<and>
           options (impl db') = options (impl db)"
  using Put_stores [of e "impl db" M ls k v coin now] assms
  by (auto simp: server_ok_def handleSet_def DB_Put_def)

lemma handleGet_sees:
  assumes "server_ok e db M ls" and "k \<noteq> []" and "db_view e M ls (c_str k) = Some v"
  shows "\<exists>db' ls'. handleGet e now [cmd, k] db = Inr (bulk v, db') \<and> server_ok e db' M ls' \<and>
           cache_map (env_hash e) ls' = cache_map (env_hash e) ls"
  using Get_sees [of e "impl db" M ls k v now "[]"] assms
  by (fastforce simp: server_ok_def handleGet_def DB_Get_def)

text \<open>Every key of a \<open>DEL\<close> is put with an empty value, which \<open>Put\<close> refuses after storing it.\<close>

lemma del_loop_none:
  assumes "server_ok e db M ls" and "\<forall>k \<in> set ks. length k < 2 ^ 24"
  shows "\<exists>db'. del_loop e coin now ks n db = Inr (n, db') \<and>
           server_ok e db' (\<lambda>j. if j \<in> c_str ` set ks then Some [] else M j) ls \<and>
           options (impl db') = options (impl db)"
  using assms
proof (induction ks arbitrary: db M)
  case Nil
  then show ?case by simp
next
  case (Cons k ks)
  have l0: "length ([] :: bytes) < 2 ^ 32 - 1" by simp
  from Put_invalid [of e "impl db" M ls k "[]" coin now] Cons.prems obtain i where
    i: "DBImpl_Put e coin now k [] (impl db) = Inr (InvalidArgs, i)" "db_ok e i (M(c_str k \<mapsto> [])) ls"
    "options i = options (impl db)"
    by (auto simp: server_ok_def)
  let ?db = "db\<lparr>impl := i\<rparr>"
  have "server_ok e ?db (M(c_str k \<mapsto> [])) ls" using i(2) by (simp add: server_ok_def)
  from Cons.IH [OF this] Cons.prems(2) obtain db' where
    db': "del_loop e coin now ks n ?db = Inr (n, db')"
    "server_ok e db' (\<lambda>j. if j \<in> c_str ` set ks then Some [] else (M(c_str k \<mapsto> [])) j) ls"
    "options (impl db') = options i" by auto
  have "(\<lambda>j. if j \<in> c_str ` set ks then Some [] else (M(c_str k \<mapsto> [])) j)
      = (\<lambda>j. if j \<in> c_str ` set (k # ks) then Some [] else M j)" by (auto simp: fun_eq_iff)
  with db' i(1,3) show ?case by (simp add: DB_Put_def status_eq_def)
qed

lemma handleDel_reply:
  assumes "server_ok e db M ls" and "\<forall>k \<in> set ks. length k < 2 ^ 24" and "ks \<noteq> []"
  shows "\<exists>db'. handleDel e coin now (cmd # ks) db = Inr (str '':0'' @ crlf, db') \<and>
           server_ok e db' (\<lambda>j. if j \<in> c_str ` set ks then Some [] else M j) ls \<and>
           options (impl db') = options (impl db)"
proof -
  have "to_string 0 = [48]" by (subst to_string.simps) simp
  then have "str '':'' @ to_string 0 = str '':0''" by (simp add: str_def)
  then have "str '':'' @ to_string 0 @ crlf = str '':0'' @ crlf" by (metis append.assoc)
  moreover have "2 \<le> length (cmd # ks)" using assms(3) by (cases ks) auto
  ultimately show ?thesis using del_loop_none [OF assms(1,2), of coin now 0]
    by (auto simp: handleDel_def)
qed

text \<open>A well-formed request reaches the handler of its command.\<close>

definition dispatch :: "env \<Rightarrow> coins \<Rightarrow> u64 \<Rightarrow> bytes list \<Rightarrow> DB \<Rightarrow> (bytes \<times> DB) res" where
  "dispatch e coin now as db =
     (case initCommandHandlers (hd as) of
        Some c \<Rightarrow> run_handler c e coin now as db
      | None \<Rightarrow> Inr (str ''-ERR unknown command '' @ quote @ hd as @ quote @ crlf, db))"

lemma handleRequest_parsed:
  assumes "hd request = 42" and "request \<noteq> []" and "parseRESP request = as" and "as \<noteq> []"
  shows "handleRequest e coin now request db = dispatch e coin now as db"
proof -
  have "hd (str ''PING'' @ crlf) = 80" by (simp add: str_def)
  with assms(1) have "request \<noteq> str ''PING'' @ crlf" by auto
  with assms(2-4) show ?thesis by (simp add: handleRequest_def dispatch_def Let_def)
qed

lemma enc_array_hd: "hd (enc_array n as @ ys) = 42" "enc_array n as @ ys \<noteq> []"
  by (simp_all add: enc_array_def str_byte)

lemma handleRequest_behind:
  assumes "\<forall>a \<in> set as. 10 \<notin> set a \<and> length a < 2 ^ 31" and "length as < 2 ^ 31" and "as \<noteq> []"
  shows "handleRequest e coin now (enc_request as @ ys) db = dispatch e coin now as db"
  using handleRequest_parsed [OF _ _ parseRESP_behind [OF assms(1,2)] assms(3)] enc_array_hd
  by (simp add: enc_request_array)

lemma handleRequest_args:
  assumes "\<forall>a \<in> set as. 10 \<notin> set a \<and> length a < 2 ^ 31" and "length as < 2 ^ 31" and "as \<noteq> []"
  shows "handleRequest e coin now (enc_request as) db = dispatch e coin now as db"
  using handleRequest_behind [OF assms, of e coin now "[]"] by simp

lemma handleRequest_short:
  assumes "\<forall>a \<in> set as. 10 \<notin> set a \<and> length a < 2 ^ 31" and "length as + m < 2 ^ 31" and "as \<noteq> []"
  shows "handleRequest e coin now (enc_array (length as + m) as) db = dispatch e coin now as db"
  using handleRequest_parsed [OF _ _ parseRESP_short [OF assms(1,2)] assms(3)] enc_array_hd [of _ _ "[]"] by simp

lemma commands:
  "10 \<notin> set (str ''SET'')" "10 \<notin> set (str ''GET'')" "10 \<notin> set (str ''DEL'')"
  "initCommandHandlers (str ''SET'') = Some SET" "initCommandHandlers (str ''GET'') = Some GET"
  "initCommandHandlers (str ''DEL'') = Some DEL"
  by (simp_all add: str_def initCommandHandlers_def)

lemma handleRequest_set:
  assumes "\<forall>a \<in> {k, v}. 10 \<notin> set a \<and> length a < 2 ^ 31"
  shows "handleRequest e coin now (enc_request [str ''SET'', k, v]) db = handleSet e coin now [str ''SET'', k, v] db"
  using assms commands by (subst handleRequest_args) (simp_all add: dispatch_def)

lemma handleRequest_get:
  assumes "10 \<notin> set k \<and> length k < 2 ^ 31"
  shows "handleRequest e coin now (enc_request [str ''GET'', k]) db = handleGet e now [str ''GET'', k] db"
  using assms commands by (subst handleRequest_args) (simp_all add: dispatch_def)

lemma handleRequest_del:
  assumes "10 \<notin> set k \<and> length k < 2 ^ 31"
  shows "handleRequest e coin now (enc_request [str ''DEL'', k]) db = handleDel e coin now [str ''DEL'', k] db"
  using assms commands by (subst handleRequest_args) (simp_all add: dispatch_def)

lemma sample_db:
  obtains db where "DB_open MakeOptionsForDebugging sample_fs = Inr db"
    and "server_ok sample_env db Map.empty sample_shards" and "options (impl db) = MakeOptionsForDebugging"
proof -
  obtain s where "DBImpl MakeOptionsForDebugging sample_fs = Inr s"
    "db_ok sample_env s Map.empty sample_shards" "options s = MakeOptionsForDebugging"
    by (rule sample_open)
  then show thesis by (intro that [of "\<lparr>impl = s\<rparr>"]) (simp_all add: DB_open_def server_ok_def)
qed

subsection \<open>A session of one client\<close>

text \<open>Commands as a client sends them, what a map answers, and the map that follows.\<close>

datatype client_command = Set_cmd bytes bytes | Get_cmd bytes

fun enc_command :: "client_command \<Rightarrow> bytes" where
  "enc_command (Set_cmd k v) = enc_request [str ''SET'', k, v]"
| "enc_command (Get_cmd k) = enc_request [str ''GET'', k]"

fun reply_of :: "(bytes \<Rightarrow> bytes option) \<Rightarrow> client_command \<Rightarrow> bytes" where
  "reply_of M (Set_cmd k v) = str ''+OK'' @ crlf"
| "reply_of M (Get_cmd k) = bulk (the (M k))"

fun command_next :: "(bytes \<Rightarrow> bytes option) \<Rightarrow> client_command \<Rightarrow> bytes \<Rightarrow> bytes option" where
  "command_next M (Set_cmd k v) = M(k \<mapsto> v)"
| "command_next M (Get_cmd k) = M"

text \<open>Keys and values without newlines; a live value is not set again, an unknown key not asked for.\<close>

fun command_allowed :: "Options \<Rightarrow> (bytes \<Rightarrow> bytes option) \<Rightarrow> client_command \<Rightarrow> bool" where
  "command_allowed opts M (Set_cmd k v) \<longleftrightarrow> 10 \<notin> set k \<and> 10 \<notin> set v \<and> length v < 2 ^ 31 \<and>
     plain_key k \<and> plain_value v \<and> \<not> live M k \<and> fits opts (M(k \<mapsto> v))"
| "command_allowed opts M (Get_cmd k) \<longleftrightarrow> 10 \<notin> set k \<and> plain_key k \<and> M k \<noteq> None"

fun session_allowed :: "Options \<Rightarrow> (bytes \<Rightarrow> bytes option) \<Rightarrow> client_command list \<Rightarrow> bool" where
  "session_allowed opts M [] \<longleftrightarrow> True"
| "session_allowed opts M (c # cs) \<longleftrightarrow> command_allowed opts M c \<and> session_allowed opts (command_next M c) cs"

fun session_replies :: "(bytes \<Rightarrow> bytes option) \<Rightarrow> client_command list \<Rightarrow> bytes list" where
  "session_replies M [] = []"
| "session_replies M (c # cs) = reply_of M c # session_replies (command_next M c) cs"

lemma get_holds:
  assumes h: "db_holds e s M ls" and "plain_key k" and "M k = Some v"
  shows "\<exists>s' ls'. DBImpl_Get e now k (Some out) s = Inr (Success, Some v, s') \<and> db_holds e s' M ls' \<and>
           options s' = options s"
proof -
  have ok: "db_ok e s M ls" "coherent e M ls" using h by (simp_all add: db_holds_def)
  have "db_view e M ls (c_str k) = Some v" using assms(2,3) by (simp add: coherent_view [OF ok(2)])
  moreover have "k \<noteq> []" using assms(2) by (simp add: plain_key_def)
  ultimately obtain s' ls' where "DBImpl_Get e now k (Some out) s = Inr (Success, Some v, s')" "db_ok e s' M ls'"
    "cache_map (env_hash e) ls' = cache_map (env_hash e) ls" "options s' = options s"
    using Get_sees [OF ok(1)] by blast
  with h show ?thesis by (intro exI [of _ s'] exI [of _ ls']) (simp add: db_holds_def coherent_def)
qed

lemma command_step:
  assumes h: "db_holds e (impl db) M ls" and a: "command_allowed (options (impl db)) M c"
  shows "\<exists>db' ls'. onMessage e coin now (enc_command c) db = Inr (reply_of M c, [], db') \<and>
           db_holds e (impl db') (command_next M c) ls' \<and> options (impl db') = options (impl db)"
proof (cases c)
  case (Set_cmd k v)
  with a have kv: "10 \<notin> set k" "10 \<notin> set v" "length v < 2 ^ 31" "plain_key k" "plain_value v" "\<not> live M k"
    "fits (options (impl db)) (M(k \<mapsto> v))" by simp_all
  have len: "length k < 2 ^ 31" using kv(4) by (simp add: plain_key_def)
  obtain s' ls' where s': "DBImpl_Put e coin now k v (impl db) = Inr (Success, s')" "db_holds e s' (M(k \<mapsto> v)) ls'"
    "options s' = options (impl db)" using put_holds [OF h kv(4-7), of coin now] by blast
  have "handleRequest e coin now (enc_command c) db = handleSet e coin now [str ''SET'', k, v] db"
    unfolding Set_cmd enc_command.simps by (rule handleRequest_set) (use kv(1-3) len in simp)
  also have "\<dots> = Inr (str ''+OK'' @ crlf, db\<lparr>impl := s'\<rparr>)" by (simp add: handleSet_def DB_Put_def s'(1))
  finally have "onMessage e coin now (enc_command c) db = Inr (reply_of M c, [], db\<lparr>impl := s'\<rparr>)"
    by (simp add: onMessage_def Set_cmd)
  with s'(2,3) show ?thesis
    by (intro exI [of _ "db\<lparr>impl := s'\<rparr>"] exI [of _ ls']) (simp add: Set_cmd)
next
  case (Get_cmd k)
  with a have k: "10 \<notin> set k" "plain_key k" "M k \<noteq> None" by simp_all
  then obtain v where v: "M k = Some v" by blast
  have len: "length k < 2 ^ 31" using k(2) by (simp add: plain_key_def)
  obtain s' ls' where s': "DBImpl_Get e now k (Some []) (impl db) = Inr (Success, Some v, s')" "db_holds e s' M ls'"
    "options s' = options (impl db)" using get_holds [OF h k(2) v, of now "[]"] by blast
  have "handleRequest e coin now (enc_command c) db = handleGet e now [str ''GET'', k] db"
    unfolding Get_cmd enc_command.simps by (rule handleRequest_get) (use k(1) len in simp)
  also have "\<dots> = Inr (bulk v, db\<lparr>impl := s'\<rparr>)" by (simp add: handleGet_def DB_Get_def s'(1))
  finally have "onMessage e coin now (enc_command c) db = Inr (reply_of M c, [], db\<lparr>impl := s'\<rparr>)"
    by (simp add: onMessage_def Get_cmd v)
  with s'(2,3) show ?thesis
    by (intro exI [of _ "db\<lparr>impl := s'\<rparr>"] exI [of _ ls']) (simp add: Get_cmd)
qed

lemma session_ok:
  assumes "db_holds e (impl db) M ls" and "session_allowed (options (impl db)) M cs"
  shows "\<exists>db' ls'. serve e coin now [] (map enc_command cs) db = Inr (session_replies M cs, db') \<and>
           db_holds e (impl db') (foldl command_next M cs) ls'"
  using assms
proof (induction cs arbitrary: db M ls)
  case Nil
  then show ?case by auto
next
  case (Cons c cs)
  obtain db1 ls1 where db1: "onMessage e coin now (enc_command c) db = Inr (reply_of M c, [], db1)"
    "db_holds e (impl db1) (command_next M c) ls1" "options (impl db1) = options (impl db)"
    using command_step [OF Cons.prems(1), of c coin now] Cons.prems(2) by auto
  from Cons.IH [OF db1(2)] Cons.prems(2) obtain db' ls' where
    "serve e coin now [] (map enc_command cs) db1 = Inr (session_replies (command_next M c) cs, db')"
    "db_holds e (impl db') (foldl command_next (command_next M c) cs) ls'" by (auto simp: db1(3))
  with db1(1) show ?case by auto
qed

lemma parseRESP_no_star: "hd request \<noteq> 42 \<Longrightarrow> parseRESP request = []"
  by (simp add: parseRESP_def)

lemma handleRequest_garbage:
  assumes "hd request = 36" and "request \<noteq> []"
  shows "handleRequest e coin now request db = Inr (str ''-ERR Protocol error'' @ crlf, db)"
proof -
  have "hd (str ''PING'' @ crlf) = 80" by (simp add: str_def)
  with assms(1) have "request \<noteq> str ''PING'' @ crlf" by auto
  with assms parseRESP_no_star [of request] show ?thesis by (simp add: handleRequest_def)
qed

subsection \<open>Properties\<close>

text \<open>
  A client that sends each command in a piece of its own, sets no key that is live and asks
  for known keys only is served like a map: every SET is answered +OK and every GET with the
  value the key has at that point of the session, for sessions of any length.
\<close>

theorem server_session:
  assumes "db_holds e (impl db) M ls" and "session_allowed (options (impl db)) M cs"
  shows "\<exists>db' ls'. serve e coin now [] (map enc_command cs) db = Inr (session_replies M cs, db') \<and>
           db_holds e (impl db') (foldl command_next M cs) ls'"
  by (rule session_ok [OF assms])

theorem server_session_witness:
  "\<exists>db db'. LSMServer sample_fs = Inr db \<and>
     serve sample_env (\<lambda>_. True) 0 [] (map enc_command [Set_cmd [107] [118], Set_cmd [108] [119], Get_cmd [107]]) db =
       Inr ([str ''+OK'' @ crlf, str ''+OK'' @ crlf, bulk [118]], db')"
proof -
  obtain db where db: "DB_open MakeOptionsForDebugging sample_fs = Inr db"
    "server_ok sample_env db Map.empty sample_shards" "options (impl db) = MakeOptionsForDebugging"
    by (rule sample_db)
  have h: "db_holds sample_env (impl db) Map.empty sample_shards"
    by (rule empty_holds [OF _ sample_uncached]) (use db(2,3) in \<open>simp_all add: server_ok_def sample_limits\<close>)
  have "session_allowed (options (impl db)) Map.empty [Set_cmd [107] [118], Set_cmd [108] [119], Get_cmd [107]]"
    by (simp add: db(3) plain_key_def plain_value_def no_nul_def live_def fits_def table_bytes_def sample_limits)
  from server_session [OF h this, of "\<lambda>_. True" 0] db(1) show ?thesis by (auto simp: LSMServer_def)
qed





end
