(* ===== verification/Server_Loop.thy ===== *)
theory Server_Loop
  imports Server
begin

section \<open>The server with several clients\<close>

text \<open>
  \<open>main\<close>, \<open>onConnection\<close> and the connections of \<open>LSMServer\<close> (\<open>src/server/server.cpp\<close>). The event
  loop belongs to another library: it is one thread and calls the callbacks one at a time, so
  that a run of the server is a sequence of events. Each connection has an input buffer; what
  is sent on it is collected. \<open>onConnection\<close> only writes to the log.
\<close>

datatype server_event = Connected nat | Closed nat | Arrived nat u64 bytes

record server =
  db_holder :: DB
  buffers :: "nat \<Rightarrow> bytes"
  sent :: "nat \<Rightarrow> bytes list"

definition server_start :: "fs \<Rightarrow> server res" where
  "server_start d = bind_res (LSMServer d) (\<lambda>db. Inr \<lparr>db_holder = db, buffers = (\<lambda>c. []), sent = (\<lambda>c. [])\<rparr>)"

definition onConnection :: "nat \<Rightarrow> server \<Rightarrow> server" where
  "onConnection c s = s"

fun handle_event :: "env \<Rightarrow> coins \<Rightarrow> server_event \<Rightarrow> server \<Rightarrow> server res" where
  "handle_event e coin (Connected c) s = Inr (onConnection c s)"
| "handle_event e coin (Closed c) s = Inr (onConnection c s)"
| "handle_event e coin (Arrived c now piece) s =
     bind_res (onMessage e coin now (buffers s c @ piece) (db_holder s)) (\<lambda>(response, buf, db).
       Inr (s\<lparr>db_holder := db, buffers := (buffers s)(c := buf), sent := (sent s)(c := sent s c @ [response])\<rparr>))"

fun event_loop :: "env \<Rightarrow> coins \<Rightarrow> server_event list \<Rightarrow> server \<Rightarrow> server res" where
  "event_loop e coin [] s = Inr s"
| "event_loop e coin (ev # evs) s = bind_res (handle_event e coin ev s) (event_loop e coin evs)"

subsection \<open>What each client sees\<close>

text \<open>Clients connect, send whole commands, and go; the commands in the order the loop takes them.\<close>

datatype client_event = Opens nat | Leaves nat | Sends nat u64 client_command

fun as_event :: "client_event \<Rightarrow> server_event" where
  "as_event (Opens c) = Connected c"
| "as_event (Leaves c) = Closed c"
| "as_event (Sends c now cmd) = Arrived c now (enc_command cmd)"

fun commands_of :: "client_event list \<Rightarrow> client_command list" where
  "commands_of [] = []"
| "commands_of (Sends c now cmd # evs) = cmd # commands_of evs"
| "commands_of (ev # evs) = commands_of evs"

text \<open>The answers of one map, each to the client that asked.\<close>

fun replies_to :: "nat \<Rightarrow> (bytes \<Rightarrow> bytes option) \<Rightarrow> client_event list \<Rightarrow> bytes list" where
  "replies_to c M [] = []"
| "replies_to c M (Sends c' now cmd # evs) =
     (if c = c' then [reply_of M cmd] else []) @ replies_to c (command_next M cmd) evs"
| "replies_to c M (ev # evs) = replies_to c M evs"

lemma event_loop_serves:
  assumes "db_holds e (impl (db_holder s)) M ls" and "\<forall>c. buffers s c = []"
    and "session_allowed (options (impl (db_holder s))) M (commands_of evs)"
  shows "\<exists>s' ls'. event_loop e coin (map as_event evs) s = Inr s' \<and>
           db_holds e (impl (db_holder s')) (foldl command_next M (commands_of evs)) ls' \<and>
           (\<forall>c. buffers s' c = [] \<and> sent s' c = sent s c @ replies_to c M evs)"
  using assms
proof (induction evs arbitrary: s M ls)
  case Nil
  then show ?case by auto
next
  case (Cons ev evs)
  show ?case
  proof (cases ev)
    case (Sends c now cmd)
    obtain db ls1 where step: "onMessage e coin now (enc_command cmd) (db_holder s) = Inr (reply_of M cmd, [], db)"
      "db_holds e (impl db) (command_next M cmd) ls1" "options (impl db) = options (impl (db_holder s))"
      using command_step [OF Cons.prems(1), of cmd coin now] Cons.prems(3) by (auto simp: Sends)
    let ?s = "s\<lparr>db_holder := db, buffers := (buffers s)(c := []), sent := (sent s)(c := sent s c @ [reply_of M cmd])\<rparr>"
    have "db_holds e (impl (db_holder ?s)) (command_next M cmd) ls1" "\<forall>c. buffers ?s c = []"
      "session_allowed (options (impl (db_holder ?s))) (command_next M cmd) (commands_of evs)"
      using step(2,3) Cons.prems(2,3) by (simp_all add: Sends)
    from Cons.IH [OF this] obtain s' ls' where s': "event_loop e coin (map as_event evs) ?s = Inr s'"
      "db_holds e (impl (db_holder s')) (foldl command_next (command_next M cmd) (commands_of evs)) ls'"
      "\<forall>c. buffers s' c = [] \<and> sent s' c = sent ?s c @ replies_to c (command_next M cmd) evs" by blast
    have "handle_event e coin (as_event ev) s = Inr ?s" using Cons.prems(2) step(1) by (simp add: Sends)
    with s' show ?thesis by (auto simp: Sends)
  qed (use Cons in \<open>simp_all add: onConnection_def\<close>)
qed

subsection \<open>Properties\<close>

text \<open>
  Any number of clients whose commands the event loop takes in any order, none setting a live
  key again or asking for an unknown one, are served like the users of one map: each client
  receives, on its own connection and in its order, the answers the map gives to its commands
  at the points where they were taken.
\<close>

theorem server_many_clients:
  assumes "db_holds e (impl (db_holder s)) M ls" and "\<forall>c. buffers s c = []"
    and "session_allowed (options (impl (db_holder s))) M (commands_of evs)"
  shows "\<exists>s' ls'. event_loop e coin (map as_event evs) s = Inr s' \<and>
           db_holds e (impl (db_holder s')) (foldl command_next M (commands_of evs)) ls' \<and>
           (\<forall>c. sent s' c = sent s c @ replies_to c M evs)"
  using event_loop_serves [OF assms, of coin] by blast

theorem server_many_clients_witness:
  "\<exists>s s'. server_start sample_fs = Inr s \<and>
     event_loop sample_env (\<lambda>_. True) (map as_event [Opens 1, Opens 2, Sends 1 0 (Set_cmd [107] [118]), Sends 2 0 (Get_cmd [107]),
       Leaves 1, Sends 2 0 (Set_cmd [108] [119])]) s = Inr s' \<and>
     sent s' 1 = [str ''+OK'' @ crlf] \<and> sent s' 2 = [bulk [118], str ''+OK'' @ crlf]"
proof -
  obtain db where db: "DB_open MakeOptionsForDebugging sample_fs = Inr db"
    "server_ok sample_env db Map.empty sample_shards" "options (impl db) = MakeOptionsForDebugging"
    by (rule sample_db)
  let ?s = "\<lparr>db_holder = db, buffers = (\<lambda>c. []), sent = (\<lambda>c. [])\<rparr>"
  let ?evs = "[Opens 1, Opens 2, Sends 1 0 (Set_cmd [107] [118]), Sends 2 0 (Get_cmd [107]), Leaves 1, Sends 2 0 (Set_cmd [108] [119])]"
  have h: "db_holds sample_env (impl (db_holder ?s)) Map.empty sample_shards"
    using empty_holds [OF _ sample_uncached] db(2,3) by (simp add: server_ok_def sample_limits)
  have a: "session_allowed (options (impl (db_holder ?s))) Map.empty (commands_of ?evs)"
    by (simp add: db(3) plain_key_def plain_value_def no_nul_def live_def fits_def table_bytes_def sample_limits)
  have "\<forall>c. buffers ?s c = []" by simp
  from server_many_clients [OF h this a, of "\<lambda>_. True"] obtain s' where
    s': "event_loop sample_env (\<lambda>_. True) (map as_event ?evs) ?s = Inr s'" "\<forall>c. sent s' c = [] @ replies_to c Map.empty ?evs"
    by auto
  have "server_start sample_fs = Inr ?s" using db(1) by (simp add: server_start_def LSMServer_def)
  with s' show ?thesis by (intro exI [of _ ?s] exI [of _ s']) simp
qed

end
