(* ===== verification/Server_Engine.thy ===== *)
theory Server_Engine
  imports Db_Engine Server_Loop
begin

section \<open>The server against its specification\<close>

text \<open>
  The server of \<open>src/server/server.cpp\<close> on input of any kind: whatever bytes arrive on any
  connection, in any order, requests, parts of requests or garbage, its answers are those of
  the specification of the engine behind the same parser, through any number of tables that
  fill up.
\<close>

subsection \<open>The specification\<close>

fun spec_dels :: "(bytes \<Rightarrow> u64) \<Rightarrow> Options \<Rightarrow> bytes list \<Rightarrow> engine \<Rightarrow> engine" where
  "spec_dels h opts [] E = E"
| "spec_dels h opts (k # ks) E = spec_dels h opts ks (store (c_str k) [] E)"

text \<open>\<open>SET\<close> and \<open>GET\<close> are one call each; \<open>DEL\<close> stores an empty value for every key and counts none.\<close>

fun spec_command ::
  "(bytes \<Rightarrow> u64) \<Rightarrow> Options \<Rightarrow> command \<Rightarrow> coins \<Rightarrow> u64 \<Rightarrow> bytes list \<Rightarrow> engine \<Rightarrow> (bytes \<times> engine) res" where
  "spec_command h opts SET coin now args E =
     (if length args \<noteq> 3 then Inr (arg_error ''SET'', E)
      else let w = Put_op coin now (args ! 1) (args ! 2)
        in Inr (if write_status w = Success then str ''+OK'' @ crlf else err_reply InvalidArgs, snd (spec_write h opts w E)))"
| "spec_command h opts GET coin now args E =
     (if length args \<noteq> 2 then Inr (arg_error ''GET'', E)
      else bind_res (spec_call h opts (Read now (args ! 1) []) E) (\<lambda>((st, out), E').
        Inr (if st = Success then bulk (the out) else err_reply st, E')))"
| "spec_command h opts DEL coin now args E =
     (if length args < 2 then Inr (arg_error ''DEL'', E)
      else Inr (str '':'' @ to_string 0 @ crlf, spec_dels h opts (tl args) E))"

definition spec_request ::
  "(bytes \<Rightarrow> u64) \<Rightarrow> Options \<Rightarrow> coins \<Rightarrow> u64 \<Rightarrow> bytes \<Rightarrow> engine \<Rightarrow> (bytes \<times> engine) res" where
  "spec_request h opts coin now request E =
     (if request = [] then Inr (str ''-ERR Protocol error: expected '' @ quote @ str ''*'' @ quote @ crlf, E)
      else if request = str ''PING'' @ crlf then Inr (str ''+PONG'' @ crlf, E)
      else case parseRESP request of
          [] \<Rightarrow> Inr (str ''-ERR Protocol error'' @ crlf, E)
        | cmd # args \<Rightarrow>
            (case initCommandHandlers cmd of
               Some c \<Rightarrow> spec_command h opts c coin now (cmd # args) E
             | None \<Rightarrow> Inr (str ''-ERR unknown command '' @ quote @ cmd @ quote @ crlf, E)))"

record spec_server =
  s_engine :: engine
  s_sent :: "nat \<Rightarrow> bytes list"

fun spec_event ::
  "(bytes \<Rightarrow> u64) \<Rightarrow> Options \<Rightarrow> coins \<Rightarrow> server_event \<Rightarrow> spec_server \<Rightarrow> (unit \<times> spec_server) res" where
  "spec_event h opts coin (Connected c) a = Inr ((), a)"
| "spec_event h opts coin (Closed c) a = Inr ((), a)"
| "spec_event h opts coin (Arrived c now piece) a =
     bind_res (spec_request h opts coin now piece (s_engine a)) (\<lambda>(response, E).
       Inr ((), a\<lparr>s_engine := E, s_sent := (s_sent a)(c := s_sent a c @ [response])\<rparr>))"

subsection \<open>Arguments\<close>

text \<open>No argument is longer than the request it was cut from.\<close>

lemma length_substr: "length (substr request pos len) \<le> length request"
  by (auto simp: substr_def min_def)

lemma resp_loop_short:
  "\<forall>a \<in> set args. length a \<le> length request \<Longrightarrow> a \<in> set (resp_loop request n pos args) \<Longrightarrow> length a \<le> length request"
proof (induction request n pos args rule: resp_loop.induct)
  case (2 request n pos args)
  show ?case
  proof (cases "pos \<ge> length request \<or> request ! pos \<noteq> 36")
    case True
    with 2(2,3) show ?thesis by auto
  next
    case False
    show ?thesis
    proof (cases "stoi (drop (pos + 1) request)")
      case None
      with False 2(2,3) show ?thesis by auto
    next
      case (Some len)
      have "\<forall>x \<in> set (args @ [substr request (next_line request pos) len]). length x \<le> length request"
        using 2(2) length_substr by auto
      from 2(1) [OF False Some refl refl this] 2(3) False Some show ?thesis by (simp add: Let_def)
    qed
  qed
qed simp

lemma parseRESP_args_short: "a \<in> set (parseRESP request) \<Longrightarrow> length a \<le> length request"
  using resp_loop_short [of "[]" request a] by (auto simp: parseRESP_def split: if_splits option.splits)

subsection \<open>The server implements the specification\<close>

text \<open>Every argument of a request counts as one call.\<close>

fun event_cost :: "server_event \<Rightarrow> nat" where
  "event_cost (Arrived c now piece) = length (parseRESP piece)"
| "event_cost ev = 0"

fun event_fits :: "server_event \<Rightarrow> bool" where
  "event_fits (Arrived c now piece) \<longleftrightarrow> length piece < 2 ^ 24"
| "event_fits ev \<longleftrightarrow> True"

definition server_rel :: "env \<Rightarrow> Options \<Rightarrow> fs \<Rightarrow> nat \<Rightarrow> server \<Rightarrow> spec_server \<Rightarrow> bool" where
  "server_rel e opts d0 n s a \<longleftrightarrow>
     engine_rel e opts d0 n (impl (db_holder s)) (s_engine a) \<and> (\<forall>c. buffers s c = []) \<and> sent s = s_sent a"

definition server_event_step :: "env \<Rightarrow> coins \<Rightarrow> server_event \<Rightarrow> server \<Rightarrow> (unit \<times> server) res" where
  "server_event_step e coin ev s = bind_res (handle_event e coin ev s) (\<lambda>s'. Inr ((), s'))"

lemma engine_rel_less:
  assumes "engine_rel e opts d0 (m + n) s E"
  shows "engine_rel e opts d0 n s E"
proof -
  have "budget n E" using assms by (simp add: engine_rel_def budget_def)
  with assms show ?thesis by (simp add: engine_rel_def)
qed

lemma event_loop_runs:
  "event_loop e coin evs s = bind_res (run_calls (server_event_step e coin) evs s) (\<lambda>(_, s'). Inr s')"
proof (induction evs arbitrary: s)
  case (Cons ev evs)
  show ?case
  proof (cases "handle_event e coin ev s")
    case (Inr s1)
    then have "server_event_step e coin ev s = Inr ((), s1)" by (simp add: server_event_step_def)
    with Inr Cons [of s1] show ?thesis
      by (cases "run_calls (server_event_step e coin) evs s1") auto
  qed (simp add: server_event_step_def)
qed simp

lemma del_loop_spec:
  assumes "engine_rel e opts d0 (length ks + n) (impl db) E" and "\<forall>k \<in> set ks. length k < 2 ^ 24"
  shows "\<exists>db'. del_loop e coin now ks deleted db = Inr (deleted, db') \<and>
           engine_rel e opts d0 n (impl db') (spec_dels (env_hash e) opts ks E)"
  using assms
proof (induction ks arbitrary: db E)
  case (Cons k ks)
  have len: "length k < 2 ^ 24" "length ([] :: bytes) < 2 ^ 32 - 1" using Cons.prems(2) by simp_all
  have "engine_rel e opts d0 (Suc (length ks + n)) (impl db) E" using Cons.prems(1) by simp
  from engine_put [OF this len, of coin now] obtain s' where s': "DBImpl_Put e coin now k [] (impl db) = Inr (InvalidArgs, s')"
    "engine_rel e opts d0 (length ks + n) s' (store (c_str k) [] E)" by (auto simp: Let_def)
  have "engine_rel e opts d0 (length ks + n) (impl (db\<lparr>impl := s'\<rparr>)) (store (c_str k) [] E)" using s'(2) by simp
  from Cons.IH [OF this] Cons.prems(2) s'(1) show ?case by (auto simp: DB_Put_def status_eq_def)
qed simp

lemma do_read_iff:
  "do_call e (Read now k out) s = Inr ((st, v), s') \<longleftrightarrow> DBImpl_Get e now k (Some out) s = Inr (st, v, s')"
  "do_call e (Read now k out) s = Inl f \<longleftrightarrow> DBImpl_Get e now k (Some out) s = Inl f"
  by (cases "DBImpl_Get e now k (Some out) s"; auto)+

lemma spec_read_reply:
  "spec_call h opts (Read now k out) E = Inr ((st, v), E') \<Longrightarrow> (st = Success \<and> v \<noteq> None) \<or> st = InvalidArgs"
  by (cases v) (auto split: if_splits option.splits)

lemma command_spec:
  assumes rel: "engine_rel e opts d0 (length args + n) (impl db) E"
    and short: "\<forall>a \<in> set args. length a < 2 ^ 24"
  shows "case spec_command (env_hash e) opts c coin now args E of
           Inl f \<Rightarrow> run_handler c e coin now args db = Inl f
         | Inr (r, E') \<Rightarrow> \<exists>db'. run_handler c e coin now args db = Inr (r, db') \<and> engine_rel e opts d0 n (impl db') E'"
proof (cases c)
  case SET
  show ?thesis
  proof (cases "length args = 3")
    case True
    let ?k = "args ! 1" and ?v = "args ! 2"
    have mem: "?k \<in> set args" "?v \<in> set args" using True by simp_all
    have len: "length ?k < 2 ^ 24" "length ?v < 2 ^ 32 - 1" using short mem by fastforce+
    have "engine_rel e opts d0 (2 + Suc n) (impl db) E" using rel True by (simp add: numeral_eq_Suc)
    from engine_put [OF engine_rel_less [OF this] len, of coin now] obtain s' where s':
      "DBImpl_Put e coin now ?k ?v (impl db) = Inr (write_status (Put_op coin now ?k ?v), s')"
      "engine_rel e opts d0 n s' (snd (spec_write (env_hash e) opts (Put_op coin now ?k ?v) E))"
      using spec_write_status by metis
    then show ?thesis using True
      by (simp add: SET handleSet_def DB_Put_def Let_def status_eq_def del: spec_write.simps)
  next
    case False
    with engine_rel_less [OF rel] show ?thesis by (simp add: SET handleSet_def)
  qed
next
  case GET
  show ?thesis
  proof (cases "length args = 2")
    case True
    have "engine_rel e opts d0 (1 + Suc n) (impl db) E" using rel True by (simp add: numeral_eq_Suc)
    note step = engine_get [OF engine_rel_less [OF this], of now "args ! 1" "[]"]
    show ?thesis
    proof (cases "spec_call (env_hash e) opts (Read now (args ! 1) []) E")
      case (Inl f)
      with step True show ?thesis by (simp add: GET handleGet_def DB_Get_def do_read_iff del: do_call.simps spec_call.simps)
    next
      case (Inr q)
      obtain st v E' where q: "q = ((st, v), E')" by (metis surj_pair)
      with step Inr obtain s' where "DBImpl_Get e now (args ! 1) (Some []) (impl db) = Inr (st, v, s')"
        "engine_rel e opts d0 n s' E'" by (auto simp: do_read_iff simp del: do_call.simps spec_call.simps)
      with spec_read_reply [of "env_hash e" opts now "args ! 1" "[]" E st v E'] Inr q True show ?thesis
        by (auto simp: GET handleGet_def DB_Get_def status_eq_def simp del: spec_call.simps)
    qed
  next
    case False
    with engine_rel_less [OF rel] show ?thesis by (simp add: GET handleGet_def)
  qed
next
  case DEL
  show ?thesis
  proof (cases "length args < 2")
    case False
    then obtain a ks where args: "args = a # ks" by (cases args) auto
    have "engine_rel e opts d0 (1 + (length ks + n)) (impl db) E" using rel by (simp add: args)
    from del_loop_spec [OF engine_rel_less [OF this], of coin now 0] short False show ?thesis
      by (auto simp: DEL args handleDel_def)
  next
    case True
    with engine_rel_less [OF rel] show ?thesis by (simp add: DEL handleDel_def)
  qed
qed

lemma request_spec:
  assumes rel: "engine_rel e opts d0 (length (parseRESP request) + n) (impl db) E" and short: "length request < 2 ^ 24"
  shows "case spec_request (env_hash e) opts coin now request E of
           Inl f \<Rightarrow> handleRequest e coin now request db = Inl f
         | Inr (r, E') \<Rightarrow> \<exists>db'. handleRequest e coin now request db = Inr (r, db') \<and> engine_rel e opts d0 n (impl db') E'"
proof (cases "request = [] \<or> request = str ''PING'' @ crlf \<or> parseRESP request = []")
  case True
  with engine_rel_less [OF rel] show ?thesis by (auto simp: spec_request_def handleRequest_def Let_def)
next
  case False
  then obtain cmd args where p: "parseRESP request = cmd # args" by (cases "parseRESP request") auto
  have "\<forall>a \<in> set (cmd # args). length a < 2 ^ 24"
    using parseRESP_args_short [of _ request] short unfolding p by (meson le_less_trans)
  note step = command_spec [OF rel [unfolded p] this, of _ coin now]
  show ?thesis
  proof (cases "initCommandHandlers cmd")
    case None
    with False p engine_rel_less [OF rel] show ?thesis by (simp add: spec_request_def handleRequest_def Let_def)
  next
    case (Some c)
    with False p have eqs: "handleRequest e coin now request db = run_handler c e coin now (cmd # args) db"
      "spec_request (env_hash e) opts coin now request E = spec_command (env_hash e) opts c coin now (cmd # args) E"
      by (simp_all add: spec_request_def handleRequest_def Let_def)
    from step [of c] show ?thesis unfolding eqs .
  qed
qed

lemma server_step:
  assumes rel: "server_rel e opts d0 (event_cost ev + n) s a" and fits: "event_fits ev"
  shows "case spec_event (env_hash e) opts coin ev a of
           Inl f \<Rightarrow> server_event_step e coin ev s = Inl f
         | Inr (r, a') \<Rightarrow> \<exists>s'. server_event_step e coin ev s = Inr (r, s') \<and> server_rel e opts d0 n s' a'"
proof (cases ev)
  case (Arrived c now piece)
  have E: "engine_rel e opts d0 (length (parseRESP piece) + n) (impl (db_holder s)) (s_engine a)"
    and b: "\<forall>c. buffers s c = []" "sent s = s_sent a" and len: "length piece < 2 ^ 24"
    using rel fits by (simp_all add: Arrived server_rel_def)
  show ?thesis
  proof (cases "spec_request (env_hash e) opts coin now piece (s_engine a)")
    case (Inl f)
    with request_spec [OF E len, of coin now] b(1) show ?thesis
      by (simp add: Arrived server_event_step_def onMessage_def)
  next
    case (Inr p)
    obtain r E' where p: "p = (r, E')" by (cases p)
    from request_spec [OF E len, of coin now] Inr p obtain db' where
      "handleRequest e coin now piece (db_holder s) = Inr (r, db')" "engine_rel e opts d0 n (impl db') E'" by auto
    with b Inr p show ?thesis by (simp add: Arrived server_event_step_def onMessage_def server_rel_def)
  qed
qed (use rel in \<open>simp_all add: server_event_step_def onConnection_def server_rel_def\<close>)

interpretation server: simulation "server_event_step e coin" "spec_event (env_hash e) opts coin"
  "server_rel e opts d0" event_fits event_cost
  for e coin opts d0
  by unfold_locales (rule server_step)

subsection \<open>Properties\<close>



end
