(* ===== verification/Spec2Isabelle.thy ===== *)
theory Spec2Isabelle
  imports Codec Bench Avl_Tree Locks Write_Faults Murmur_Loop Allocator Db_Epochs Server_Engine
begin

text \<open>
  \<^bold>\<open>tiny-db: a key-value store, verified\<close>

  The repository is a small storage engine in C++ with a RESP server in front of it. A write
  goes to a write-ahead log, a skip list in memory and a cache; a read asks the cache, the skip
  list and then one table file. All source paths below are relative to \<open>src/src\<close>.

  \<^bold>\<open>Theories and what they model\<close>

  \<^item> \<open>Db_Prelude\<close>: byte strings, the result type \<open>res\<close> (a \<open>fault\<close> on the left for a failed
    assertion, undefined behaviour, an exception that leaves the operation or a loop that does
    not end), C strings, reads through pointers, \<open>std::to_string\<close>, byte slices of words.
  \<^item> \<open>Codec\<close>: \<open>utils/codec.h\<close>, \<open>codec.cpp\<close>. \<open>Db_Status\<close>: \<open>db/status.h\<close>, \<open>status.cpp\<close>.
  \<^item> \<open>Ordered_Table\<close>: sorted association lists and the locale of an ordered table;
    \<open>Skip_List\<close>, \<open>Skip_List_Correct\<close>: \<open>memtable/skiplist.h\<close> over a heap of nodes with one pointer
    for each level; \<open>Mem_Table\<close>: \<open>memtable/memtable.h\<close>, \<open>memtable.cpp\<close>, \<open>memtable_iterator.h\<close>;
    \<open>Avl_Tree\<close>: the operations of \<open>memtable/avl_tree.h\<close> that have a body.
  \<^item> \<open>Lru_Cache\<close>, \<open>Lru_Correct\<close>: \<open>cache/lru.h\<close>, \<open>node.h\<close> with recency list, index, reference
    counts and garbage station; \<open>Sharded_Cache\<close>: \<open>cache/cache.h\<close>.
  \<^item> \<open>Locks\<close>: \<open>utils/lock.h\<close>, \<open>lock.cpp\<close> as interleaved steps of threads.
  \<^item> \<open>File_Io\<close>: \<open>file/file_writer\<close> and \<open>file_reader\<close> over a file system of contents and
    directories; \<open>Wal\<close>: \<open>wal/wal_writer\<close>, \<open>wal_reader\<close>, \<open>utils/log_format.h\<close>.
  \<^item> \<open>Murmur\<close>: \<open>utils/murmur_hash.h\<close> as a recursive function, \<open>Murmur_Loop\<close>: the copy in
    \<open>filter/bloom_filter.cpp\<close> as its loop over a pointer; \<open>Bloom\<close>: \<open>filter/bloom_filter\<close>;
    \<open>Blocks\<close>: the four block builders of \<open>table/\<close>; \<open>Sst_Builder\<close>: \<open>table/sstable_builder\<close>;
    \<open>Sst_Parser\<close>: \<open>sstparser/\<close>; \<open>Sst_Whole\<close>: tables of any number of blocks, from the first
    entry through the file to the parser, against an abstract builder.
  \<^item> \<open>Db_Impl\<close>: \<open>db/db_impl\<close>, \<open>db/db\<close>, \<open>db/options.h\<close>, composed of the components above.
    \<open>Db_Correct\<close>: what one operation does for tables below the limit; \<open>Db_Rollover\<close>: what the
    operation that fills the table does; \<open>Db_Threads\<close>: several threads in one database;
    \<open>Db_Sessions\<close>: whole sessions, from opening to destruction, and the restart after them;
    \<open>Write_Faults\<close>: any behaviour of \<open>write(2)\<close>, through files, log, tables and sessions;
    \<open>Db_Engine\<close>: an executable specification of the engine and the simulation of every call
    sequence; \<open>Db_Tables\<close>: a full table on its way into a file and through the parser;
    \<open>Db_Epochs\<close>: the table files and the log that a whole run leaves on disk.
  \<^item> \<open>Server\<close>: parsing and the handlers of \<open>server/server.cpp\<close>, \<open>Server_Loop\<close>: its event loop with
    several connections, \<open>Server_Engine\<close>: its answers to any bytes; \<open>Bench\<close>: \<open>main.cpp\<close>; \<open>Comparator\<close>: \<open>utils/comparator.h\<close>; \<open>Allocator\<close>:
    \<open>memory_pool/\<close> and \<open>log/log.cpp\<close>.

  A class is a record of its members, a method a definition of the same name (prefixed where
  two classes share it), from state to result and state. The operations of one component call
  those of the others the way the code does; \<open>DBImpl_Put\<close>, \<open>DBImpl_Delete\<close> and \<open>DBImpl_Get\<close> run
  through the real skip list, cache, file writer, log writer and table parser.

  \<^bold>\<open>Interfaces\<close>

  Every interface is a locale with an interpretation on the model: \<open>ordered_table\<close> (skip list),
  \<open>write_buffer\<close> (memory table), \<open>cache_policy\<close> (LRU), \<open>filter_policy\<close> (Bloom filter),
  \<open>byte_sink\<close> (file writer), \<open>comparator\<close> (byte comparator), \<open>exclusive_lock\<close> (mutex and spin
  lock) and \<open>simulation\<close> (engine and server against their specifications). The clients' lemmas are proved inside the locale or from its interpretation.

  \<^bold>\<open>What is proved\<close>

  \<^item> The skip list, for every outcome of its coin tosses, implements a sorted list of entries,
    and its searches end inside the list; the memory table and its iterator rest on that.
  \<^item> The cache implements a bounded list of entries in order of use; entries are destroyed once
    and not while they are held; where \<open>release\<close> breaks this is shown as well.
  \<^item> The log gives back its records, also when it is cut anywhere in the last one, and reading any
    file as a log ends with exactly the records at its front. Buffered files hold what was
    appended; if \<open>write(2)\<close> falls short the operation aborts and never loses data silently.
  \<^item> A table of any number of blocks decodes to the entries it was built from, its filter finds
    every key, and the block that the parser picks is computed for every key; the places where
    table builder and table parser disagree are stated as theorems.
  \<^item> The database behaves as a map for keys that are not overwritten while they are live, alone,
    in every interleaving of threads, through the server and in the benchmark; outside this
    discipline the theorems state what it does instead (old values from the cache, stored pairs
    reported as invalid, aborts for unknown keys and after a table was written out, a null
    pointer when two readers meet). A session leaves a log that depends on the lengths of the
    keys only, and nothing reads it: a restart forgets what was in memory. The relation
    \<open>db_ok\<close> ties the state of the engine to the map of the active table and the
    entry lists of the shards, \<open>db_holds\<close> adds that the cache agrees with the
    table, \<open>threads_ok\<close> adds the points the readers have reached.
  \<^item> Every sequence of \<open>Put\<close>, \<open>Delete\<close> and \<open>Get\<close>, through any number of full tables, gets the
    replies of a specification of a few lines and aborts exactly where that does; the server does
    so on any bytes from any clients. Writes always return; what they keep in memory is bounded,
    except by the puts that are answered as invalid. With a conversion that does what
    its declaration says, a full table is found complete in the file that the write leaves, and
    the table files with the active table on top are the effect of all writes of the run.
  \<^item> Readers leave the shared lock after at most three sections, both phases of the benchmark end
    under every schedule, a waiting spin lock can be taken.
  \<^item> Several clients of the server are served like the users of one map, whatever the order in
    which the event loop takes their commands.

  \<^bold>\<open>Bounds and fuel\<close>

  Loops over pointers are \<open>partial_function (option)\<close>, so that not ending is
  \<open>None\<close>; the lemmas on well-formed states prove that they return. The parser's
  index loop and the hash loop have a measure. \<open>read_until\<close> takes a number of
  records to try; one for every eight bytes of the file and one more are enough (property
  \<open>wal_reader_total\<close>). \<open>run_alone\<close> takes a number of sections; three
  are enough for every \<open>Get\<close> (theorem \<open>get_sections\<close>). Key lengths
  below \<open>2^24\<close>, value lengths below \<open>2^32 - 1\<close> and table sizes below
  the limit are hypotheses where the code's casts need them. The engine's simulation runs for
  fewer than \<open>2^27\<close> calls, so that the entry count and the byte count of a table
  that is never written out stay within their types; an argument of a request counts
  as a call. Counters are integers cut to
  their width where the code casts or encodes them.

  \<^bold>\<open>Parameters\<close>

  The record \<open>env\<close> holds what is not in the repository or not fixed by the language: \<open>std::hash\<close>,
  the CRC (another library, of which nothing is assumed), the result of \<open>write(2)\<close>, the
  floating-point size expression of the Bloom filter, the memory at the absolute address that
  \<open>Parse\<close> reads, and \<open>ConvertToL1SST\<close>, which is declared and called but defined nowhere. Coin
  tosses and time are arguments.

  \<^bold>\<open>Not modelled\<close>

  \<open>server/redis_wrapper.cpp\<close> and \<open>server/config.cpp\<close> (every line is commented out), the rotations
  of the AVL tree (declared only), what the logger prints and other output, the inside of the
  event loop and the sockets of the server (another library; a run is a sequence of events, a
  connection the sequence of pieces in which its bytes arrive), \<open>ReadOptions\<close> and \<open>WriteOptions\<close>
  (never read), the clock of the benchmark, the greeting program \<open>main.cpp\<close> beside \<open>src/src\<close>,
  and tests. What remains without a definition in the map is declarations and comments.
\<close>

subsection \<open>Properties\<close>

text \<open>
  A SET request for a key that is not cached is answered +OK, and the GET request for the key
  that follows is answered with the value as a bulk string.
\<close>

theorem server_set_then_get:
  assumes ok: "server_ok e db M ls" and k: "no_nul k" "k \<noteq> []" "10 \<notin> set k" "length k < 2 ^ 24"
    and v: "v \<noteq> []" "10 \<notin> set v" "length v < 2 ^ 31"
    and new: "cache_map (env_hash e) ls k = None" "0 < CACHE_SIZE (options (impl db))"
    and room: "has_room (impl db) (M(k \<mapsto> c_str v))"
  shows "\<exists>db1 db2. handleRequest e coin now (enc_request [str ''SET'', k, v]) db = Inr (str ''+OK'' @ crlf, db1) \<and>
           handleRequest e coin now (enc_request [str ''GET'', k]) db1 = Inr (bulk v, db2)"
proof -
  have kk: "c_str k = k" using k(1) by simp
  have len: "length k < 2 ^ 31" "length v < 2 ^ 32 - 1" using k(4) v(3) by simp_all
  have set_req: "handleRequest e coin now (enc_request [str ''SET'', k, v]) d = handleSet e coin now [str ''SET'', k, v] d" for d
    using k(3) len(1) v(2,3) by (intro handleRequest_set) simp_all
  have get_req: "handleRequest e coin now (enc_request [str ''GET'', k]) d = handleGet e now [str ''GET'', k] d" for d
    using k(3) len(1) by (intro handleRequest_get) simp_all
  obtain db1 where db1: "handleSet e coin now [str ''SET'', k, v] db = Inr (str ''+OK'' @ crlf, db1)"
    "server_ok e db1 (M(k \<mapsto> c_str v)) (put_shards e (impl db) k v ls)"
    using handleSet_stores [OF ok k(4) len(2) k(2) v(1), of coin now "str ''SET''"] room unfolding kk by blast
  have "db_view e (M(k \<mapsto> c_str v)) (put_shards e (impl db) k v ls) (c_str k) = Some v"
    unfolding kk using ok new by (intro db_view_put_fresh) (simp_all add: server_ok_def)
  from handleGet_sees [OF db1(2) k(2) this, of now "str ''GET''"] db1(1) show ?thesis
    unfolding set_req get_req by blast
qed

theorem server_set_then_get_witness:
  "\<exists>db db1 db2. DB_open MakeOptionsForDebugging sample_fs = Inr db \<and>
     handleRequest sample_env (\<lambda>_. True) 0 (enc_request [str ''SET'', [107], [118, 0, 119]]) db = Inr (str ''+OK'' @ crlf, db1) \<and>
     handleRequest sample_env (\<lambda>_. True) 0 (enc_request [str ''GET'', [107]]) db1 = Inr (bulk [118, 0, 119], db2)"
proof -
  obtain db where db: "DB_open MakeOptionsForDebugging sample_fs = Inr db"
    "server_ok sample_env db Map.empty sample_shards" "options (impl db) = MakeOptionsForDebugging"
    by (rule sample_db)
  have "\<exists>db1 db2. handleRequest sample_env (\<lambda>_. True) 0 (enc_request [str ''SET'', [107], [118, 0, 119]]) db = Inr (str ''+OK'' @ crlf, db1) \<and>
      handleRequest sample_env (\<lambda>_. True) 0 (enc_request [str ''GET'', [107]]) db1 = Inr (bulk [118, 0, 119], db2)"
    by (rule server_set_then_get [OF db(2)])
      (simp_all add: no_nul_def sample_uncached db(3) sample_limits has_room_def c_str_def table_bytes_def)
  with db(1) show ?thesis by blast
qed

text \<open>
  C19: A DEL request goes through Put with an empty value, is always answered :0, and leaves
  the cache alone: a cached key is still answered with its value by the GET that follows.
\<close>

theorem server_del_keeps_cached:
  assumes ok: "server_ok e db M ls" and k: "no_nul k" "k \<noteq> []" "10 \<notin> set k" "length k < 2 ^ 24"
    and c: "cache_map (env_hash e) ls k = Some w"
  shows "\<exists>db1 db2. handleRequest e coin now (enc_request [str ''DEL'', k]) db = Inr (str '':0'' @ crlf, db1) \<and>
           handleRequest e coin now (enc_request [str ''GET'', k]) db1 = Inr (bulk w, db2)"
proof -
  have kk: "c_str k = k" using k(1) by simp
  have len: "length k < 2 ^ 31" using k(4) by simp
  have del_req: "handleRequest e coin now (enc_request [str ''DEL'', k]) d = handleDel e coin now [str ''DEL'', k] d" for d
    using k(3) len by (intro handleRequest_del) simp_all
  have get_req: "handleRequest e coin now (enc_request [str ''GET'', k]) d = handleGet e now [str ''GET'', k] d" for d
    using k(3) len by (intro handleRequest_get) simp_all
  let ?M = "\<lambda>j. if j \<in> c_str ` set [k] then Some [] else M j"
  obtain db1 where db1: "handleDel e coin now [str ''DEL'', k] db = Inr (str '':0'' @ crlf, db1)"
    "server_ok e db1 ?M ls"
    using handleDel_reply [OF ok, of "[k]" coin now "str ''DEL''"] k(4) by auto
  have "db_view e ?M ls (c_str k) = Some w" using c by (simp add: db_view_def kk)
  from handleGet_sees [OF db1(2) k(2) this, of now "str ''GET''"] db1(1) show ?thesis
    unfolding del_req get_req by blast
qed

theorem server_del_keeps_cached_witness:
  "\<exists>db db1 db2. handleRequest sample_env (\<lambda>_. True) 0 (enc_request [str ''DEL'', [107]]) db = Inr (str '':0'' @ crlf, db1) \<and>
     handleRequest sample_env (\<lambda>_. True) 0 (enc_request [str ''GET'', [107]]) db1 = Inr (bulk [118], db2)"
proof -
  obtain s1 ls1 where s: "db_ok sample_env s1 [[107] \<mapsto> [118]] ls1"
    "cache_map (env_hash sample_env) ls1 [107] = Some [118]" "options s1 = MakeOptionsForDebugging"
    by (rule sample_put)
  have ok: "server_ok sample_env \<lparr>impl = s1\<rparr> [[107] \<mapsto> [118]] ls1"
    using s(1) by (simp add: server_ok_def s(3) sample_limits)
  have "\<exists>db1 db2. handleRequest sample_env (\<lambda>_. True) 0 (enc_request [str ''DEL'', [107]]) \<lparr>impl = s1\<rparr> = Inr (str '':0'' @ crlf, db1) \<and>
      handleRequest sample_env (\<lambda>_. True) 0 (enc_request [str ''GET'', [107]]) db1 = Inr (bulk [118], db2)"
    by (rule server_del_keeps_cached [OF ok _ _ _ _ s(2)]) (simp_all add: no_nul_def)
  then show ?thesis by blast
qed

end
